theory Spec2Isabelle
  imports Main "HOL-Library.Word"
begin

unbundle bit_operations_syntax

section \<open>Extendible hash table (container/hash/extendible\_hash\_table.cpp)\<close>

subsection \<open>Data model\<close>

text \<open>
  A bucket object: its capacity (\<open>size_\<close>), its local depth (\<open>depth_\<close>) and the list of
  the pairs it holds (\<open>list_\<close>, a \<open>std::list\<close>, so order and duplicates are kept).
  The fields lose the trailing underscore of the source.
\<close>

record ('k, 'v) Bucket =
  b_size :: nat
  b_depth :: nat
  b_list :: "('k \<times> 'v) list"

text \<open>
  The table. The directory \<open>dir_\<close> is a vector of shared pointers: several slots may hold
  the same bucket object and the split compares pointers, so the bucket objects live in an
  explicit store (\<open>heap\<close>, addressed by position) and a directory slot holds an address, or
  \<open>None\<close> for the null pointer that \<open>resize\<close> fills new slots with. A bucket that
  the directory no longer references stays in the store. The counters are the source's
  \<open>int\<close> fields; they start at 0 or 1 and are only ever incremented, so they are naturals
  here, and the directory has no bound on its length (memory is not a resource of the
  model).
\<close>

record ('k, 'v) ExtendibleHashTable =
  global_depth :: nat
  bucket_size :: nat
  num_buckets :: nat
  dir :: "nat option list"
  heap :: "('k, 'v) Bucket list"

subsection \<open>Bucket operations\<close>

definition new_Bucket :: "nat \<Rightarrow> nat \<Rightarrow> ('k, 'v) Bucket" where
  "new_Bucket array_size depth = \<lparr>b_size = array_size, b_depth = depth, b_list = []\<rparr>"

definition GetDepth :: "('k, 'v) Bucket \<Rightarrow> nat" where
  "GetDepth b = b_depth b"

definition GetItems :: "('k, 'v) Bucket \<Rightarrow> ('k \<times> 'v) list" where
  "GetItems b = b_list b"

text \<open>
  Modelled from the spec: \<open>Bucket::IsFull\<close> is defined in the header
  extendible\_hash\_table.h, which is not among the sources. The spec's bucket holds
  "at most \<open>bucket_size\<close>" pairs and a split happens "while the target bucket is full";
  the header's one-liner compares the list's length with the capacity.
\<close>

definition IsFull :: "('k, 'v) Bucket \<Rightarrow> bool" where
  "IsFull b = (length (b_list b) = b_size b)"

text \<open>\<open>Bucket::Find\<close>: \<open>std::any_of\<close> stops at the first pair whose key matches.\<close>

fun Bucket_Find :: "'k \<Rightarrow> ('k \<times> 'v) list \<Rightarrow> 'v option" where
  "Bucket_Find key [] = None"
| "Bucket_Find key (item # items) =
     (if fst item = key then Some (snd item) else Bucket_Find key items)"

text \<open>
  The first loop of \<open>Bucket::Insert\<close>: overwrite the value of the first pair whose key
  matches; \<open>None\<close> when the loop ends without a match.
\<close>

fun overwrite :: "'k \<Rightarrow> 'v \<Rightarrow> ('k \<times> 'v) list \<Rightarrow> ('k \<times> 'v) list option" where
  "overwrite key val [] = None"
| "overwrite key val (item # items) =
     (if fst item = key then Some ((fst item, val) # items)
      else map_option (\<lambda>r. item # r) (overwrite key val items))"

text \<open>\<open>Bucket::Insert\<close> returns its boolean together with the bucket after the call.\<close>

definition Bucket_Insert :: "'k \<Rightarrow> 'v \<Rightarrow> ('k, 'v) Bucket \<Rightarrow> bool \<times> ('k, 'v) Bucket" where
  "Bucket_Insert key val b =
     (case overwrite key val (b_list b) of
        Some l \<Rightarrow> (True, b\<lparr>b_list := l\<rparr>)
      | None \<Rightarrow>
          if \<not> IsFull b then (True, b\<lparr>b_list := b_list b @ [(key, val)]\<rparr>)
          else (False, b))"

subsection \<open>Table operations\<close>

text \<open>The constructor: depth 0, one empty bucket, one directory slot.\<close>

definition new_ExtendibleHashTable :: "nat \<Rightarrow> ('k, 'v) ExtendibleHashTable" where
  "new_ExtendibleHashTable bsz =
     \<lparr>global_depth = 0, bucket_size = bsz, num_buckets = 1,
      dir = [Some 0], heap = [new_Bucket bsz 0]\<rparr>"

text \<open>
  \<open>IndexOf\<close>: \<open>std::hash<K>()(key) & ((1 << global_depth_) - 1)\<close>. The hash function is a
  parameter \<open>h\<close> of every operation that hashes.
\<close>

definition IndexOf :: "('k \<Rightarrow> nat) \<Rightarrow> ('k, 'v) ExtendibleHashTable \<Rightarrow> 'k \<Rightarrow> nat" where
  "IndexOf h t key = h key AND (push_bit (global_depth t) 1 - 1)"

definition GetGlobalDepth :: "('k, 'v) ExtendibleHashTable \<Rightarrow> nat" where
  "GetGlobalDepth t = global_depth t"

definition GetNumBuckets :: "('k, 'v) ExtendibleHashTable \<Rightarrow> nat" where
  "GetNumBuckets t = num_buckets t"

text \<open>Dereferencing the pointer in directory slot \<open>i\<close> (\<open>dir_[i]->\<close>).\<close>

definition deref :: "('k, 'v) ExtendibleHashTable \<Rightarrow> nat \<Rightarrow> ('k, 'v) Bucket" where
  "deref t i = heap t ! the (dir t ! i)"

definition GetLocalDepth :: "('k, 'v) ExtendibleHashTable \<Rightarrow> nat \<Rightarrow> nat" where
  "GetLocalDepth t dir_index = GetDepth (deref t dir_index)"

definition Find :: "('k \<Rightarrow> nat) \<Rightarrow> 'k \<Rightarrow> ('k, 'v) ExtendibleHashTable \<Rightarrow> 'v option" where
  "Find h key t = Bucket_Find key (b_list (deref t (IndexOf h t key)))"

text \<open>
  The directory doubling of \<open>Insert\<close>: \<open>dir_.resize(capacity << 1)\<close> appends
  \<open>capacity\<close> null pointers, then the loop copies slot \<open>i\<close> to slot \<open>i + capacity\<close>
  for \<open>i = 0 .. capacity - 1\<close>.
\<close>

fun copy_dir :: "nat \<Rightarrow> nat list \<Rightarrow> nat option list \<Rightarrow> nat option list" where
  "copy_dir capacity [] d = d"
| "copy_dir capacity (i # is) d = copy_dir capacity is (d[i + capacity := d ! i])"

definition double_dir :: "nat option list \<Rightarrow> nat option list" where
  "double_dir d =
     (let capacity = length d
      in copy_dir capacity [0..<capacity] (d @ replicate (push_bit 1 capacity - capacity) None))"

text \<open>
  The rehash loop over the items of the bucket being split: a pair goes to \<open>bucket_1\<close>
  when its hash has the mask bit set, to \<open>bucket_0\<close> otherwise, each time through
  \<open>Bucket::Insert\<close> (whose boolean the source drops).
\<close>

fun rehash :: "('k \<Rightarrow> nat) \<Rightarrow> nat \<Rightarrow> ('k \<times> 'v) list \<Rightarrow>
    ('k, 'v) Bucket \<times> ('k, 'v) Bucket \<Rightarrow> ('k, 'v) Bucket \<times> ('k, 'v) Bucket" where
  "rehash h msk [] (bucket_0, bucket_1) = (bucket_0, bucket_1)"
| "rehash h msk (item # items) (bucket_0, bucket_1) =
     (if h (fst item) AND msk \<noteq> 0
      then rehash h msk items (bucket_0, snd (Bucket_Insert (fst item) (snd item) bucket_1))
      else rehash h msk items (snd (Bucket_Insert (fst item) (snd item) bucket_0), bucket_1))"

text \<open>
  The loop that redirects the directory: every slot that holds the pointer to the split
  bucket gets the pointer to \<open>bucket_1\<close> when the slot's index has the mask bit set, to
  \<open>bucket_0\<close> otherwise.
\<close>

fun redirect :: "nat option \<Rightarrow> nat \<Rightarrow> nat option \<Rightarrow> nat option \<Rightarrow> nat list \<Rightarrow>
    nat option list \<Rightarrow> nat option list" where
  "redirect target msk p0 p1 [] d = d"
| "redirect target msk p0 p1 (i # is) d =
     redirect target msk p0 p1 is
       (if d ! i = target then (if i AND msk \<noteq> 0 then d[i := p1] else d[i := p0]) else d)"

text \<open>
  One pass through the body of the \<open>while\<close> loop of \<open>Insert\<close>: the split of the bucket
  that \<open>key\<close> is directed to. The two new buckets are allocated at the end of the store.
\<close>

definition split_bucket ::
  "('k \<Rightarrow> nat) \<Rightarrow> 'k \<Rightarrow> ('k, 'v) ExtendibleHashTable \<Rightarrow> ('k, 'v) ExtendibleHashTable" where
  "split_bucket h key t =
     (let target = dir t ! IndexOf h t key;
          target_bucket = heap t ! the target;
          t1 = (if GetDepth target_bucket = GetGlobalDepth t
                then t\<lparr>global_depth := global_depth t + 1, dir := double_dir (dir t)\<rparr>
                else t);
          p0 = length (heap t1);
          p1 = length (heap t1) + 1;
          msk = push_bit (GetDepth target_bucket) (1::nat);
          (bucket_0, bucket_1) =
             rehash h msk (GetItems target_bucket)
               (new_Bucket (bucket_size t1) (GetDepth target_bucket + 1),
                new_Bucket (bucket_size t1) (GetDepth target_bucket + 1));
          t2 = t1\<lparr>heap := heap t1 @ [bucket_0, bucket_1], num_buckets := num_buckets t1 + 1\<rparr>
      in t2\<lparr>dir := redirect target msk (Some p0) (Some p1) [0..<length (dir t2)] (dir t2)\<rparr>)"

text \<open>
  The \<open>while\<close> loop of \<open>Insert\<close>: split for as long as the bucket of \<open>key\<close> is full.
  Nothing bounds the number of passes, so the loop is a partial function: \<open>None\<close> is
  the loop that never ends.
\<close>

partial_function (option) split_loop ::
  "('k \<Rightarrow> nat) \<Rightarrow> 'k \<Rightarrow> ('k, 'v) ExtendibleHashTable \<Rightarrow> ('k, 'v) ExtendibleHashTable option" where
  "split_loop h key t =
     (if IsFull (deref t (IndexOf h t key)) then split_loop h key (split_bucket h key t)
      else Some t)"

declare split_loop.simps [code]

text \<open>\<open>Insert\<close>: the loop, then \<open>dir_[IndexOf(key)]->Insert(key, value)\<close>.\<close>

definition Insert ::
  "('k \<Rightarrow> nat) \<Rightarrow> 'k \<Rightarrow> 'v \<Rightarrow> ('k, 'v) ExtendibleHashTable \<Rightarrow> ('k, 'v) ExtendibleHashTable option" where
  "Insert h key val t =
     (case split_loop h key t of
        None \<Rightarrow> None
      | Some t' \<Rightarrow>
          let a = the (dir t' ! IndexOf h t' key)
          in Some (t'\<lparr>heap := (heap t')[a := snd (Bucket_Insert key val (heap t' ! a))]\<rparr>))"

text \<open>
  \<open>std::hash<int>\<close> of the standard library is the identity; it is the hash of the
  concrete scenarios below.
\<close>

definition hash_identity :: "nat \<Rightarrow> nat" where
  "hash_identity k = k"

text \<open>
  Two concrete tables: \<open>eht_one\<close> is the table of capacity 1 after \<open>Insert(0, 10)\<close>,
  \<open>eht_two\<close> the table of capacity 2 after \<open>Insert(0, 10)\<close> and \<open>Insert(1, 11)\<close>.
\<close>

definition eht_one :: "(nat, nat) ExtendibleHashTable" where
  "eht_one = \<lparr>global_depth = 0, bucket_size = 1, num_buckets = 1, dir = [Some 0],
     heap = [\<lparr>b_size = 1, b_depth = 0, b_list = [(0, 10)]\<rparr>]\<rparr>"

definition eht_two :: "(nat, nat) ExtendibleHashTable" where
  "eht_two = \<lparr>global_depth = 0, bucket_size = 2, num_buckets = 1, dir = [Some 0],
     heap = [\<lparr>b_size = 2, b_depth = 0, b_list = [(0, 10), (1, 11)]\<rparr>]\<rparr>"

subsection \<open>The invariant of the table\<close>

text \<open>
  What every table built by the constructor and \<open>Insert\<close> satisfies, with \<open>h\<close> the hash:
  the directory has \<open>2 ^ global_depth\<close> slots, each a pointer to a bucket of the store;
  every bucket has the table's capacity, a depth of at most the global depth, no more pairs
  than its capacity and no key twice; two slots that share a bucket agree on the low
  \<open>depth\<close> bits of their indices; and the hash of every key of a bucket agrees with the
  index of the slot on these bits.
\<close>

definition wf_table :: "('k \<Rightarrow> nat) \<Rightarrow> ('k, 'v) ExtendibleHashTable \<Rightarrow> bool" where
  "wf_table h t \<longleftrightarrow>
     length (dir t) = 2 ^ global_depth t \<and>
     (\<forall>i < length (dir t). \<exists>a. dir t ! i = Some a \<and> a < length (heap t)) \<and>
     (\<forall>b \<in> set (heap t).
        b_size b = bucket_size t \<and> b_depth b \<le> global_depth t \<and>
        length (b_list b) \<le> b_size b \<and> distinct (map fst (b_list b))) \<and>
     (\<forall>i < length (dir t). \<forall>j < length (dir t). dir t ! i = dir t ! j \<longrightarrow>
        take_bit (b_depth (deref t i)) i = take_bit (b_depth (deref t i)) j) \<and>
     (\<forall>i < length (dir t). \<forall>item \<in> set (b_list (deref t i)).
        take_bit (b_depth (deref t i)) (h (fst item)) = take_bit (b_depth (deref t i)) i)"

section \<open>B+ tree (storage/index/b\_plus\_tree.cpp and the page classes)\<close>

subsection \<open>Pages\<close>

definition INVALID_PAGE_ID :: int where
  "INVALID_PAGE_ID = - 1"

definition HEADER_PAGE_ID :: int where
  "HEADER_PAGE_ID = 0"

text \<open>
  How a call can end without its result: an \<open>assert\<close> that fails, a null pointer that is
  dereferenced, an array that is indexed or copied outside its bounds (undefined behaviour
  in the source). \<open>OutOfFuel\<close> is not a behaviour of the program: the functions that
  follow parent or child links take a bound on the number of links they follow, and
  \<open>OutOfFuel\<close> says that the bound was too small.
\<close>

datatype error = AssertionFailed | NullPointer | OutOfBounds | OutOfFuel

datatype IndexPageType = INVALID_INDEX_PAGE | LEAF_PAGE | INTERNAL_PAGE

text \<open>
  A page of the tree: the header fields of \<open>BPlusTreePage\<close> (\<open>page_type_\<close>, \<open>size_\<close>,
  \<open>max_size_\<close>, \<open>parent_page_id_\<close>, \<open>page_id_\<close>), the \<open>next_page_id_\<close> of a leaf, and the
  slot array \<open>array_\<close>. The source reinterprets the same bytes as a leaf or as an internal
  page according to \<open>page_type_\<close>; here a page carries one array for each reading, a leaf
  uses \<open>leaf_array\<close> (key, value) and an internal page \<open>internal_array\<close> (key, child page
  id). An array is a function of the slot number: the slots at and beyond \<open>size_\<close> exist
  and keep what was last written there, as the bytes of the page do. \<open>psize\<close> is
  \<open>size_\<close>.
\<close>

record ('k, 'v) BPlusTreePage =
  page_type :: IndexPageType
  psize :: int
  max_size :: int
  parent_page_id :: int
  page_id :: int
  next_page_id :: int
  leaf_array :: "nat \<Rightarrow> 'k \<times> 'v"
  internal_array :: "nat \<Rightarrow> 'k \<times> int"

text \<open>
  Modelled from the spec: the key comparator is a template parameter whose classes
  (\<open>GenericComparator\<close>) are not among the sources. The spec: "The comparator returns a
  signed integer: negative if a<b, zero if equal, positive if a>b. Keys are totally
  ordered."
\<close>

definition comparator :: "'k::linorder \<Rightarrow> 'k \<Rightarrow> int" where
  "comparator a b = (if a < b then - 1 else if a = b then 0 else 1)"

text \<open>
  Modelled from the spec: the methods of the base class \<open>BPlusTreePage\<close>
  (b\_plus\_tree\_page.cpp is not among the sources). The spec: a page is a leaf or an
  internal page by its \<open>page_type\<close>; the root is the page whose parent is
  \<open>INVALID_PAGE_ID\<close>; "\<open>min_size\<close> is derived: \<open>ceil(max_size/2)\<close> for internal pages
  and \<open>ceil((max_size-1)/2)\<close> for leaves".
\<close>

definition IsLeafPage :: "('k, 'v) BPlusTreePage \<Rightarrow> bool" where
  "IsLeafPage p = (page_type p = LEAF_PAGE)"

definition IsRootPage :: "('k, 'v) BPlusTreePage \<Rightarrow> bool" where
  "IsRootPage p = (parent_page_id p = INVALID_PAGE_ID)"

definition GetMinSize :: "('k, 'v) BPlusTreePage \<Rightarrow> int" where
  "GetMinSize p = (if IsLeafPage p then (max_size p - 1 + 1) div 2 else (max_size p + 1) div 2)"

definition IncreaseSize :: "int \<Rightarrow> ('k, 'v) BPlusTreePage \<Rightarrow> ('k, 'v) BPlusTreePage" where
  "IncreaseSize amount p = p\<lparr>psize := psize p + amount\<rparr>"

text \<open>The entries of a page: the slots below \<open>size_\<close>, in order.\<close>

definition leaf_entries :: "('k, 'v) BPlusTreePage \<Rightarrow> ('k \<times> 'v) list" where
  "leaf_entries p = map (leaf_array p) [0..<nat (psize p)]"

definition internal_entries :: "('k, 'v) BPlusTreePage \<Rightarrow> ('k \<times> int) list" where
  "internal_entries p = map (internal_array p) [0..<nat (psize p)]"

subsection \<open>The array algorithms of the standard library\<close>

text \<open>
  \<open>std::copy(src + s, src + s + n, dst + d)\<close> between two different arrays: slot by slot,
  from the first to the last.
\<close>

fun copy_from :: "(nat \<Rightarrow> 'a) \<Rightarrow> nat \<Rightarrow> nat \<Rightarrow> (nat \<Rightarrow> 'a) \<Rightarrow> nat \<Rightarrow> (nat \<Rightarrow> 'a)" where
  "copy_from src s 0 dst d = dst"
| "copy_from src s (Suc n) dst d = copy_from src (Suc s) n (dst(d := src s)) (Suc d)"

text \<open>
  \<open>std::move(a + s, a + s + n, a + d)\<close> inside one array: slot by slot from the first to
  the last, each assignment reading the array as the earlier ones left it. (The element
  type \<open>std::pair\<close> is not trivially copyable, so this is the loop the library runs.)
\<close>

fun move_within :: "(nat \<Rightarrow> 'a) \<Rightarrow> nat \<Rightarrow> nat \<Rightarrow> nat \<Rightarrow> (nat \<Rightarrow> 'a)" where
  "move_within a s 0 d = a"
| "move_within a s (Suc n) d = move_within (a(d := a s)) (Suc s) n (Suc d)"

text \<open>
  \<open>std::move_backward(a + s, a + s + n, a + e)\<close> inside one array: from the last slot to
  the first, the last one to \<open>e - 1\<close>.
\<close>

fun move_backward_within :: "(nat \<Rightarrow> 'a) \<Rightarrow> nat \<Rightarrow> nat \<Rightarrow> nat \<Rightarrow> (nat \<Rightarrow> 'a)" where
  "move_backward_within a s 0 e = a"
| "move_backward_within a s (Suc n) e =
     move_backward_within (a(e - 1 := a (s + n))) s n (e - 1)"

subsection \<open>Leaf page (b\_plus\_tree\_leaf\_page.cpp)\<close>

definition Leaf_Init ::
  "int \<Rightarrow> int \<Rightarrow> int \<Rightarrow> ('k, 'v) BPlusTreePage \<Rightarrow> ('k, 'v) BPlusTreePage" where
  "Leaf_Init pid parent_id maxsz p =
     p\<lparr>page_type := LEAF_PAGE, psize := 0, page_id := pid, parent_page_id := parent_id,
       next_page_id := INVALID_PAGE_ID, max_size := maxsz\<rparr>"

text \<open>\<open>KeyAt\<close>; the tree calls it with index 0 only.\<close>

definition Leaf_KeyAt :: "('k, 'v) BPlusTreePage \<Rightarrow> nat \<Rightarrow> 'k" where
  "Leaf_KeyAt p index = fst (leaf_array p index)"

text \<open>
  The binary search of \<open>KeyIndex\<close>. \<open>left\<close> starts at 0 and never decreases, and
  \<open>left \<le> mid\<close>, so the slots read are never negative.
\<close>

function KeyIndex_loop :: "(nat \<Rightarrow> 'k::linorder \<times> 'v) \<Rightarrow> 'k \<Rightarrow> int \<Rightarrow> int \<Rightarrow> int" where
  "KeyIndex_loop a key left right =
     (if left < right then
        (let mid = (right - left) div 2 + left
         in if comparator (fst (a (nat mid))) key > 0
            then KeyIndex_loop a key left (mid - 1)
            else KeyIndex_loop a key (mid + 1) right)
      else left)"
  by pat_completeness auto
termination
  by (relation "measure (\<lambda>(a, key, left, right). nat (right - left))") auto

declare KeyIndex_loop.simps [simp del]

definition Leaf_KeyIndex :: "('k::linorder, 'v) BPlusTreePage \<Rightarrow> 'k \<Rightarrow> error + int" where
  "Leaf_KeyIndex p key =
     (if \<not> psize p > 0 then Inl AssertionFailed
      else
        let left = KeyIndex_loop (leaf_array p) key 0 (psize p - 1);
            t = comparator (fst (leaf_array p (nat left))) key
        in if t > 0 then Inr (left - 1) else Inr left)"

text \<open>
  Modelled from the spec: the layout of the page classes is declared in headers that are not
  among the sources. The spec: "header fields are laid out at the start, followed by a
  sorted array of \<open>(key, value)\<close> slots". \<open>KeyIndex\<close> answers \<open>-1\<close> for a key below the
  first key of the leaf, and \<open>Lookup\<close> and \<open>RemoveAndDeleteRecord\<close> then read
  \<open>array_[-1]\<close>: the last bytes of the header of the page, read as an entry. What these
  bytes read as depends on the sizes of the key and value types of the instance; it is the
  parameter \<open>hdr\<close>, a function of the page, of every operation that reads \<open>array_[idx]\<close>
  with the result of \<open>KeyIndex\<close>.
\<close>

definition array_at ::
  "(('k, 'v) BPlusTreePage \<Rightarrow> 'k \<times> 'v) \<Rightarrow> ('k, 'v) BPlusTreePage \<Rightarrow> int \<Rightarrow> 'k \<times> 'v" where
  "array_at hdr p idx = (if idx < 0 then hdr p else leaf_array p (nat idx))"

text \<open>\<open>Lookup\<close>: the value when the key is found.\<close>

definition Leaf_Lookup ::
  "(('k, 'v) BPlusTreePage \<Rightarrow> 'k \<times> 'v) \<Rightarrow> ('k::linorder, 'v) BPlusTreePage \<Rightarrow> 'k \<Rightarrow>
   error + 'v option" where
  "Leaf_Lookup hdr p key =
     (case Leaf_KeyIndex p key of
        Inl e \<Rightarrow> Inl e
      | Inr idx \<Rightarrow>
          if idx < psize p \<and> comparator (fst (array_at hdr p idx)) key = 0
          then Inr (Some (snd (array_at hdr p idx)))
          else Inr None)"

text \<open>The loop of \<open>Insert\<close> that shifts the slots above \<open>idx\<close> up by one, from the top.\<close>

function Insert_shift :: "(nat \<Rightarrow> 'a) \<Rightarrow> int \<Rightarrow> int \<Rightarrow> (nat \<Rightarrow> 'a)" where
  "Insert_shift a idx i =
     (if i > idx then Insert_shift (a(nat i := a (nat (i - 1)))) idx (i - 1) else a)"
  by pat_completeness auto
termination
  by (relation "measure (\<lambda>(a, idx, i). nat (i - idx))") auto

declare Insert_shift.simps [simp del]

text \<open>\<open>Insert\<close> returns the size after the insertion, with the page.\<close>

definition Leaf_Insert ::
  "('k::linorder, 'v) BPlusTreePage \<Rightarrow> 'k \<Rightarrow> 'v \<Rightarrow> error + int \<times> ('k, 'v) BPlusTreePage" where
  "Leaf_Insert p key val =
     (if psize p = 0 then
        Inr (1, p\<lparr>psize := 1, leaf_array := (leaf_array p)(0 := (key, val))\<rparr>)
      else
        case Leaf_KeyIndex p key of
          Inl e \<Rightarrow> Inl e
        | Inr ki \<Rightarrow>
            let idx = ki + 1 in
            if \<not> idx \<ge> 0 then Inl AssertionFailed
            else
              let cur_size = psize p + 1;
                  a = Insert_shift (leaf_array p) idx (cur_size - 1)
              in Inr (cur_size, p\<lparr>psize := cur_size, leaf_array := a(nat idx := (key, val))\<rparr>))"

text \<open>The copy loop of \<open>MoveHalfTo\<close>.\<close>

function MoveHalfTo_loop ::
  "(nat \<Rightarrow> 'a) \<Rightarrow> (nat \<Rightarrow> 'a) \<Rightarrow> int \<Rightarrow> int \<Rightarrow> int \<Rightarrow> (nat \<Rightarrow> 'a)" where
  "MoveHalfTo_loop a r copy_idx maxsize i =
     (if i < maxsize
      then MoveHalfTo_loop a (r(nat (i - copy_idx) := a (nat i))) copy_idx maxsize (i + 1)
      else r)"
  by pat_completeness auto
termination
  by (relation "measure (\<lambda>(a, r, copy_idx, maxsize, i). nat (maxsize - i))") auto

declare MoveHalfTo_loop.simps [simp del]

text \<open>\<open>MoveHalfTo\<close>: the page and the recipient after the call.\<close>

definition Leaf_MoveHalfTo ::
  "('k, 'v) BPlusTreePage \<Rightarrow> ('k, 'v) BPlusTreePage \<Rightarrow>
   error + ('k, 'v) BPlusTreePage \<times> ('k, 'v) BPlusTreePage" where
  "Leaf_MoveHalfTo p recipient =
     (let maxsize = max_size p in
      if psize p \<noteq> maxsize then Inl AssertionFailed
      else
        let copy_idx = (max_size p + 1) div 2;
            r = MoveHalfTo_loop (leaf_array p) (leaf_array recipient) copy_idx maxsize copy_idx
        in Inr (p\<lparr>next_page_id := page_id recipient, psize := copy_idx\<rparr>,
                recipient\<lparr>leaf_array := r, next_page_id := next_page_id p,
                          psize := maxsize - copy_idx\<rparr>))"

text \<open>
  \<open>RemoveAndDeleteRecord\<close> returns the size after the call, with the page. Its test
  \<open>idx == GetSize() || comparator(array_[idx].first, key) != 0\<close> reads \<open>array_[-1]\<close> when
  \<open>KeyIndex\<close> answers \<open>-1\<close>; when the key read there is the key to remove, \<open>std::move\<close>
  writes \<open>array_[0]\<close> over \<open>array_[-1]\<close>, that is over the header of the page, which is an
  error of the model.
\<close>

definition Leaf_RemoveAndDeleteRecord ::
  "(('k, 'v) BPlusTreePage \<Rightarrow> 'k \<times> 'v) \<Rightarrow> ('k::linorder, 'v) BPlusTreePage \<Rightarrow> 'k \<Rightarrow>
   error + int \<times> ('k, 'v) BPlusTreePage" where
  "Leaf_RemoveAndDeleteRecord hdr p key =
     (case Leaf_KeyIndex p key of
        Inl e \<Rightarrow> Inl e
      | Inr idx \<Rightarrow>
          if idx = psize p \<or> comparator (fst (array_at hdr p idx)) key \<noteq> 0
          then Inr (psize p, p)
          else if idx < 0 then Inl OutOfBounds
          else
            Inr (psize p - 1,
                 p\<lparr>leaf_array := move_within (leaf_array p) (nat idx + 1)
                                   (nat (psize p) - (nat idx + 1)) (nat idx),
                   psize := psize p - 1\<rparr>))"

text \<open>
  \<open>CopyNFrom(items, size)\<close>, with \<open>items\<close> the array of another page from slot \<open>s\<close> on.
  A negative \<open>size\<close> makes the range of \<open>std::copy\<close> invalid.
\<close>

definition Leaf_CopyNFrom ::
  "(nat \<Rightarrow> 'k \<times> 'v) \<Rightarrow> nat \<Rightarrow> int \<Rightarrow> ('k, 'v) BPlusTreePage \<Rightarrow> error + ('k, 'v) BPlusTreePage" where
  "Leaf_CopyNFrom items s n p =
     (if n < 0 \<or> psize p < 0 then Inl OutOfBounds
      else Inr (p\<lparr>leaf_array := copy_from items s (nat n) (leaf_array p) (nat (psize p)),
                  psize := psize p + n\<rparr>))"

definition Leaf_MoveAllTo ::
  "('k, 'v) BPlusTreePage \<Rightarrow> ('k, 'v) BPlusTreePage \<Rightarrow>
   error + ('k, 'v) BPlusTreePage \<times> ('k, 'v) BPlusTreePage" where
  "Leaf_MoveAllTo p recipient =
     (case Leaf_CopyNFrom (leaf_array p) 0 (psize p) recipient of
        Inl e \<Rightarrow> Inl e
      | Inr r \<Rightarrow> Inr (p\<lparr>psize := 0\<rparr>, r\<lparr>next_page_id := next_page_id p\<rparr>))"

text \<open>
  \<open>MoveMiddleTo\<close> (the sibling is the left neighbour): the recipient's entries are moved
  up by \<open>increment\<close> slots with \<open>std::move\<close>, front to back, and the slots of the page from
  \<open>GetMinSize()\<close> on go to the front of the recipient. The ranges are invalid when the page
  has fewer than \<open>GetMinSize()\<close> entries or a size is negative.
\<close>

definition Leaf_MoveMiddleTo ::
  "('k, 'v) BPlusTreePage \<Rightarrow> ('k, 'v) BPlusTreePage \<Rightarrow>
   error + ('k, 'v) BPlusTreePage \<times> ('k, 'v) BPlusTreePage" where
  "Leaf_MoveMiddleTo p recipient =
     (let increment = psize p - GetMinSize p;
          deduce = GetMinSize p - psize p;
          orisize = psize recipient
      in if increment < 0 \<or> orisize < 0 \<or> GetMinSize p < 0 then Inl OutOfBounds
         else
           let r1 = move_within (leaf_array recipient) 0 (nat orisize) (nat increment);
               r2 = copy_from (leaf_array p) (nat (GetMinSize p)) (nat increment) r1 0
           in Inr (IncreaseSize deduce p,
                   (IncreaseSize increment recipient)\<lparr>leaf_array := r2\<rparr>))"

text \<open>
  \<open>MoveAheadTo\<close> (the sibling is the right neighbour): the first \<open>increment\<close> slots of the
  page are appended to the recipient and the rest is moved down.
\<close>

definition Leaf_MoveAheadTo ::
  "('k, 'v) BPlusTreePage \<Rightarrow> ('k, 'v) BPlusTreePage \<Rightarrow>
   error + ('k, 'v) BPlusTreePage \<times> ('k, 'v) BPlusTreePage" where
  "Leaf_MoveAheadTo p recipient =
     (let increment = psize p - GetMinSize p;
          deduce = GetMinSize p - psize p
      in case Leaf_CopyNFrom (leaf_array p) 0 increment recipient of
           Inl e \<Rightarrow> Inl e
         | Inr r \<Rightarrow>
             if GetMinSize p < 0 then Inl OutOfBounds
             else
               Inr (IncreaseSize deduce
                      (p\<lparr>leaf_array := move_within (leaf_array p) (nat increment)
                                         (nat (psize p) - nat increment) 0\<rparr>),
                    r))"

subsection \<open>The tree and the buffer pool\<close>

text \<open>
  The state an operation of the tree works on: the fields \<open>root_page_id_\<close>,
  \<open>leaf_max_size_\<close> and \<open>internal_max_size_\<close> of \<open>BPlusTree\<close>; the pages of the buffer
  pool by page id (\<open>pages\<close>) and the next page id the pool allocates; the record of this
  index in the header page, if there is one; and the set of deleted pages of the
  transaction. A pointer to a page is its page id: every read and write of a page goes
  through \<open>pages\<close>, so two pointers to one page see each other's writes. Latches and pin
  counts are not part of the state: the operations are modelled one at a time.
\<close>

record ('k, 'v) BPlusTree =
  root_page_id :: int
  leaf_max_size :: int
  internal_max_size :: int
  pages :: "int \<Rightarrow> ('k, 'v) BPlusTreePage option"
  next_free_page :: int
  header_record :: "int option"
  deleted_page_set :: "int list"

text \<open>
  Modelled from the spec: the buffer pool manager is an external collaborator, none of its
  code is among the sources. The spec: \<open>FetchPage(page_id)\<close> returns the page or null,
  \<open>NewPage\<close> returns a fresh page and its id, \<open>DeletePage(page_id)\<close> releases a page. A
  fresh page is zero-filled. The pool of the model never runs out of frames, so
  \<open>NewPage\<close> never returns null, and \<open>FetchPage\<close> returns null exactly for an id that
  holds no page.
\<close>

definition FetchPage :: "('k, 'v) BPlusTree \<Rightarrow> int \<Rightarrow> ('k, 'v) BPlusTreePage option" where
  "FetchPage t pid = pages t pid"

definition zero_page :: "('k::zero, 'v::zero) BPlusTreePage" where
  "zero_page = \<lparr>page_type = INVALID_INDEX_PAGE, psize = 0, max_size = 0, parent_page_id = 0,
     page_id = 0, next_page_id = 0, leaf_array = (\<lambda>i. (0, 0)), internal_array = (\<lambda>i. (0, 0))\<rparr>"

definition NewPage :: "('k::zero, 'v::zero) BPlusTree \<Rightarrow> int \<times> ('k, 'v) BPlusTree" where
  "NewPage t =
     (next_free_page t,
      t\<lparr>pages := (pages t)(next_free_page t \<mapsto> zero_page),
        next_free_page := next_free_page t + 1\<rparr>)"

definition DeletePage :: "int \<Rightarrow> ('k, 'v) BPlusTree \<Rightarrow> ('k, 'v) BPlusTree" where
  "DeletePage pid t = t\<lparr>pages := (pages t)(pid := None)\<rparr>"

text \<open>A write to the page that a pointer refers to.\<close>

definition put_page :: "int \<Rightarrow> ('k, 'v) BPlusTreePage \<Rightarrow> ('k, 'v) BPlusTree \<Rightarrow> ('k, 'v) BPlusTree" where
  "put_page pid p t = t\<lparr>pages := (pages t)(pid \<mapsto> p)\<rparr>"

text \<open>
  Modelled from the spec: the header page (header\_page.cpp is not among the sources) maps
  the index name to its root page id; \<open>InsertRecord\<close> adds the record of a name that has
  none, \<open>UpdateRecord\<close> changes the record of a name that has one. \<open>UpdateRootPageId\<close>
  of the tree calls the first when \<open>insert_record\<close> is not 0, the second otherwise.
\<close>

definition UpdateRootPageId :: "int \<Rightarrow> ('k, 'v) BPlusTree \<Rightarrow> ('k, 'v) BPlusTree" where
  "UpdateRootPageId insert_record t =
     (if insert_record \<noteq> 0
      then (case header_record t of
              None \<Rightarrow> t\<lparr>header_record := Some (root_page_id t)\<rparr>
            | Some r \<Rightarrow> t)
      else (case header_record t of
              None \<Rightarrow> t
            | Some r \<Rightarrow> t\<lparr>header_record := Some (root_page_id t)\<rparr>))"

definition IsEmpty :: "('k, 'v) BPlusTree \<Rightarrow> bool" where
  "IsEmpty t = (root_page_id t = INVALID_PAGE_ID)"

text \<open>\<open>transaction->AddIntoDeletedPageSet\<close>: the set is an \<open>unordered_set\<close>.\<close>

definition AddIntoDeletedPageSet :: "int \<Rightarrow> ('k, 'v) BPlusTree \<Rightarrow> ('k, 'v) BPlusTree" where
  "AddIntoDeletedPageSet pid t = t\<lparr>deleted_page_set := List.insert pid (deleted_page_set t)\<rparr>"

subsection \<open>Internal page (b\_plus\_tree\_internal\_page.cpp)\<close>

definition Internal_Init ::
  "int \<Rightarrow> int \<Rightarrow> int \<Rightarrow> ('k, 'v) BPlusTreePage \<Rightarrow> ('k, 'v) BPlusTreePage" where
  "Internal_Init pid parent_id maxsz p =
     p\<lparr>page_type := INTERNAL_PAGE, psize := 0, page_id := pid, parent_page_id := parent_id,
       max_size := maxsz\<rparr>"

definition Internal_KeyAt :: "('k, 'v) BPlusTreePage \<Rightarrow> nat \<Rightarrow> 'k" where
  "Internal_KeyAt p index = fst (internal_array p index)"

definition SetKeyAt :: "nat \<Rightarrow> 'k \<Rightarrow> ('k, 'v) BPlusTreePage \<Rightarrow> ('k, 'v) BPlusTreePage" where
  "SetKeyAt index key p =
     p\<lparr>internal_array := (internal_array p)(index := (key, snd (internal_array p index)))\<rparr>"

definition ValueAt :: "('k, 'v) BPlusTreePage \<Rightarrow> nat \<Rightarrow> int" where
  "ValueAt p index = snd (internal_array p index)"

definition SetValueAt :: "nat \<Rightarrow> int \<Rightarrow> ('k, 'v) BPlusTreePage \<Rightarrow> ('k, 'v) BPlusTreePage" where
  "SetValueAt index val p =
     p\<lparr>internal_array := (internal_array p)(index := (fst (internal_array p index), val))\<rparr>"

text \<open>The loop of \<open>ValueIndex\<close>: the first slot below \<open>size_\<close> with the value, or \<open>-1\<close>.\<close>

function ValueIndex_loop :: "(nat \<Rightarrow> 'k \<times> int) \<Rightarrow> int \<Rightarrow> int \<Rightarrow> int \<Rightarrow> int" where
  "ValueIndex_loop a val sz i =
     (if i < sz
      then (if val \<noteq> snd (a (nat i)) then ValueIndex_loop a val sz (i + 1) else i)
      else - 1)"
  by pat_completeness auto
termination
  by (relation "measure (\<lambda>(a, val, sz, i). nat (sz - i))") auto

declare ValueIndex_loop.simps [simp del]

definition ValueIndex :: "('k, 'v) BPlusTreePage \<Rightarrow> int \<Rightarrow> int" where
  "ValueIndex p val = ValueIndex_loop (internal_array p) val (psize p) 0"

text \<open>
  \<open>std::lower_bound(first, last, key, comp)\<close> with the comparison of \<open>Lookup\<close>, as the
  standard library implements it: a bisection of the \<open>count\<close> slots from \<open>first\<close> on
  (\<open>step = count / 2\<close>; when the key of the slot \<open>first + step\<close> is below \<open>key\<close> the search
  goes on behind that slot with \<open>count - (step + 1)\<close> slots, otherwise in front of it with
  \<open>step\<close> slots). On slots whose keys are not sorted the result depends on the slots that
  the bisection reads.
\<close>

function lower_bound :: "(nat \<Rightarrow> 'k::linorder \<times> int) \<Rightarrow> 'k \<Rightarrow> int \<Rightarrow> int \<Rightarrow> int" where
  "lower_bound a key first count =
     (if count > 0
      then (let step = count div 2;
                it = first + step
            in if comparator (fst (a (nat it))) key < 0
               then lower_bound a key (it + 1) (count - (step + 1))
               else lower_bound a key first step)
      else first)"
  by pat_completeness auto
termination
  by (relation "measure (\<lambda>(a, key, first, count). nat count)") auto

declare lower_bound.simps [simp del]

text \<open>
  \<open>Lookup\<close> of an internal page: the child to descend to. With \<open>size_ < 1\<close> the range
  \<open>array_ + 1 .. array_ + size_\<close> is invalid.
\<close>

definition Internal_Lookup :: "('k::linorder, 'v) BPlusTreePage \<Rightarrow> 'k \<Rightarrow> error + int" where
  "Internal_Lookup p key =
     (if psize p < 1 then Inl OutOfBounds
      else
        let target = lower_bound (internal_array p) key 1 (psize p - 1)
        in if target = psize p then Inr (ValueAt p (nat (psize p - 1)))
           else if comparator (fst (internal_array p (nat target))) key \<le> 0
                then Inr (snd (internal_array p (nat target)))
                else Inr (snd (internal_array p (nat (target - 1)))))"

definition PopulateNewRoot ::
  "int \<Rightarrow> 'k \<Rightarrow> int \<Rightarrow> ('k, 'v) BPlusTreePage \<Rightarrow> ('k, 'v) BPlusTreePage" where
  "PopulateNewRoot old_value new_key new_value p =
     (SetValueAt 1 new_value (SetValueAt 0 old_value (SetKeyAt 1 new_key p)))\<lparr>psize := 2\<rparr>"

text \<open>
  \<open>InsertNodeAfter\<close> returns the size after the insertion, with the page. A negative
  \<open>size_\<close> makes the range of \<open>std::move_backward\<close> invalid.
\<close>

definition InsertNodeAfter ::
  "int \<Rightarrow> 'k \<Rightarrow> int \<Rightarrow> ('k, 'v) BPlusTreePage \<Rightarrow> error + int \<times> ('k, 'v) BPlusTreePage" where
  "InsertNodeAfter old_value new_key new_value p =
     (let new_value_idx = ValueIndex p old_value + 1 in
      if psize p < new_value_idx then Inl OutOfBounds
      else
        let a = move_backward_within (internal_array p) (nat new_value_idx)
                  (nat (psize p) - nat new_value_idx) (nat (psize p) + 1)
        in Inr (psize p + 1,
                p\<lparr>internal_array := a(nat new_value_idx := (new_key, new_value)),
                  psize := psize p + 1\<rparr>))"

text \<open>
  The loop of \<open>CopyNFrom\<close> and of \<open>MoveMiddleTo\<close> that gives the children in the slots
  \<open>i, i + 1, ..\<close> (\<open>n\<close> of them) of an array a new parent: each child is fetched from the
  pool and its \<open>parent_page_id_\<close> is set.
\<close>

fun reparent ::
  "(nat \<Rightarrow> 'k \<times> int) \<Rightarrow> nat \<Rightarrow> nat \<Rightarrow> int \<Rightarrow> ('k, 'v) BPlusTree \<Rightarrow> error + ('k, 'v) BPlusTree" where
  "reparent a i 0 parent_id t = Inr t"
| "reparent a i (Suc n) parent_id t =
     (case FetchPage t (snd (a i)) of
        None \<Rightarrow> Inl NullPointer
      | Some child \<Rightarrow>
          reparent a (Suc i) n parent_id
            (put_page (snd (a i)) (child\<lparr>parent_page_id := parent_id\<rparr>) t))"

text \<open>
  \<open>CopyNFrom(items, size, buffer_pool_manager)\<close> on the page \<open>rid\<close> of the pool, with
  \<open>items\<close> the array of another page from slot \<open>s\<close> on: the copy, the loop over the
  copied children, then the new size.
\<close>

definition Internal_CopyNFrom ::
  "(nat \<Rightarrow> 'k \<times> int) \<Rightarrow> nat \<Rightarrow> int \<Rightarrow> int \<Rightarrow> ('k, 'v) BPlusTree \<Rightarrow> error + ('k, 'v) BPlusTree" where
  "Internal_CopyNFrom items s n rid t =
     (case FetchPage t rid of
        None \<Rightarrow> Inl NullPointer
      | Some r \<Rightarrow>
          if n < 0 \<or> psize r < 0 then Inl OutOfBounds
          else
            let r1 = r\<lparr>internal_array :=
                        copy_from items s (nat n) (internal_array r) (nat (psize r))\<rparr>
            in case reparent (internal_array r1) (nat (psize r)) (nat n) (page_id r1)
                      (put_page rid r1 t) of
                 Inl e \<Rightarrow> Inl e
               | Inr t1 \<Rightarrow>
                   (case FetchPage t1 rid of
                      None \<Rightarrow> Inl NullPointer
                    | Some r2 \<Rightarrow> Inr (put_page rid (IncreaseSize n r2) t1)))"

text \<open>
  \<open>MoveHalfTo\<close> of an internal page. The tree calls it on the scratch copy of a full
  parent, which is not a page of the pool: the page is a value here, the recipient a page
  of the pool.
\<close>

definition Internal_MoveHalfTo ::
  "('k, 'v) BPlusTreePage \<Rightarrow> int \<Rightarrow> ('k, 'v) BPlusTree \<Rightarrow>
   error + ('k, 'v) BPlusTreePage \<times> ('k, 'v) BPlusTree" where
  "Internal_MoveHalfTo p rid t =
     (let start_split_indx = GetMinSize p;
          original_size = psize p
      in if start_split_indx < 0 then Inl OutOfBounds
         else
           case Internal_CopyNFrom (internal_array p) (nat start_split_indx)
                  (original_size - start_split_indx) rid t of
             Inl e \<Rightarrow> Inl e
           | Inr t1 \<Rightarrow> Inr (p\<lparr>psize := start_split_indx\<rparr>, t1))"

text \<open>\<open>Remove(index)\<close> of an internal page; the tree calls it with \<open>index \<ge> 0\<close>.\<close>

definition Internal_Remove :: "nat \<Rightarrow> ('k, 'v) BPlusTreePage \<Rightarrow> error + ('k, 'v) BPlusTreePage" where
  "Internal_Remove index p =
     (if psize p < int index + 1 then Inl OutOfBounds
      else Inr (IncreaseSize (- 1)
                  (p\<lparr>internal_array := move_within (internal_array p) (index + 1)
                                         (nat (psize p) - (index + 1)) index\<rparr>)))"

text \<open>
  \<open>MoveAllTo\<close>, \<open>MoveMiddleTo\<close> and \<open>MoveAheadTo\<close> of the internal page \<open>pid\<close> of the pool,
  with the recipient \<open>rid\<close>.
\<close>

definition Internal_MoveAllTo ::
  "int \<Rightarrow> int \<Rightarrow> 'k \<Rightarrow> ('k, 'v) BPlusTree \<Rightarrow> error + ('k, 'v) BPlusTree" where
  "Internal_MoveAllTo pid rid middle_key t =
     (case FetchPage t pid of
        None \<Rightarrow> Inl NullPointer
      | Some p \<Rightarrow>
          let p1 = SetKeyAt 0 middle_key p in
          case Internal_CopyNFrom (internal_array p1) 0 (psize p1) rid (put_page pid p1 t) of
            Inl e \<Rightarrow> Inl e
          | Inr t1 \<Rightarrow>
              (case FetchPage t1 pid of
                 None \<Rightarrow> Inl NullPointer
               | Some p2 \<Rightarrow> Inr (put_page pid (p2\<lparr>psize := 0\<rparr>) t1)))"

definition Internal_MoveMiddleTo ::
  "int \<Rightarrow> int \<Rightarrow> 'k \<Rightarrow> ('k, 'v) BPlusTree \<Rightarrow> error + ('k, 'v) BPlusTree" where
  "Internal_MoveMiddleTo pid rid middle_key t =
     (case FetchPage t rid of
        None \<Rightarrow> Inl NullPointer
      | Some r \<Rightarrow>
          let t1 = put_page rid (SetKeyAt 0 middle_key r) t in
          case FetchPage t1 pid of
            None \<Rightarrow> Inl NullPointer
          | Some p \<Rightarrow>
              let increment = psize p - GetMinSize p;
                  deduce = GetMinSize p - psize p
              in if increment < 0 \<or> GetMinSize p < 0 then Inl OutOfBounds
                 else
                   case reparent (internal_array p) (nat (GetMinSize p)) (nat increment)
                          (page_id r) t1 of
                     Inl e \<Rightarrow> Inl e
                   | Inr t2 \<Rightarrow>
                       (case (FetchPage t2 pid, FetchPage t2 rid) of
                          (Some p2, Some r2) \<Rightarrow>
                            if psize r2 < 0 then Inl OutOfBounds
                            else
                              let a1 = move_within (internal_array r2) 0 (nat (psize r2))
                                         (nat increment);
                                  a2 = copy_from (internal_array p2) (nat (GetMinSize p2))
                                         (nat increment) a1 0;
                                  t3 = put_page pid (IncreaseSize deduce p2) t2
                              in (case FetchPage t3 rid of
                                    None \<Rightarrow> Inl NullPointer
                                  | Some r3 \<Rightarrow>
                                      Inr (put_page rid
                                             (IncreaseSize increment (r3\<lparr>internal_array := a2\<rparr>))
                                             t3))
                        | _ \<Rightarrow> Inl NullPointer))"

definition Internal_MoveAheadTo ::
  "int \<Rightarrow> int \<Rightarrow> 'k \<Rightarrow> ('k, 'v) BPlusTree \<Rightarrow> error + ('k, 'v) BPlusTree" where
  "Internal_MoveAheadTo pid rid middle_key t =
     (case FetchPage t rid of
        None \<Rightarrow> Inl NullPointer
      | Some r \<Rightarrow>
          let t1 = put_page rid (SetKeyAt 0 middle_key r) t in
          case FetchPage t1 pid of
            None \<Rightarrow> Inl NullPointer
          | Some p \<Rightarrow>
              let increment = psize p - GetMinSize p;
                  deduce = GetMinSize p - psize p
              in case Internal_CopyNFrom (internal_array p) 0 increment rid t1 of
                   Inl e \<Rightarrow> Inl e
                 | Inr t2 \<Rightarrow>
                     (case FetchPage t2 pid of
                        None \<Rightarrow> Inl NullPointer
                      | Some p2 \<Rightarrow>
                          if GetMinSize p2 < 0 then Inl OutOfBounds
                          else
                            Inr (put_page pid
                                   (IncreaseSize deduce
                                      (p2\<lparr>internal_array :=
                                            move_within (internal_array p2) (nat increment)
                                              (nat (psize p2) - nat increment) 0\<rparr>))
                                   t2)))"

subsection \<open>The operations of the tree (b\_plus\_tree.cpp)\<close>

text \<open>
  \<open>FetchPage(pid)->GetData()\<close>, reinterpreted as a tree page: dereferencing the null
  pointer of a page that is not there is an error.
\<close>

definition GetData :: "('k, 'v) BPlusTree \<Rightarrow> int \<Rightarrow> error + ('k, 'v) BPlusTreePage" where
  "GetData t pid = (case FetchPage t pid of None \<Rightarrow> Inl NullPointer | Some p \<Rightarrow> Inr p)"

text \<open>
  The descent of \<open>FindLeafPage\<close> from the page \<open>pid\<close>; the first argument bounds the
  number of pages visited. The \<open>operation\<close> argument of the source only selects the
  latches to take and is left out.
\<close>

fun FindLeafPage_loop ::
  "nat \<Rightarrow> 'k::linorder \<Rightarrow> bool \<Rightarrow> bool \<Rightarrow> int \<Rightarrow> ('k, 'v) BPlusTree \<Rightarrow> error + int" where
  "FindLeafPage_loop 0 key leftMost rightMost pid t = Inl OutOfFuel"
| "FindLeafPage_loop (Suc n) key leftMost rightMost pid t =
     (case GetData t pid of
        Inl e \<Rightarrow> Inl e
      | Inr node \<Rightarrow>
          if IsLeafPage node then Inr pid
          else
            case (if leftMost then Inr (ValueAt node 0)
                  else if rightMost
                       then (if psize node - 1 < 0 then Inl OutOfBounds
                             else Inr (ValueAt node (nat (psize node - 1))))
                       else Internal_Lookup node key) of
              Inl e \<Rightarrow> Inl e
            | Inr child_node_id \<Rightarrow>
                if \<not> child_node_id > 0 then Inl AssertionFailed
                else FindLeafPage_loop n key leftMost rightMost child_node_id t)"

text \<open>
  \<open>FindLeafPage\<close>: the page id of the leaf. The function starts with
  \<open>assert(root_page_id_ != INVALID_PAGE_ID)\<close>; the \<open>return nullptr\<close> of the empty tree
  that follows cannot be reached behind it (and every caller dereferences the result).
\<close>

definition FindLeafPage ::
  "nat \<Rightarrow> 'k::linorder \<Rightarrow> bool \<Rightarrow> bool \<Rightarrow> ('k, 'v) BPlusTree \<Rightarrow> error + int" where
  "FindLeafPage fuel key leftMost rightMost t =
     (if \<not> root_page_id t \<noteq> INVALID_PAGE_ID then Inl AssertionFailed
      else if IsEmpty t then Inl NullPointer
      else FindLeafPage_loop fuel key leftMost rightMost (root_page_id t) t)"

text \<open>
  \<open>GetValue\<close>: \<open>Some v\<close> is the result \<open>true\<close> with \<open>v\<close> appended to \<open>result\<close>,
  \<open>None\<close> the result \<open>false\<close>. The function writes to no page and to no field of the
  tree, so it returns no state.
\<close>

definition GetValue ::
  "(('k, 'v) BPlusTreePage \<Rightarrow> 'k \<times> 'v) \<Rightarrow> nat \<Rightarrow> 'k::linorder \<Rightarrow> ('k, 'v) BPlusTree \<Rightarrow>
   error + 'v option" where
  "GetValue hdr fuel key t =
     (case FindLeafPage fuel key False False t of
        Inl e \<Rightarrow> Inl e
      | Inr leaf_page \<Rightarrow>
          (case GetData t leaf_page of
             Inl e \<Rightarrow> Inl e
           | Inr leaf_node \<Rightarrow> Leaf_Lookup hdr leaf_node key))"

definition StartNewTree ::
  "'k::{linorder,zero} \<Rightarrow> 'v::zero \<Rightarrow> ('k, 'v) BPlusTree \<Rightarrow> error + ('k, 'v) BPlusTree" where
  "StartNewTree key val t =
     (let (pid, t1) = NewPage t;
          t2 = t1\<lparr>root_page_id := pid\<rparr>
      in case GetData t2 pid of
           Inl e \<Rightarrow> Inl AssertionFailed
         | Inr newpage \<Rightarrow>
             (case Leaf_Insert (Leaf_Init (root_page_id t2) INVALID_PAGE_ID (leaf_max_size t2) newpage)
                     key val of
                Inl e \<Rightarrow> Inl e
              | Inr (sz, root_page) \<Rightarrow> Inr (UpdateRootPageId 1 (put_page pid root_page t2))))"

definition SplitLeaf ::
  "int \<Rightarrow> ('k::zero, 'v::zero) BPlusTree \<Rightarrow> error + int \<times> ('k, 'v) BPlusTree" where
  "SplitLeaf node_id t =
     (let (new_page_id, t1) = NewPage t
      in case GetData t1 new_page_id of
           Inl e \<Rightarrow> Inl AssertionFailed
         | Inr new_page \<Rightarrow>
             (case GetData t1 node_id of
                Inl e \<Rightarrow> Inl e
              | Inr node \<Rightarrow>
                  (case Leaf_MoveHalfTo node
                          (Leaf_Init new_page_id (parent_page_id node) (leaf_max_size t1) new_page) of
                     Inl e \<Rightarrow> Inl e
                   | Inr (node', new_node) \<Rightarrow>
                       Inr (new_page_id,
                            put_page node_id node' (put_page new_page_id new_node t1)))))"

text \<open>
  \<open>SplitInternal\<close>: the tree calls it on the scratch copy of a full parent, a value; the
  result is the copy after the split, the id of the new page and the state.
\<close>

definition SplitInternal ::
  "('k::zero, 'v::zero) BPlusTreePage \<Rightarrow> ('k, 'v) BPlusTree \<Rightarrow>
   error + ('k, 'v) BPlusTreePage \<times> int \<times> ('k, 'v) BPlusTree" where
  "SplitInternal node t =
     (let (new_page_id, t1) = NewPage t
      in case GetData t1 new_page_id of
           Inl e \<Rightarrow> Inl AssertionFailed
         | Inr new_page \<Rightarrow>
             (case Internal_MoveHalfTo node new_page_id
                     (put_page new_page_id
                        (Internal_Init new_page_id (parent_page_id node) (internal_max_size t1)
                           new_page) t1) of
                Inl e \<Rightarrow> Inl e
              | Inr (node', t2) \<Rightarrow> Inr (node', new_page_id, t2)))"

text \<open>
  \<open>InsertIntoParent(old_node, key, new_node)\<close>, the nodes by their page ids; the first
  argument bounds the number of levels the insertion climbs. In the last case the source
  copies the full parent into a scratch buffer with one more slot, inserts there, splits
  the copy and copies its header and its first \<open>GetMinSize()\<close> slots back over the parent.
\<close>

fun InsertIntoParent ::
  "nat \<Rightarrow> int \<Rightarrow> 'k::{linorder,zero} \<Rightarrow> int \<Rightarrow> ('k, 'v::zero) BPlusTree \<Rightarrow>
   error + ('k, 'v) BPlusTree" where
  "InsertIntoParent 0 old_id key new_id t = Inl OutOfFuel"
| "InsertIntoParent (Suc n) old_id key new_id t =
     (case GetData t old_id of
        Inl e \<Rightarrow> Inl e
      | Inr old_node \<Rightarrow>
          if IsRootPage old_node then
            (let (pid, t1) = NewPage t;
                 t2 = t1\<lparr>root_page_id := pid\<rparr>
             in case GetData t2 pid of
                  Inl e \<Rightarrow> Inl AssertionFailed
                | Inr page \<Rightarrow>
                    (case GetData t2 new_id of
                       Inl e \<Rightarrow> Inl e
                     | Inr new_node \<Rightarrow>
                         let new_root =
                               PopulateNewRoot (page_id old_node) key (page_id new_node)
                                 (Internal_Init (root_page_id t2) INVALID_PAGE_ID
                                    (internal_max_size t2) page);
                             t3 = put_page pid new_root t2
                         in case GetData t3 old_id of
                              Inl e \<Rightarrow> Inl e
                            | Inr old_node1 \<Rightarrow>
                                let t4 = put_page old_id
                                           (old_node1\<lparr>parent_page_id := root_page_id t3\<rparr>) t3
                                in case GetData t4 new_id of
                                     Inl e \<Rightarrow> Inl e
                                   | Inr new_node1 \<Rightarrow>
                                       Inr (UpdateRootPageId 0
                                              (put_page new_id
                                                 (new_node1\<lparr>parent_page_id := root_page_id t4\<rparr>)
                                                 t4))))
          else
            (let old_parent_id = parent_page_id old_node
             in case GetData t old_parent_id of
                  Inl e \<Rightarrow> Inl AssertionFailed
                | Inr parent0 \<Rightarrow>
                    (case GetData t new_id of
                       Inl e \<Rightarrow> Inl e
                     | Inr new_node \<Rightarrow>
                         let t1 = put_page new_id (new_node\<lparr>parent_page_id := old_parent_id\<rparr>) t
                         in case (GetData t1 old_parent_id, GetData t1 old_id, GetData t1 new_id) of
                              (Inr parent_page, Inr old_node1, Inr new_node1) \<Rightarrow>
                                if psize parent_page < internal_max_size t1 then
                                  (case InsertNodeAfter (page_id old_node1) key (page_id new_node1)
                                          parent_page of
                                     Inl e \<Rightarrow> Inl e
                                   | Inr (sz, parent_page') \<Rightarrow>
                                       Inr (put_page old_parent_id parent_page' t1))
                                else
                                  (case InsertNodeAfter (page_id old_node1) key (page_id new_node1)
                                          parent_page of
                                     Inl e \<Rightarrow> Inl e
                                   | Inr (sz, copy_parent_node) \<Rightarrow>
                                       (case SplitInternal copy_parent_node t1 of
                                          Inl e \<Rightarrow> Inl e
                                        | Inr (copy', sibling_id, t2) \<Rightarrow>
                                            (case (GetData t2 sibling_id, GetData t2 old_parent_id) of
                                               (Inr parent_sibling_node, Inr pp) \<Rightarrow>
                                                 let new_key = Internal_KeyAt parent_sibling_node 0;
                                                     pp' = pp\<lparr>page_type := page_type copy',
                                                              psize := psize copy',
                                                              max_size := max_size copy',
                                                              parent_page_id := parent_page_id copy',
                                                              page_id := page_id copy',
                                                              internal_array :=
                                                                (\<lambda>i. if int i < GetMinSize copy'
                                                                     then internal_array copy' i
                                                                     else internal_array pp i)\<rparr>
                                                 in InsertIntoParent n old_parent_id new_key sibling_id
                                                      (put_page old_parent_id pp' t2)
                                             | _ \<Rightarrow> Inl NullPointer)))
                            | _ \<Rightarrow> Inl NullPointer)))"

text \<open>\<open>InsertToLeaf\<close> and \<open>Insert\<close> return their boolean together with the state.\<close>

definition InsertToLeaf ::
  "(('k, 'v) BPlusTreePage \<Rightarrow> 'k \<times> 'v) \<Rightarrow> nat \<Rightarrow> 'k::{linorder,zero} \<Rightarrow> 'v::zero \<Rightarrow>
   ('k, 'v) BPlusTree \<Rightarrow> error + bool \<times> ('k, 'v) BPlusTree" where
  "InsertToLeaf hdr fuel key val t =
     (case FindLeafPage fuel key False False t of
        Inl e \<Rightarrow> Inl e
      | Inr leaf_page \<Rightarrow>
          (case GetData t leaf_page of
             Inl e \<Rightarrow> Inl e
           | Inr leaf_node \<Rightarrow>
               (case Leaf_Lookup hdr leaf_node key of
                  Inl e \<Rightarrow> Inl e
                | Inr (Some v) \<Rightarrow> Inr (False, t)
                | Inr None \<Rightarrow>
                    (case Leaf_Insert leaf_node key val of
                       Inl e \<Rightarrow> Inl e
                     | Inr (sz, leaf_node1) \<Rightarrow>
                         let t1 = put_page leaf_page leaf_node1 t in
                         if psize leaf_node1 < leaf_max_size t1 then Inr (True, t1)
                         else
                           (case SplitLeaf leaf_page t1 of
                              Inl e \<Rightarrow> Inl e
                            | Inr (new_leaf_page, t2) \<Rightarrow>
                                (case (GetData t2 leaf_page, GetData t2 new_leaf_page) of
                                   (Inr leaf_node2, Inr new_leaf_node) \<Rightarrow>
                                     (case InsertIntoParent fuel leaf_page
                                             (Leaf_KeyAt new_leaf_node 0) new_leaf_page
                                             (put_page leaf_page
                                                (leaf_node2\<lparr>next_page_id := page_id new_leaf_node\<rparr>)
                                                t2) of
                                        Inl e \<Rightarrow> Inl e
                                      | Inr t3 \<Rightarrow> Inr (True, t3))
                                 | _ \<Rightarrow> Inl NullPointer))))))"

definition BPlusTree_Insert ::
  "(('k, 'v) BPlusTreePage \<Rightarrow> 'k \<times> 'v) \<Rightarrow> nat \<Rightarrow> 'k::{linorder,zero} \<Rightarrow> 'v::zero \<Rightarrow>
   ('k, 'v) BPlusTree \<Rightarrow> error + bool \<times> ('k, 'v) BPlusTree" where
  "BPlusTree_Insert hdr fuel key val t =
     (if IsEmpty t
      then (case StartNewTree key val t of Inl e \<Rightarrow> Inl e | Inr t1 \<Rightarrow> Inr (True, t1))
      else InsertToLeaf hdr fuel key val t)"

text \<open>
  \<open>Redistribute(neighbor_node, node, parent, index, from_prev)\<close>, the pages by their
  ids. In both branches the statements after the \<open>if (from_prev)\<close> block are not in an
  \<open>else\<close>: they run in either case, after the block when \<open>from_prev\<close> holds.
\<close>

definition Redistribute_leaf_prev ::
  "int \<Rightarrow> int \<Rightarrow> int \<Rightarrow> nat \<Rightarrow> ('k, 'v) BPlusTree \<Rightarrow> error + ('k, 'v) BPlusTree" where
  "Redistribute_leaf_prev neighbor_id node_id parent_id index t =
     (case (GetData t neighbor_id, GetData t node_id) of
        (Inr sibling_leaf_node, Inr nnode) \<Rightarrow>
          (case Leaf_MoveMiddleTo sibling_leaf_node nnode of
             Inl e \<Rightarrow> Inl e
           | Inr (sibling', nnode') \<Rightarrow>
               let t1 = put_page node_id nnode' (put_page neighbor_id sibling' t)
               in case (GetData t1 parent_id, GetData t1 node_id) of
                    (Inr parent, Inr nnode1) \<Rightarrow>
                      Inr (put_page parent_id (SetKeyAt index (Leaf_KeyAt nnode1 0) parent) t1)
                  | _ \<Rightarrow> Inl NullPointer)
      | _ \<Rightarrow> Inl NullPointer)"

definition Redistribute_leaf_next ::
  "int \<Rightarrow> int \<Rightarrow> int \<Rightarrow> nat \<Rightarrow> ('k, 'v) BPlusTree \<Rightarrow> error + ('k, 'v) BPlusTree" where
  "Redistribute_leaf_next neighbor_id node_id parent_id index t =
     (case (GetData t neighbor_id, GetData t node_id) of
        (Inr sibling_leaf_node, Inr nnode) \<Rightarrow>
          (case Leaf_MoveAheadTo sibling_leaf_node nnode of
             Inl e \<Rightarrow> Inl e
           | Inr (sibling', nnode') \<Rightarrow>
               let t1 = put_page node_id nnode' (put_page neighbor_id sibling' t)
               in case (GetData t1 parent_id, GetData t1 neighbor_id) of
                    (Inr parent, Inr sibling1) \<Rightarrow>
                      Inr (put_page parent_id (SetKeyAt index (Leaf_KeyAt sibling1 0) parent) t1)
                  | _ \<Rightarrow> Inl NullPointer)
      | _ \<Rightarrow> Inl NullPointer)"

definition Redistribute_internal_prev ::
  "int \<Rightarrow> int \<Rightarrow> int \<Rightarrow> nat \<Rightarrow> ('k, 'v) BPlusTree \<Rightarrow> error + ('k, 'v) BPlusTree" where
  "Redistribute_internal_prev neighbor_id node_id parent_id index t =
     (case GetData t parent_id of
        Inl e \<Rightarrow> Inl e
      | Inr parent0 \<Rightarrow>
          (case Internal_MoveMiddleTo neighbor_id node_id (Internal_KeyAt parent0 index) t of
             Inl e \<Rightarrow> Inl e
           | Inr t1 \<Rightarrow>
               (case (GetData t1 parent_id, GetData t1 node_id) of
                  (Inr parent, Inr nnode1) \<Rightarrow>
                    Inr (put_page parent_id (SetKeyAt index (Internal_KeyAt nnode1 0) parent) t1)
                | _ \<Rightarrow> Inl NullPointer)))"

definition Redistribute_internal_next ::
  "int \<Rightarrow> int \<Rightarrow> int \<Rightarrow> nat \<Rightarrow> ('k, 'v) BPlusTree \<Rightarrow> error + ('k, 'v) BPlusTree" where
  "Redistribute_internal_next neighbor_id node_id parent_id index t =
     (case GetData t parent_id of
        Inl e \<Rightarrow> Inl e
      | Inr parent0 \<Rightarrow>
          (case Internal_MoveAheadTo neighbor_id node_id (Internal_KeyAt parent0 index) t of
             Inl e \<Rightarrow> Inl e
           | Inr t1 \<Rightarrow>
               (case (GetData t1 parent_id, GetData t1 neighbor_id) of
                  (Inr parent, Inr sibling1) \<Rightarrow>
                    Inr (put_page parent_id (SetKeyAt index (Internal_KeyAt sibling1 0) parent) t1)
                | _ \<Rightarrow> Inl NullPointer)))"

definition Redistribute ::
  "int \<Rightarrow> int \<Rightarrow> int \<Rightarrow> int \<Rightarrow> bool \<Rightarrow> ('k, 'v) BPlusTree \<Rightarrow> error + ('k, 'v) BPlusTree" where
  "Redistribute neighbor_id node_id parent_id index from_prev t =
     (case GetData t node_id of
        Inl e \<Rightarrow> Inl e
      | Inr node \<Rightarrow>
          if index < 0 then Inl OutOfBounds
          else if IsLeafPage node then
            (case (if from_prev
                   then Redistribute_leaf_prev neighbor_id node_id parent_id (nat index) t
                   else Inr t) of
               Inl e \<Rightarrow> Inl e
             | Inr t1 \<Rightarrow> Redistribute_leaf_next neighbor_id node_id parent_id (nat index) t1)
          else
            (case (if from_prev
                   then Redistribute_internal_prev neighbor_id node_id parent_id (nat index) t
                   else Inr t) of
               Inl e \<Rightarrow> Inl e
             | Inr t1 \<Rightarrow> Redistribute_internal_next neighbor_id node_id parent_id (nat index) t1))"

text \<open>
  \<open>CoalesceOrRedistribute(node)\<close> and \<open>Coalesce(neighbor_node, node, parent, index)\<close>,
  the pages by their ids, each with its boolean and the state; the first argument bounds
  the number of levels the merge climbs.
\<close>

fun CoalesceOrRedistribute ::
  "nat \<Rightarrow> int \<Rightarrow> ('k, 'v) BPlusTree \<Rightarrow> error + bool \<times> ('k, 'v) BPlusTree"
and Coalesce ::
  "nat \<Rightarrow> int \<Rightarrow> int \<Rightarrow> int \<Rightarrow> int \<Rightarrow> ('k, 'v) BPlusTree \<Rightarrow> error + bool \<times> ('k, 'v) BPlusTree"
where
  "CoalesceOrRedistribute 0 node_id t = Inl OutOfFuel"
| "CoalesceOrRedistribute (Suc n) node_id t =
     (case GetData t node_id of
        Inl e \<Rightarrow> Inl e
      | Inr node \<Rightarrow>
          if IsRootPage node then
            (if \<not> IsLeafPage node \<and> psize node \<le> 1 then
               (case GetData t (ValueAt node 0) of
                  Inl e \<Rightarrow> Inl e
                | Inr only_child_node \<Rightarrow>
                    Inr (True,
                         UpdateRootPageId 0
                           ((put_page (ValueAt node 0)
                               (only_child_node\<lparr>parent_page_id := INVALID_PAGE_ID\<rparr>) t)
                            \<lparr>root_page_id := page_id only_child_node\<rparr>)))
             else if IsLeafPage node \<and> psize node = 0 then
               Inr (True, UpdateRootPageId 0 (t\<lparr>root_page_id := INVALID_PAGE_ID\<rparr>))
             else Inr (False, t))
          else if psize node \<ge> GetMinSize node then Inr (False, t)
          else
            (case GetData t (parent_page_id node) of
               Inl e \<Rightarrow> Inl e
             | Inr parent_page \<Rightarrow>
                 let idx = ValueIndex parent_page (page_id node) in
                 if \<not> (idx < psize parent_page \<and> idx \<ge> 0) then Inl AssertionFailed
                 else if \<not> psize parent_page \<ge> 2 then Inl AssertionFailed
                 else if idx > 0 then
                   (case GetData t (ValueAt parent_page (nat (idx - 1))) of
                      Inl e \<Rightarrow> Inl e
                    | Inr left_node \<Rightarrow>
                        if psize left_node > GetMinSize left_node then
                          (case Redistribute (ValueAt parent_page (nat (idx - 1))) node_id
                                  (parent_page_id node) idx True t of
                             Inl e \<Rightarrow> Inl e
                           | Inr t1 \<Rightarrow> Inr (False, t1))
                        else if \<not> psize left_node = GetMinSize left_node then Inl AssertionFailed
                        else
                          (case Coalesce n (ValueAt parent_page (nat (idx - 1))) node_id
                                  (parent_page_id node) idx t of
                             Inl e \<Rightarrow> Inl e
                           | Inr (if_parent_deleted, t1) \<Rightarrow>
                               if if_parent_deleted
                               then (case GetData t1 (parent_page_id node) of
                                       Inl e \<Rightarrow> Inl e
                                     | Inr pp \<Rightarrow> Inr (True, AddIntoDeletedPageSet (page_id pp) t1))
                               else Inr (True, t1)))
                 else
                   (case GetData t (ValueAt parent_page (nat (idx + 1))) of
                      Inl e \<Rightarrow> Inl e
                    | Inr right_node \<Rightarrow>
                        if psize right_node > GetMinSize right_node then
                          (case Redistribute (ValueAt parent_page (nat (idx + 1))) node_id
                                  (parent_page_id node) (idx + 1) False t of
                             Inl e \<Rightarrow> Inl e
                           | Inr t1 \<Rightarrow> Inr (False, t1))
                        else if \<not> psize right_node = GetMinSize right_node then Inl AssertionFailed
                        else
                          (case Coalesce n node_id (ValueAt parent_page (nat (idx + 1)))
                                  (parent_page_id node) (idx + 1)
                                  (AddIntoDeletedPageSet (page_id right_node) t) of
                             Inl e \<Rightarrow> Inl e
                           | Inr (if_parent_deleted, t1) \<Rightarrow>
                               if if_parent_deleted
                               then (case GetData t1 (parent_page_id node) of
                                       Inl e \<Rightarrow> Inl e
                                     | Inr pp \<Rightarrow> Inr (False, AddIntoDeletedPageSet (page_id pp) t1))
                               else Inr (False, t1)))))"
| "Coalesce n neighbor_id node_id parent_id index t =
     (case (GetData t parent_id, GetData t node_id, GetData t neighbor_id) of
        (Inr parent, Inr node, Inr neighbor_node) \<Rightarrow>
          if index < 0 then Inl OutOfBounds
          else
            let middle_key = Internal_KeyAt parent (nat index) in
            (case (if IsLeafPage node
                   then (case Leaf_MoveAllTo node neighbor_node of
                           Inl e \<Rightarrow> Inl e
                         | Inr (node', neighbor') \<Rightarrow>
                             Inr (put_page neighbor_id neighbor' (put_page node_id node' t)))
                   else Internal_MoveAllTo node_id neighbor_id middle_key t) of
               Inl e \<Rightarrow> Inl e
             | Inr t1 \<Rightarrow>
                 (case GetData t1 parent_id of
                    Inl e \<Rightarrow> Inl e
                  | Inr parent1 \<Rightarrow>
                      (case Internal_Remove (nat index) parent1 of
                         Inl e \<Rightarrow> Inl e
                       | Inr parent2 \<Rightarrow>
                           CoalesceOrRedistribute n parent_id (put_page parent_id parent2 t1))))
      | _ \<Rightarrow> Inl NullPointer)"

text \<open>The loop at the end of \<open>Remove\<close> that deletes the pages of the deleted page set.\<close>

fun delete_pages :: "int list \<Rightarrow> ('k, 'v) BPlusTree \<Rightarrow> ('k, 'v) BPlusTree" where
  "delete_pages [] t = t"
| "delete_pages (it # its) t = delete_pages its (DeletePage it t)"

definition BPlusTree_Remove ::
  "(('k, 'v) BPlusTreePage \<Rightarrow> 'k \<times> 'v) \<Rightarrow> nat \<Rightarrow> 'k::linorder \<Rightarrow> ('k, 'v) BPlusTree \<Rightarrow>
   error + ('k, 'v) BPlusTree" where
  "BPlusTree_Remove hdr fuel key t =
     (if root_page_id t = INVALID_PAGE_ID then Inr t
      else
        case FindLeafPage fuel key False False t of
          Inl e \<Rightarrow> Inl e
        | Inr de_leaf \<Rightarrow>
            (case GetData t de_leaf of
               Inl e \<Rightarrow> Inl e
             | Inr deleaf \<Rightarrow>
                 let isfirst = (comparator (Leaf_KeyAt deleaf 0) key = 0);
                     pastsize = psize deleaf
                 in case Leaf_RemoveAndDeleteRecord hdr deleaf key of
                      Inl e \<Rightarrow> Inl e
                    | Inr (nowsize, deleaf1) \<Rightarrow>
                        if pastsize = nowsize then Inr t
                        else
                          let t1 = put_page de_leaf deleaf1 t in
                          case (if \<not> IsRootPage deleaf1 \<and> isfirst
                                then (case GetData t1 (parent_page_id deleaf1) of
                                        Inl e \<Rightarrow> Inl e
                                      | Inr p_page \<Rightarrow>
                                          let idx = ValueIndex p_page (page_id deleaf1) in
                                          if idx \<noteq> 0
                                          then (if idx < 0 then Inl OutOfBounds
                                                else Inr (put_page (parent_page_id deleaf1)
                                                            (SetKeyAt (nat idx) (Leaf_KeyAt deleaf1 0)
                                                               p_page) t1))
                                          else Inr t1)
                                else Inr t1) of
                            Inl e \<Rightarrow> Inl e
                          | Inr t2 \<Rightarrow>
                              (case CoalesceOrRedistribute fuel de_leaf t2 of
                                 Inl e \<Rightarrow> Inl e
                               | Inr (if_deleted, t3) \<Rightarrow>
                                   (case GetData t3 de_leaf of
                                      Inl e \<Rightarrow> Inl e
                                    | Inr deleaf3 \<Rightarrow>
                                        let t4 = (if if_deleted
                                                  then AddIntoDeletedPageSet (page_id deleaf3) t3
                                                  else t3)
                                        in Inr ((delete_pages (deleted_page_set t4) t4)
                                                  \<lparr>deleted_page_set := []\<rparr>)))))"

subsection \<open>Concrete pages and trees\<close>

text \<open>
  Modelled from the spec: the entry in front of the array for an instance with 8-byte keys
  and 8-byte values (a 64-bit integer key; a record id, made of a page id and a slot
  number, as value). With the header fields of the spec, \<open>page_type\<close>, \<open>size\<close>,
  \<open>max_size\<close>, \<open>parent_page_id\<close>, \<open>page_id\<close> and \<open>next_page_id\<close>, of 4 bytes each "laid
  out at the start, followed by a sorted array of \<open>(key, value)\<close> slots", the 16 bytes in
  front of the array of a leaf are the last four fields: the key reads \<open>max_size\<close> as its
  low and \<open>parent_page_id\<close> as its high half, the value \<open>page_id\<close> as its page id and
  \<open>next_page_id\<close> as its slot number.
\<close>

definition hdr_8_8 :: "(int, int) BPlusTreePage \<Rightarrow> int \<times> int" where
  "hdr_8_8 p = (parent_page_id p * 2 ^ 32 + max_size p mod 2 ^ 32,
                page_id p * 2 ^ 32 + next_page_id p mod 2 ^ 32)"

text \<open>
  A leaf with the entries \<open>(1, 10), (3, 30)\<close> and \<open>max_size\<close> 4, and the tree whose root
  is this leaf (page 1; page 0 is the header page).
\<close>

definition leaf_13 :: "(int, int) BPlusTreePage" where
  "leaf_13 = \<lparr>page_type = LEAF_PAGE, psize = 2, max_size = 4, parent_page_id = - 1,
     page_id = 1, next_page_id = - 1,
     leaf_array = (\<lambda>i. (0, 0))(0 := (1, 10), 1 := (3, 30)),
     internal_array = (\<lambda>i. (0, 0))\<rparr>"

definition bpt_13 :: "(int, int) BPlusTree" where
  "bpt_13 = \<lparr>root_page_id = 1, leaf_max_size = 4, internal_max_size = 4,
     pages = Map.empty(1 \<mapsto> leaf_13), next_free_page = 2, header_record = Some 1,
     deleted_page_set = []\<rparr>"

text \<open>The empty tree, before the first insertion.\<close>

definition bpt_empty :: "(int, int) BPlusTree" where
  "bpt_empty = \<lparr>root_page_id = - 1, leaf_max_size = 4, internal_max_size = 4,
     pages = Map.empty, next_free_page = 1, header_record = None, deleted_page_set = []\<rparr>"

text \<open>
  A tree whose root (page 2) is an internal page with the single child page 1, the leaf
  \<open>(1, 10), (3, 30)\<close>: the state in which \<open>Coalesce\<close> hands the root to
  \<open>CoalesceOrRedistribute\<close> after the second-last child is merged away.
\<close>

definition bpt_single_child :: "(int, int) BPlusTree" where
  "bpt_single_child = \<lparr>root_page_id = 2, leaf_max_size = 4, internal_max_size = 4,
     pages = Map.empty(1 \<mapsto> leaf_13\<lparr>parent_page_id := 2\<rparr>,
                       2 \<mapsto> \<lparr>page_type = INTERNAL_PAGE, psize = 1, max_size = 4,
                              parent_page_id = - 1, page_id = 2, next_page_id = 0,
                              leaf_array = (\<lambda>i. (0, 0)),
                              internal_array = (\<lambda>i. (0, 0))(0 := (0, 1))\<rparr>),
     next_free_page = 3, header_record = Some 2, deleted_page_set = []\<rparr>"

text \<open>
  A leaf with the entries \<open>(1, 10), (2, 20), (3, 30)\<close> and \<open>max_size\<close> 4, one below the
  split, and the tree whose root is this leaf.
\<close>

definition leaf_123 :: "(int, int) BPlusTreePage" where
  "leaf_123 = \<lparr>page_type = LEAF_PAGE, psize = 3, max_size = 4, parent_page_id = - 1,
     page_id = 1, next_page_id = - 1,
     leaf_array = (\<lambda>i. (0, 0))(0 := (1, 10), 1 := (2, 20), 2 := (3, 30)),
     internal_array = (\<lambda>i. (0, 0))\<rparr>"

definition bpt_123 :: "(int, int) BPlusTree" where
  "bpt_123 = \<lparr>root_page_id = 1, leaf_max_size = 4, internal_max_size = 4,
     pages = Map.empty(1 \<mapsto> leaf_123), next_free_page = 2, header_record = Some 1,
     deleted_page_set = []\<rparr>"


text \<open>
  Concrete pages from the list of their entries: a leaf and an internal page with the
  given page id, parent, \<open>max_size\<close> and entries (the slots above the entries are
  zero-filled).
\<close>

definition leaf_page_of ::
  "int \<Rightarrow> int \<Rightarrow> int \<Rightarrow> int \<Rightarrow> (int \<times> int) list \<Rightarrow> (int, int) BPlusTreePage" where
  "leaf_page_of pid parent nxt maxsz es =
     \<lparr>page_type = LEAF_PAGE, psize = int (length es), max_size = maxsz,
      parent_page_id = parent, page_id = pid, next_page_id = nxt,
      leaf_array = (\<lambda>i. if i < length es then es ! i else (0, 0)),
      internal_array = (\<lambda>i. (0, 0))\<rparr>"

definition internal_page_of ::
  "int \<Rightarrow> int \<Rightarrow> int \<Rightarrow> (int \<times> int) list \<Rightarrow> (int, int) BPlusTreePage" where
  "internal_page_of pid parent maxsz es =
     \<lparr>page_type = INTERNAL_PAGE, psize = int (length es), max_size = maxsz,
      parent_page_id = parent, page_id = pid, next_page_id = 0,
      leaf_array = (\<lambda>i. (0, 0)),
      internal_array = (\<lambda>i. if i < length es then es ! i else (0, 0))\<rparr>"

text \<open>
  Three trees with \<open>leaf_max_size\<close> 4 and \<open>internal_max_size\<close> 4 whose next insertion
  fills a leaf. In \<open>bpt_234\<close> the root is the leaf \<open>2, 3, 4\<close> (page 1). \<open>bpt_two_leaves\<close>
  has the pages and entries of the tree after the keys 1 to 5 were inserted in this order:
  the root (page 3) has the leaves \<open>1, 2\<close> (page 1) and \<open>3, 4, 5\<close> (page 2).
  \<open>bpt_full_parent\<close> has those of the tree after the keys 1 to 9 were inserted: the root
  (page 3) is full with the four leaves \<open>1, 2\<close>, \<open>3, 4\<close>, \<open>5, 6\<close> and \<open>7, 8, 9\<close>
  (pages 1, 2, 4 and 5).
\<close>

definition bpt_234 :: "(int, int) BPlusTree" where
  "bpt_234 = \<lparr>root_page_id = 1, leaf_max_size = 4, internal_max_size = 4,
     pages = Map.empty(1 \<mapsto> leaf_page_of 1 (- 1) (- 1) 4 [(2, 20), (3, 30), (4, 40)]),
     next_free_page = 2, header_record = Some 1, deleted_page_set = []\<rparr>"

definition bpt_two_leaves :: "(int, int) BPlusTree" where
  "bpt_two_leaves = \<lparr>root_page_id = 3, leaf_max_size = 4, internal_max_size = 4,
     pages = Map.empty(
       1 \<mapsto> leaf_page_of 1 3 2 4 [(1, 10), (2, 20)],
       2 \<mapsto> leaf_page_of 2 3 (- 1) 4 [(3, 30), (4, 40), (5, 50)],
       3 \<mapsto> internal_page_of 3 (- 1) 4 [(0, 1), (3, 2)]),
     next_free_page = 4, header_record = Some 3, deleted_page_set = []\<rparr>"

definition bpt_full_parent :: "(int, int) BPlusTree" where
  "bpt_full_parent = \<lparr>root_page_id = 3, leaf_max_size = 4, internal_max_size = 4,
     pages = Map.empty(
       1 \<mapsto> leaf_page_of 1 3 2 4 [(1, 10), (2, 20)],
       2 \<mapsto> leaf_page_of 2 3 4 4 [(3, 30), (4, 40)],
       4 \<mapsto> leaf_page_of 4 3 5 4 [(5, 50), (6, 60)],
       5 \<mapsto> leaf_page_of 5 3 (- 1) 4 [(7, 70), (8, 80), (9, 90)],
       3 \<mapsto> internal_page_of 3 (- 1) 4 [(0, 1), (3, 2), (5, 4), (7, 5)]),
     next_free_page = 6, header_record = Some 3, deleted_page_set = []\<rparr>"

text \<open>
  A tree with \<open>leaf_max_size\<close> 6 (the minimum size of a leaf is 3) as \<open>Remove(1)\<close> hands
  it to \<open>Redistribute\<close> after the keys 1 to 8 were inserted: the leaf page 1 has lost
  the key 1 and holds two entries, its right sibling, page 2, holds five, and the root,
  page 3, separates them by the key 4.
\<close>

definition bpt_redis :: "(int, int) BPlusTree" where
  "bpt_redis = \<lparr>root_page_id = 3, leaf_max_size = 6, internal_max_size = 6,
     pages = Map.empty(
       1 \<mapsto> leaf_page_of 1 3 2 6 [(2, 20), (3, 30)],
       2 \<mapsto> leaf_page_of 2 3 (- 1) 6 [(4, 40), (5, 50), (6, 60), (7, 70), (8, 80)],
       3 \<mapsto> internal_page_of 3 (- 1) 6 [(0, 1), (4, 2)]),
     next_free_page = 4, header_record = Some 3, deleted_page_set = []\<rparr>"

text \<open>
  A tree of height 3 with \<open>internal_max_size\<close> 4 (the minimum size of an internal page
  is 2): the root, page 10, has the children 11 and 12; the internal page 12 has lost
  a child and holds one, its left sibling, page 11, holds four; the pages 1 to 5 are the
  leaves.
\<close>

definition bpt_redis_internal :: "(int, int) BPlusTree" where
  "bpt_redis_internal = \<lparr>root_page_id = 10, leaf_max_size = 4, internal_max_size = 4,
     pages = Map.empty(
       1 \<mapsto> leaf_page_of 1 11 2 4 [(1, 10), (2, 20)],
       2 \<mapsto> leaf_page_of 2 11 3 4 [(10, 100), (11, 110)],
       3 \<mapsto> leaf_page_of 3 11 4 4 [(20, 200), (21, 210)],
       4 \<mapsto> leaf_page_of 4 11 5 4 [(30, 300), (31, 310)],
       5 \<mapsto> leaf_page_of 5 12 (- 1) 4 [(50, 500), (51, 510)],
       11 \<mapsto> internal_page_of 11 10 4 [(0, 1), (10, 2), (20, 3), (30, 4)],
       12 \<mapsto> internal_page_of 12 10 4 [(0, 5)],
       10 \<mapsto> internal_page_of 10 (- 1) 4 [(0, 11), (50, 12)]),
     next_free_page = 13, header_record = Some 10, deleted_page_set = []\<rparr>"
section \<open>Extendible hash table: proofs\<close>

subsection \<open>The directory loops\<close>

lemma append_self_nth: "i < 2 * length d \<Longrightarrow> (d @ d) ! i = d ! (i mod length d)"
proof (cases "i < length d")
  case True
  then show ?thesis by (simp add: nth_append)
next
  case False
  assume "i < 2 * length d"
  with False have "i - length d < length d" "length d \<le> i" by simp_all
  then have "i mod length d = i - length d"
    by (simp add: le_mod_geq)
  with False show ?thesis by (simp add: nth_append)
qed

lemma copy_dir_upt:
  "length d = n \<Longrightarrow> i \<le> n \<Longrightarrow>
   copy_dir n [i..<n] (d @ take i d @ replicate (n - i) None) = d @ d"
proof (induction "n - i" arbitrary: i)
  case 0
  then show ?case by simp
next
  case (Suc m)
  then have lt: "i < n" by simp
  have step: "(d @ take i d @ replicate (n - i) None)[i + n := (d @ take i d @ replicate (n - i) None) ! i]
        = d @ take (Suc i) d @ replicate (n - Suc i) None"
  proof -
    obtain m' where m': "n - i = Suc m'" using lt by (cases "n - i") auto
    then have "n - Suc i = m'" by simp
    with m' lt Suc.prems(1) show ?thesis
      by (simp add: list_update_append nth_append take_Suc_conv_app_nth)
  qed
  have "m = n - Suc i" using Suc.hyps(2) by simp
  from Suc.hyps(1)[OF this Suc.prems(1)] lt
  have "copy_dir n [Suc i..<n] (d @ take (Suc i) d @ replicate (n - Suc i) None) = d @ d" by simp
  then show ?case using lt step by (simp add: upt_conv_Cons)
qed

lemma double_dir_append: "double_dir d = d @ d"
  using copy_dir_upt[of d "length d" 0] by (simp add: double_dir_def push_bit_eq_mult)

lemma redirect_length: "length (redirect target msk p0 p1 is d) = length d"
  by (induction "is" arbitrary: d) auto

lemma redirect_nth_notin:
  "i \<notin> set is \<Longrightarrow> redirect target msk p0 p1 is d ! i = d ! i"
  by (induction "is" arbitrary: d) (auto simp: nth_list_update)

lemma redirect_nth_in:
  "distinct is \<Longrightarrow> i \<in> set is \<Longrightarrow> i < length d \<Longrightarrow>
   redirect target msk p0 p1 is d ! i =
     (if d ! i = target then (if i AND msk \<noteq> 0 then p1 else p0) else d ! i)"
proof (induction "is" arbitrary: d)
  case Nil
  then show ?case by simp
next
  case (Cons j js)
  show ?case
  proof (cases "i = j")
    case True
    with Cons.prems show ?thesis by (simp add: redirect_nth_notin)
  next
    case False
    with Cons.prems Cons.IH show ?thesis by (simp add: nth_list_update)
  qed
qed

lemma redirect_nth:
  "i < length d \<Longrightarrow>
   redirect target msk p0 p1 [0..<length d] d ! i =
     (if d ! i = target then (if i AND msk \<noteq> 0 then p1 else p0) else d ! i)"
  by (rule redirect_nth_in) auto

subsection \<open>The rehash loop\<close>

lemma overwrite_None: "overwrite key val l = None \<longleftrightarrow> key \<notin> fst ` set l"
  by (induction l) auto

lemma Bucket_Insert_append:
  "key \<notin> fst ` set (b_list b) \<Longrightarrow> length (b_list b) < b_size b \<Longrightarrow>
   Bucket_Insert key val b = (True, b\<lparr>b_list := b_list b @ [(key, val)]\<rparr>)"
  using overwrite_None[of key val "b_list b"] by (simp add: Bucket_Insert_def IsFull_def)

lemma rehash_lists:
  "distinct (map fst items) \<Longrightarrow>
   fst ` set items \<inter> fst ` set (b_list b0) = {} \<Longrightarrow>
   fst ` set items \<inter> fst ` set (b_list b1) = {} \<Longrightarrow>
   length (b_list b0) + length items \<le> b_size b0 \<Longrightarrow>
   length (b_list b1) + length items \<le> b_size b1 \<Longrightarrow>
   rehash h msk items (b0, b1) =
     (b0\<lparr>b_list := b_list b0 @ filter (\<lambda>item. \<not> h (fst item) AND msk \<noteq> 0) items\<rparr>,
      b1\<lparr>b_list := b_list b1 @ filter (\<lambda>item. h (fst item) AND msk \<noteq> 0) items\<rparr>)"
proof (induction items arbitrary: b0 b1)
  case Nil
  then show ?case by simp
next
  case (Cons item items)
  show ?case
  proof (cases "h (fst item) AND msk \<noteq> 0")
    case True
    have ins: "Bucket_Insert (fst item) (snd item) b1 = (True, b1\<lparr>b_list := b_list b1 @ [item]\<rparr>)"
      using Cons.prems by (subst Bucket_Insert_append) auto
    have "rehash h msk items (b0, b1\<lparr>b_list := b_list b1 @ [item]\<rparr>) =
        (b0\<lparr>b_list := b_list b0 @ filter (\<lambda>item. \<not> h (fst item) AND msk \<noteq> 0) items\<rparr>,
         b1\<lparr>b_list := b_list b1 @ [item] @ filter (\<lambda>item. h (fst item) AND msk \<noteq> 0) items\<rparr>)"
      using Cons.prems by (subst Cons.IH) auto
    with True ins show ?thesis by simp
  next
    case False
    have ins: "Bucket_Insert (fst item) (snd item) b0 = (True, b0\<lparr>b_list := b_list b0 @ [item]\<rparr>)"
      using Cons.prems by (subst Bucket_Insert_append) auto
    have "rehash h msk items (b0\<lparr>b_list := b_list b0 @ [item]\<rparr>, b1) =
        (b0\<lparr>b_list := b_list b0 @ [item] @ filter (\<lambda>item. \<not> h (fst item) AND msk \<noteq> 0) items\<rparr>,
         b1\<lparr>b_list := b_list b1 @ filter (\<lambda>item. h (fst item) AND msk \<noteq> 0) items\<rparr>)"
      using Cons.prems by (subst Cons.IH) auto
    with False ins show ?thesis by simp
  qed
qed

lemma rehash_new:
  "distinct (map fst items) \<Longrightarrow> length items \<le> n \<Longrightarrow>
   rehash h msk items (new_Bucket n d, new_Bucket n d) =
     (\<lparr>b_size = n, b_depth = d, b_list = filter (\<lambda>item. \<not> h (fst item) AND msk \<noteq> 0) items\<rparr>,
      \<lparr>b_size = n, b_depth = d, b_list = filter (\<lambda>item. h (fst item) AND msk \<noteq> 0) items\<rparr>)"
  by (subst rehash_lists) (auto simp: new_Bucket_def)

subsection \<open>One split\<close>

lemma IndexOf_take_bit: "IndexOf h t key = take_bit (global_depth t) (h key)"
  by (simp add: IndexOf_def take_bit_eq_mask mask_eq_exp_minus_1)

lemma and_push_bit_1_iff: "(i AND push_bit d (1::nat) \<noteq> 0) = bit i d"
  by (simp add: bit_iff_and_push_bit_not_eq_0)

lemma wf_IndexOf_less: "wf_table h t \<Longrightarrow> IndexOf h t key < length (dir t)"
  by (simp add: wf_table_def IndexOf_take_bit)

lemma wf_dir_Some:
  "wf_table h t \<Longrightarrow> i < length (dir t) \<Longrightarrow> \<exists>a. dir t ! i = Some a \<and> a < length (heap t)"
  by (simp add: wf_table_def)

lemma wf_deref_in_heap:
  "wf_table h t \<Longrightarrow> i < length (dir t) \<Longrightarrow> deref t i \<in> set (heap t)"
  using wf_dir_Some[of h t i] by (auto simp: deref_def)

lemma wf_bucket:
  "wf_table h t \<Longrightarrow> b \<in> set (heap t) \<Longrightarrow>
   b_size b = bucket_size t \<and> b_depth b \<le> global_depth t \<and>
   length (b_list b) \<le> b_size b \<and> distinct (map fst (b_list b))"
  unfolding wf_table_def by metis

lemma and_exp_iff:
  "(i AND (2::nat) ^ d \<noteq> 0) = bit i d"
  "(i AND (2::nat) ^ d = 0) = (\<not> bit i d)"
  "(0 < i AND (2::nat) ^ d) = bit i d"
  using and_push_bit_1_iff[of i d] by auto

lemma redirect_nth_upt:
  "n = length d \<Longrightarrow> i < n \<Longrightarrow>
   redirect target msk p0 p1 [0..<n] d ! i =
     (if d ! i = target then (if i AND msk \<noteq> 0 then p1 else p0) else d ! i)"
  by (simp add: redirect_nth)

lemma rehash_new_bit:
  "distinct (map fst items) \<Longrightarrow> length items \<le> n \<Longrightarrow>
   rehash h (2 ^ e) items (new_Bucket n d, new_Bucket n d) =
     (\<lparr>b_size = n, b_depth = d, b_list = filter (\<lambda>item. \<not> bit (h (fst item)) e) items\<rparr>,
      \<lparr>b_size = n, b_depth = d, b_list = filter (\<lambda>item. bit (h (fst item)) e) items\<rparr>)"
  by (simp add: rehash_new and_exp_iff)

lemma wf_target_bucket:
  assumes wf: "wf_table h t" and B: "B = deref t (IndexOf h t key)"
  shows "B \<in> set (heap t)" and "b_size B = bucket_size t" and "b_depth B \<le> global_depth t"
    and "length (b_list B) \<le> bucket_size t" and "distinct (map fst (b_list B))"
    and "heap t ! the (dir t ! IndexOf h t key) = B"
proof -
  show Bin: "B \<in> set (heap t)"
    unfolding B by (rule wf_deref_in_heap[OF wf wf_IndexOf_less[OF wf]])
  from wf_bucket[OF wf Bin]
  show "b_size B = bucket_size t" and "b_depth B \<le> global_depth t"
    and "length (b_list B) \<le> bucket_size t" and "distinct (map fst (b_list B))"
    by simp_all
  show "heap t ! the (dir t ! IndexOf h t key) = B"
    using B by (simp add: deref_def)
qed

lemma split_bucket_simps:
  assumes wf: "wf_table h t" and B: "B = deref t (IndexOf h t key)"
  shows "global_depth (split_bucket h key t) =
           (if b_depth B = global_depth t then global_depth t + 1 else global_depth t)"
    and "bucket_size (split_bucket h key t) = bucket_size t"
    and "num_buckets (split_bucket h key t) = num_buckets t + 1"
    and "heap (split_bucket h key t) = heap t @
           [\<lparr>b_size = bucket_size t, b_depth = b_depth B + 1,
             b_list = filter (\<lambda>item. \<not> bit (h (fst item)) (b_depth B)) (b_list B)\<rparr>,
            \<lparr>b_size = bucket_size t, b_depth = b_depth B + 1,
             b_list = filter (\<lambda>item. bit (h (fst item)) (b_depth B)) (b_list B)\<rparr>]"
    and "length (dir (split_bucket h key t)) =
           (if b_depth B = global_depth t then 2 * length (dir t) else length (dir t))"
proof -
  note B' = wf_target_bucket(6)[OF wf B]
  note rh = rehash_new_bit[OF wf_target_bucket(5)[OF wf B] wf_target_bucket(4)[OF wf B]]
  show "global_depth (split_bucket h key t) =
           (if b_depth B = global_depth t then global_depth t + 1 else global_depth t)"
    and "bucket_size (split_bucket h key t) = bucket_size t"
    and "num_buckets (split_bucket h key t) = num_buckets t + 1"
    and "heap (split_bucket h key t) = heap t @
           [\<lparr>b_size = bucket_size t, b_depth = b_depth B + 1,
             b_list = filter (\<lambda>item. \<not> bit (h (fst item)) (b_depth B)) (b_list B)\<rparr>,
            \<lparr>b_size = bucket_size t, b_depth = b_depth B + 1,
             b_list = filter (\<lambda>item. bit (h (fst item)) (b_depth B)) (b_list B)\<rparr>]"
    and "length (dir (split_bucket h key t)) =
           (if b_depth B = global_depth t then 2 * length (dir t) else length (dir t))"
    by (simp_all add: split_bucket_def Let_def B' rh GetDepth_def GetGlobalDepth_def GetItems_def
        redirect_length double_dir_append)
qed

lemma split_bucket_dir_nth:
  assumes wf: "wf_table h t" and B: "B = deref t (IndexOf h t key)"
    and j: "j < length (dir (split_bucket h key t))"
  shows "dir (split_bucket h key t) ! j =
           (if dir t ! (j mod length (dir t)) = dir t ! IndexOf h t key
            then (if bit j (b_depth B) then Some (length (heap t) + 1) else Some (length (heap t)))
            else dir t ! (j mod length (dir t)))"
proof -
  note B' = wf_target_bucket(6)[OF wf B]
  note rh = rehash_new_bit[OF wf_target_bucket(5)[OF wf B] wf_target_bucket(4)[OF wf B]]
  note len = split_bucket_simps(5)[OF wf B]
  show ?thesis
  proof (cases "b_depth B = global_depth t")
    case True
    with j len have j2: "j < 2 * length (dir t)" by simp
    have nth: "(dir t @ dir t) ! j = dir t ! (j mod length (dir t))"
      using j2 by (rule append_self_nth)
    show ?thesis using True j2 nth
      by (simp add: split_bucket_def Let_def B' rh GetDepth_def GetGlobalDepth_def GetItems_def
          double_dir_append redirect_nth_upt and_exp_iff)
  next
    case False
    with j len have j2: "j < length (dir t)" by simp
    show ?thesis using False j2
      by (simp add: split_bucket_def Let_def B' rh GetDepth_def GetGlobalDepth_def GetItems_def
          redirect_nth_upt and_exp_iff)
  qed
qed

subsection \<open>A split keeps the invariant\<close>

lemma take_bit_mod_exp: "d \<le> g \<Longrightarrow> take_bit d (j mod 2 ^ g) = take_bit d (j::nat)"
  by (simp add: take_bit_eq_mod[symmetric] min_def)

lemma take_bit_Suc_eqI:
  "take_bit d (a::nat) = take_bit d b \<Longrightarrow> bit a d = bit b d \<Longrightarrow>
   take_bit (Suc d) a = take_bit (Suc d) b"
  by (simp add: take_bit_Suc_from_most)

lemma wf_inv4:
  "wf_table h t \<Longrightarrow> i < length (dir t) \<Longrightarrow> item \<in> set (b_list (deref t i)) \<Longrightarrow>
   take_bit (b_depth (deref t i)) (h (fst item)) = take_bit (b_depth (deref t i)) i"
  unfolding wf_table_def by blast

lemma wf_inv2:
  "wf_table h t \<Longrightarrow> i < length (dir t) \<Longrightarrow> j < length (dir t) \<Longrightarrow> dir t ! i = dir t ! j \<Longrightarrow>
   take_bit (b_depth (deref t i)) i = take_bit (b_depth (deref t i)) j"
  unfolding wf_table_def by blast

lemma wf_length_dir: "wf_table h t \<Longrightarrow> length (dir t) = 2 ^ global_depth t"
  by (simp add: wf_table_def)

lemma wf_split:
  assumes wf: "wf_table h t"
  shows "wf_table h (split_bucket h key t)"
proof -
  define B where "B = deref t (IndexOf h t key)"
  define t' where "t' = split_bucket h key t"
  define B0 where "B0 = \<lparr>b_size = bucket_size t, b_depth = b_depth B + 1,
             b_list = filter (\<lambda>item. \<not> bit (h (fst item)) (b_depth B)) (b_list B)\<rparr>"
  define B1 where "B1 = \<lparr>b_size = bucket_size t, b_depth = b_depth B + 1,
             b_list = filter (\<lambda>item. bit (h (fst item)) (b_depth B)) (b_list B)\<rparr>"
  note tb = wf_target_bucket[OF wf B_def]
  note L = wf_length_dir[OF wf]
  have gd': "global_depth t' =
      (if b_depth B = global_depth t then global_depth t + 1 else global_depth t)"
    and bs': "bucket_size t' = bucket_size t"
    and heap': "heap t' = heap t @ [B0, B1]"
    and len': "length (dir t') =
      (if b_depth B = global_depth t then 2 * length (dir t) else length (dir t))"
    unfolding t'_def B0_def B1_def using split_bucket_simps[OF wf B_def] by simp_all
  have nth': "dir t' ! j =
           (if dir t ! (j mod length (dir t)) = dir t ! IndexOf h t key
            then (if bit j (b_depth B) then Some (length (heap t) + 1) else Some (length (heap t)))
            else dir t ! (j mod length (dir t)))" if "j < length (dir t')" for j
    using split_bucket_dir_nth[OF wf B_def] that unfolding t'_def by simp
  have gd_le: "global_depth t \<le> global_depth t'" using gd' by simp
  have p1: "length (dir t') = 2 ^ global_depth t'"
    using gd' len' L by simp
  have Lpos: "0 < length (dir t)" using L by simp
  have p2: "\<exists>a. dir t' ! j = Some a \<and> a < length (heap t')" if j: "j < length (dir t')" for j
  proof -
    have "j mod length (dir t) < length (dir t)" using Lpos by simp
    from wf_dir_Some[OF wf this] obtain a where
      a: "dir t ! (j mod length (dir t)) = Some a" "a < length (heap t)" by blast
    show ?thesis using nth'[OF j] a heap' by auto
  qed
  have p3: "b_size b = bucket_size t' \<and> b_depth b \<le> global_depth t' \<and>
        length (b_list b) \<le> b_size b \<and> distinct (map fst (b_list b))"
    if b: "b \<in> set (heap t')" for b
  proof -
    from b heap' consider "b \<in> set (heap t)" | "b = B0" | "b = B1" by auto
    then show ?thesis
    proof cases
      case 1
      from wf_bucket[OF wf 1] gd_le bs' show ?thesis by simp
    next
      case 2
      have "length (filter (\<lambda>item. \<not> bit (h (fst item)) (b_depth B)) (b_list B)) \<le> bucket_size t"
        using tb(4) length_filter_le[of _ "b_list B"] order_trans by blast
      then show ?thesis using 2 tb gd' bs' by (simp add: B0_def distinct_map_filter)
    next
      case 3
      have "length (filter (\<lambda>item. bit (h (fst item)) (b_depth B)) (b_list B)) \<le> bucket_size t"
        using tb(4) length_filter_le[of _ "b_list B"] order_trans by blast
      then show ?thesis using 3 tb gd' bs' by (simp add: B1_def distinct_map_filter)
    qed
  qed
  have p4: "take_bit (b_depth (deref t' j)) (h (fst item)) = take_bit (b_depth (deref t' j)) j"
    if j: "j < length (dir t')" and item: "item \<in> set (b_list (deref t' j))" for j item
  proof -
    let ?jm = "j mod length (dir t)"
    have jm: "?jm < length (dir t)" using Lpos by simp
    from wf_dir_Some[OF wf jm] obtain a where
      a: "dir t ! ?jm = Some a" "a < length (heap t)" by blast
    show ?thesis
    proof (cases "dir t ! ?jm = dir t ! IndexOf h t key")
      case True
      then have dB: "deref t ?jm = B" by (simp add: deref_def B_def)
      have d': "deref t' j = (if bit j (b_depth B) then B1 else B0)"
        using nth'[OF j] True heap' by (simp add: deref_def nth_append)
      have inB: "item \<in> set (b_list B)" and bits: "bit (h (fst item)) (b_depth B) = bit j (b_depth B)"
        using item d' by (auto simp: B0_def B1_def split: if_splits)
      from wf_inv4[OF wf jm] inB dB
      have "take_bit (b_depth B) (h (fst item)) = take_bit (b_depth B) ?jm" by simp
      also have "\<dots> = take_bit (b_depth B) j"
        using tb(3) by (simp add: L take_bit_mod_exp)
      finally have "take_bit (Suc (b_depth B)) (h (fst item)) = take_bit (Suc (b_depth B)) j"
        using bits by (rule take_bit_Suc_eqI)
      then show ?thesis using d' by (simp add: B0_def B1_def)
    next
      case False
      have d': "deref t' j = deref t ?jm"
        using nth'[OF j] False heap' a by (simp add: deref_def nth_append)
      have "deref t ?jm \<in> set (heap t)" by (rule wf_deref_in_heap[OF wf jm])
      from wf_bucket[OF wf this] have le: "b_depth (deref t ?jm) \<le> global_depth t" by simp
      from wf_inv4[OF wf jm] item d'
      have "take_bit (b_depth (deref t ?jm)) (h (fst item)) = take_bit (b_depth (deref t ?jm)) ?jm"
        by simp
      also have "\<dots> = take_bit (b_depth (deref t ?jm)) j"
        using le by (simp add: L take_bit_mod_exp)
      finally show ?thesis using d' by simp
    qed
  qed
  have p5: "take_bit (b_depth (deref t' i)) i = take_bit (b_depth (deref t' i)) j"
    if i: "i < length (dir t')" and j: "j < length (dir t')" and eq: "dir t' ! i = dir t' ! j" for i j
  proof -
    let ?im = "i mod length (dir t)"
    let ?jm = "j mod length (dir t)"
    have im: "?im < length (dir t)" and jm: "?jm < length (dir t)" using Lpos by simp_all
    from wf_dir_Some[OF wf im] obtain a where
      a: "dir t ! ?im = Some a" "a < length (heap t)" by blast
    from wf_dir_Some[OF wf jm] obtain b where
      b: "dir t ! ?jm = Some b" "b < length (heap t)" by blast
    show ?thesis
    proof (cases "dir t ! ?im = dir t ! IndexOf h t key")
      case True
      then have dB: "deref t ?im = B" by (simp add: deref_def B_def)
      have d': "deref t' i = (if bit i (b_depth B) then B1 else B0)"
        using nth'[OF i] True heap' by (simp add: deref_def nth_append)
      have jT: "dir t ! ?jm = dir t ! IndexOf h t key"
        using eq nth'[OF i] nth'[OF j] True b by (auto split: if_splits)
      have bits: "bit i (b_depth B) = bit j (b_depth B)"
        using eq nth'[OF i] nth'[OF j] True jT by (auto split: if_splits)
      from wf_inv2[OF wf im jm] True jT dB
      have "take_bit (b_depth B) ?im = take_bit (b_depth B) ?jm" by simp
      then have "take_bit (b_depth B) i = take_bit (b_depth B) j"
        using tb(3) by (simp add: L take_bit_mod_exp)
      then have "take_bit (Suc (b_depth B)) i = take_bit (Suc (b_depth B)) j"
        using bits by (rule take_bit_Suc_eqI)
      then show ?thesis using d' by (simp add: B0_def B1_def)
    next
      case False
      have jF: "dir t ! ?jm \<noteq> dir t ! IndexOf h t key"
        using eq nth'[OF i] nth'[OF j] False a by (auto split: if_splits)
      have eq': "dir t ! ?im = dir t ! ?jm"
        using eq nth'[OF i] nth'[OF j] False jF by simp
      have d': "deref t' i = deref t ?im"
        using nth'[OF i] False heap' a by (simp add: deref_def nth_append)
      have "deref t ?im \<in> set (heap t)" by (rule wf_deref_in_heap[OF wf im])
      from wf_bucket[OF wf this] have le: "b_depth (deref t ?im) \<le> global_depth t" by simp
      from wf_inv2[OF wf im jm eq']
      have "take_bit (b_depth (deref t ?im)) ?im = take_bit (b_depth (deref t ?im)) ?jm" .
      then have "take_bit (b_depth (deref t ?im)) i = take_bit (b_depth (deref t ?im)) j"
        using le by (simp add: L take_bit_mod_exp)
      then show ?thesis using d' by simp
    qed
  qed
  show ?thesis
    unfolding t'_def[symmetric] wf_table_def using p1 p2 p3 p4 p5 by blast
qed

lemma target_after_split:
  assumes wf: "wf_table h t" and B: "B = deref t (IndexOf h t key)"
  shows "deref (split_bucket h key t) (IndexOf h (split_bucket h key t) key) =
     \<lparr>b_size = bucket_size t, b_depth = b_depth B + 1,
      b_list = filter (\<lambda>item. bit (h (fst item)) (b_depth B) = bit (h key) (b_depth B)) (b_list B)\<rparr>"
proof -
  define t' where "t' = split_bucket h key t"
  note tb = wf_target_bucket[OF wf B]
  note L = wf_length_dir[OF wf]
  note ss = split_bucket_simps[OF wf B]
  have wf': "wf_table h t'" unfolding t'_def by (rule wf_split[OF wf])
  let ?i = "IndexOf h t' key"
  have i: "?i < length (dir t')" by (rule wf_IndexOf_less[OF wf'])
  have le: "global_depth t \<le> global_depth t'" unfolding t'_def using ss(1) by simp
  have lt: "b_depth B < global_depth t'" unfolding t'_def using ss(1) tb(3) by simp
  have "?i mod length (dir t) = IndexOf h t key"
    using le by (simp add: L IndexOf_take_bit take_bit_eq_mod[symmetric] min_def)
  moreover have "bit ?i (b_depth B) = bit (h key) (b_depth B)"
    using lt by (simp add: IndexOf_take_bit bit_take_bit_iff)
  ultimately have "dir t' ! ?i =
      (if bit (h key) (b_depth B) then Some (length (heap t) + 1) else Some (length (heap t)))"
    using split_bucket_dir_nth[OF wf B, of ?i] i unfolding t'_def by simp
  then show ?thesis
    unfolding t'_def[symmetric] using ss(4) unfolding t'_def[symmetric]
    by (auto simp: deref_def nth_append intro: filter_cong)
qed

subsection \<open>The split loop\<close>

lemma split_loop_not_full:
  "\<not> IsFull (deref t (IndexOf h t key)) \<Longrightarrow> split_loop h key t = Some t"
  by (subst split_loop.simps) simp

lemma split_loop_full:
  "IsFull (deref t (IndexOf h t key)) \<Longrightarrow>
   split_loop h key t = split_loop h key (split_bucket h key t)"
  by (subst split_loop.simps) simp


lemma split_loop_Some_not_inv:
  assumes step: "\<And>t. I t \<Longrightarrow> IsFull (deref t (IndexOf h t key)) \<and> I (split_bucket h key t)"
  shows "split_loop h key t = Some y \<Longrightarrow> \<not> I t"
proof -
  assume a: "split_loop h key t = Some y"
  have "h = h \<longrightarrow> key = key \<longrightarrow> \<not> I t"
  proof (rule split_loop.raw_induct[where P = "\<lambda>h' key' t y. h' = h \<longrightarrow> key' = key \<longrightarrow> \<not> I t", OF _ a])
    fix f h' key' t' y'
    assume IH: "\<And>h' key' t' y'. f h' key' t' = Some y' \<Longrightarrow> h' = h \<longrightarrow> key' = key \<longrightarrow> \<not> I t'"
      and eq: "(if IsFull (deref t' (IndexOf h' t' key')) then f h' key' (split_bucket h' key' t')
           else Some t') = Some y'"
    show "h' = h \<longrightarrow> key' = key \<longrightarrow> \<not> I t'"
    proof (intro impI notI)
      assume hk: "h' = h" "key' = key" and I: "I t'"
      from step[OF I] have full: "IsFull (deref t' (IndexOf h t' key))"
        and I': "I (split_bucket h key t')" by simp_all
      from eq hk full have "f h key (split_bucket h key t') = Some y'" by simp
      from IH[OF this] I' show False by simp
    qed
  qed
  then show ?thesis by simp
qed

lemma split_loop_None:
  assumes step: "\<And>t. I t \<Longrightarrow> IsFull (deref t (IndexOf h t key)) \<and> I (split_bucket h key t)"
    and I: "I t"
  shows "split_loop h key t = None"
proof (cases "split_loop h key t")
  case None
  then show ?thesis .
next
  case (Some y)
  from split_loop_Some_not_inv[of I h key, OF step Some] I show ?thesis by simp
qed

lemma wf_new: "wf_table h (new_ExtendibleHashTable n)"
  by (simp add: wf_table_def new_ExtendibleHashTable_def new_Bucket_def deref_def)

lemma hash_agree_below_depth:
  assumes wf: "wf_table h t" and B: "B = deref t (IndexOf h t key)"
    and item: "item \<in> set (b_list B)"
  shows "take_bit (b_depth B) (h (fst item)) = take_bit (b_depth B) (h key)"
proof -
  note tb = wf_target_bucket[OF wf B]
  from wf_inv4[OF wf wf_IndexOf_less[OF wf, of key], of item] item B
  have "take_bit (b_depth B) (h (fst item)) = take_bit (b_depth B) (IndexOf h t key)" by simp
  also have "\<dots> = take_bit (b_depth B) (h key)"
    using tb(3) by (simp add: IndexOf_take_bit min_def)
  finally show ?thesis .
qed

lemma split_loop_terminates:
  assumes "wf_table h t"
    and "item \<in> set (b_list (deref t (IndexOf h t key)))"
    and "bit (h (fst item)) p \<noteq> bit (h key) p"
  shows "\<exists>t'. split_loop h key t = Some t' \<and> wf_table h t' \<and>
            \<not> IsFull (deref t' (IndexOf h t' key))"
  using assms
proof (induction "p - b_depth (deref t (IndexOf h t key))" arbitrary: t rule: less_induct)
  case less
  define B where "B = deref t (IndexOf h t key)"
  note wf = less.prems(1)
  note tb = wf_target_bucket[OF wf B_def]
  have item: "item \<in> set (b_list B)" using less.prems(2) by (simp add: B_def)
  have p_ge: "b_depth B \<le> p"
  proof (rule ccontr)
    assume "\<not> b_depth B \<le> p"
    then have "p < b_depth B" by simp
    moreover from hash_agree_below_depth[OF wf B_def item]
    have "bit (take_bit (b_depth B) (h (fst item))) p = bit (take_bit (b_depth B) (h key)) p"
      by simp
    ultimately show False using less.prems(3) by (simp add: bit_take_bit_iff)
  qed
  show ?case
  proof (cases "IsFull B")
    case False
    then show ?thesis using wf split_loop_not_full[of t h key] by (simp add: B_def)
  next
    case True
    define t1 where "t1 = split_bucket h key t"
    have wf1: "wf_table h t1" unfolding t1_def by (rule wf_split[OF wf])
    have B1: "deref t1 (IndexOf h t1 key) =
       \<lparr>b_size = bucket_size t, b_depth = b_depth B + 1,
        b_list = filter (\<lambda>item. bit (h (fst item)) (b_depth B) = bit (h key) (b_depth B)) (b_list B)\<rparr>"
      unfolding t1_def by (rule target_after_split[OF wf B_def])
    have loop: "split_loop h key t = split_loop h key t1"
      unfolding t1_def using True by (simp add: B_def split_loop_full)
    show ?thesis
    proof (cases "bit (h (fst item)) (b_depth B) = bit (h key) (b_depth B)")
      case same: True
      then have "p \<noteq> b_depth B" using less.prems(3) by auto
      with p_ge have "p - b_depth (deref t1 (IndexOf h t1 key)) < p - b_depth (deref t (IndexOf h t key))"
        by (simp add: B1 B_def[symmetric])
      moreover have "item \<in> set (b_list (deref t1 (IndexOf h t1 key)))"
        using item same by (simp add: B1)
      ultimately show ?thesis
        using less.hyps[of t1] wf1 less.prems(3) loop by simp
    next
      case False
      then have "length (filter (\<lambda>item. bit (h (fst item)) (b_depth B) = bit (h key) (b_depth B)) (b_list B))
          < length (b_list B)"
        using item by (intro length_filter_less) auto
      also have "\<dots> = bucket_size t" using True tb(2) by (simp add: IsFull_def)
      finally have "\<not> IsFull (deref t1 (IndexOf h t1 key))"
        by (simp add: B1 IsFull_def)
      then show ?thesis using wf1 loop split_loop_not_full[of t1 h key] by simp
    qed
  qed
qed

lemma overwrite_Some_keys: "overwrite key val l = Some l' \<Longrightarrow> map fst l' = map fst l"
  by (induction l arbitrary: l') (auto split: if_splits)

lemma overwrite_Some_Find: "overwrite key val l = Some l' \<Longrightarrow> Bucket_Find key l' = Some val"
  by (induction l arbitrary: l') (auto split: if_splits)

lemma Bucket_Find_append_new:
  "key \<notin> fst ` set l \<Longrightarrow> Bucket_Find key (l @ [(key, val)]) = Some val"
  by (induction l) auto

lemma Bucket_Insert_Find:
  "\<not> IsFull b \<Longrightarrow> Bucket_Find key (b_list (snd (Bucket_Insert key val b))) = Some val"
  by (auto simp: Bucket_Insert_def overwrite_Some_Find overwrite_None Bucket_Find_append_new
      split: option.split)

lemma Bucket_Insert_fields:
  "b_size (snd (Bucket_Insert key val b)) = b_size b"
  "b_depth (snd (Bucket_Insert key val b)) = b_depth b"
  by (auto simp: Bucket_Insert_def split: option.split)

lemma Bucket_Insert_keys:
  "\<not> IsFull b \<Longrightarrow>
   map fst (b_list (snd (Bucket_Insert key val b))) =
     (if key \<in> fst ` set (b_list b) then map fst (b_list b) else map fst (b_list b) @ [key])"
  using overwrite_None[of key val "b_list b"]
  by (auto simp: Bucket_Insert_def overwrite_Some_keys split: option.split)

subsection \<open>The final insertion\<close>

lemma wf_final_insert:
  assumes wf: "wf_table h t" and nf: "\<not> IsFull (deref t (IndexOf h t key))"
  shows "wf_table h (t\<lparr>heap := (heap t)[the (dir t ! IndexOf h t key) :=
           snd (Bucket_Insert key val (heap t ! the (dir t ! IndexOf h t key)))]\<rparr>)"
proof -
  define B where "B = deref t (IndexOf h t key)"
  define a where "a = the (dir t ! IndexOf h t key)"
  define X where "X = snd (Bucket_Insert key val B)"
  define t' where "t' = t\<lparr>heap := (heap t)[a := X]\<rparr>"
  note tb = wf_target_bucket[OF wf B_def]
  note i0 = wf_IndexOf_less[OF wf, of key]
  from wf_dir_Some[OF wf i0] have a: "dir t ! IndexOf h t key = Some a" "a < length (heap t)"
    by (auto simp: a_def)
  have nfB: "\<not> IsFull B" using nf by (simp add: B_def)
  have Xs: "b_size X = bucket_size t" and Xd: "b_depth X = b_depth B"
    using tb(2) by (simp_all add: X_def Bucket_Insert_fields)
  have Xk: "map fst (b_list X) =
      (if key \<in> fst ` set (b_list B) then map fst (b_list B) else map fst (b_list B) @ [key])"
    unfolding X_def by (rule Bucket_Insert_keys[OF nfB])
  have Xlen: "length (b_list X) \<le> bucket_size t"
  proof -
    have "length (b_list B) < bucket_size t"
      using nfB tb(2) tb(4) by (simp add: IsFull_def)
    moreover have "length (b_list X) = length (map fst (b_list X))" by simp
    ultimately show ?thesis unfolding Xk by (simp split: if_splits)
  qed
  have Xdist: "distinct (map fst (b_list X))"
    unfolding Xk using tb(5) by auto
  have der: "deref t' j = (if dir t ! j = Some a then X else deref t j)"
    if "j < length (dir t)" for j
    using wf_dir_Some[OF wf that] a(2) by (auto simp: deref_def t'_def)
  have depth: "b_depth (deref t' j) = b_depth (deref t j)" if "j < length (dir t)" for j
    using der[OF that] Xd a(1) by (auto simp: deref_def B_def)
  have p3: "b_size b = bucket_size t' \<and> b_depth b \<le> global_depth t' \<and>
        length (b_list b) \<le> b_size b \<and> distinct (map fst (b_list b))"
    if b: "b \<in> set (heap t')" for b
  proof -
    from b have "b \<in> set (heap t) \<or> b = X"
      using set_update_subset_insert[of "heap t" a X] by (auto simp: t'_def)
    then show ?thesis
    proof
      assume "b \<in> set (heap t)"
      from wf_bucket[OF wf this] show ?thesis by (simp add: t'_def)
    next
      assume "b = X"
      then show ?thesis using Xs Xd Xlen Xdist tb(3) by (simp add: t'_def)
    qed
  qed
  have p5: "take_bit (b_depth (deref t' j)) (h (fst item)) = take_bit (b_depth (deref t' j)) j"
    if j: "j < length (dir t)" and item: "item \<in> set (b_list (deref t' j))" for j item
  proof (cases "dir t ! j = Some a")
    case False
    then show ?thesis using der[OF j] item wf_inv4[OF wf j] by simp
  next
    case True
    then have dj: "deref t j = B" using a(1) by (simp add: deref_def B_def)
    have "fst item \<in> set (map fst (b_list X))" using der[OF j] True item by simp
    then have "fst item \<in> fst ` set (b_list B) \<or> fst item = key"
      unfolding Xk by (auto split: if_splits)
    then have "take_bit (b_depth B) (h (fst item)) = take_bit (b_depth B) j"
    proof
      assume "fst item \<in> fst ` set (b_list B)"
      then obtain item' where "item' \<in> set (b_list B)" "fst item' = fst item" by auto
      with wf_inv4[OF wf j, of item'] dj show ?thesis by simp
    next
      assume k: "fst item = key"
      have "take_bit (b_depth B) (h key) = take_bit (b_depth B) (IndexOf h t key)"
        using tb(3) by (simp add: IndexOf_take_bit min_def)
      also have "\<dots> = take_bit (b_depth B) j"
        using wf_inv2[OF wf i0 j] a(1) True by (simp add: B_def)
      finally show ?thesis using k by simp
    qed
    then show ?thesis using depth[OF j] dj by simp
  qed
  have "wf_table h t'"
    unfolding wf_table_def
  proof (intro conjI allI impI ballI)
    show "length (dir t') = 2 ^ global_depth t'"
      using wf_length_dir[OF wf] by (simp add: t'_def)
  next
    fix i assume "i < length (dir t')"
    then show "\<exists>a. dir t' ! i = Some a \<and> a < length (heap t')"
      using wf_dir_Some[OF wf, of i] by (simp add: t'_def)
  next
    fix b assume "b \<in> set (heap t')"
    from p3[OF this] show "b_size b = bucket_size t'" "b_depth b \<le> global_depth t'"
      "length (b_list b) \<le> b_size b" "distinct (map fst (b_list b))" by simp_all
  next
    fix i j assume "i < length (dir t')" "j < length (dir t')" "dir t' ! i = dir t' ! j"
    then have i: "i < length (dir t)" and j: "j < length (dir t)" and eq: "dir t ! i = dir t ! j"
      by (simp_all add: t'_def)
    from wf_inv2[OF wf i j eq] depth[OF i]
    show "take_bit (b_depth (deref t' i)) i = take_bit (b_depth (deref t' i)) j" by simp
  next
    fix i item assume "i < length (dir t')" "item \<in> set (b_list (deref t' i))"
    then show "take_bit (b_depth (deref t' i)) (h (fst item)) = take_bit (b_depth (deref t' i)) i"
      using p5[of i item] by (simp add: t'_def)
  qed
  then show ?thesis
    by (simp add: t'_def a_def X_def B_def deref_def)
qed

lemma Find_final_insert:
  assumes wf: "wf_table h t" and nf: "\<not> IsFull (deref t (IndexOf h t key))"
  shows "Find h key (t\<lparr>heap := (heap t)[the (dir t ! IndexOf h t key) :=
           snd (Bucket_Insert key val (heap t ! the (dir t ! IndexOf h t key)))]\<rparr>) = Some val"
proof -
  note i0 = wf_IndexOf_less[OF wf, of key]
  from wf_dir_Some[OF wf i0] obtain a where a: "dir t ! IndexOf h t key = Some a" "a < length (heap t)"
    by auto
  show ?thesis
    using a nf by (simp add: Find_def IndexOf_def deref_def Bucket_Insert_Find)
qed

lemma Insert_after_loop:
  assumes loop: "split_loop h key t = Some t'" and wf: "wf_table h t'"
    and nf: "\<not> IsFull (deref t' (IndexOf h t' key))"
  shows "\<exists>t''. Insert h key val t = Some t'' \<and> wf_table h t'' \<and> Find h key t'' = Some val"
  using loop wf_final_insert[OF wf nf, of val] Find_final_insert[OF wf nf, of val]
  by (simp add: Insert_def Let_def)

lemma diverge_bucket_size_0:
  assumes "wf_table h t" and "bucket_size t = 0"
  shows "split_loop h key t = None"
proof (rule split_loop_None[where I = "\<lambda>t. wf_table h t \<and> bucket_size t = 0"])
  show "wf_table h t \<and> bucket_size t = 0" using assms by simp
next
  fix t :: "('a, 'b) ExtendibleHashTable"
  assume I: "wf_table h t \<and> bucket_size t = 0"
  then have wf: "wf_table h t" by simp
  note tb = wf_target_bucket[OF wf refl, of key]
  have "IsFull (deref t (IndexOf h t key))" using tb(2) tb(4) I by (simp add: IsFull_def)
  moreover have "wf_table h (split_bucket h key t)" by (rule wf_split[OF wf])
  moreover have "bucket_size (split_bucket h key t) = 0"
    using split_bucket_simps(2)[OF wf refl, of key] I by simp
  ultimately show "IsFull (deref t (IndexOf h t key)) \<and>
      wf_table h (split_bucket h key t) \<and> bucket_size (split_bucket h key t) = 0" by simp
qed

lemma diverge_key_present_size_1:
  assumes "wf_table h t" and "bucket_size t = 1"
    and "key \<in> fst ` set (b_list (deref t (IndexOf h t key)))"
  shows "split_loop h key t = None"
proof (rule split_loop_None[where I = "\<lambda>t. wf_table h t \<and> bucket_size t = 1 \<and>
      key \<in> fst ` set (b_list (deref t (IndexOf h t key)))"])
  show "wf_table h t \<and> bucket_size t = 1 \<and> key \<in> fst ` set (b_list (deref t (IndexOf h t key)))"
    using assms by simp
next
  fix t :: "('a, 'b) ExtendibleHashTable"
  assume I: "wf_table h t \<and> bucket_size t = 1 \<and>
      key \<in> fst ` set (b_list (deref t (IndexOf h t key)))"
  then have wf: "wf_table h t" and bs: "bucket_size t = 1"
    and k: "key \<in> fst ` set (b_list (deref t (IndexOf h t key)))" by simp_all
  note tb = wf_target_bucket[OF wf refl, of key]
  from k have "b_list (deref t (IndexOf h t key)) \<noteq> []" by auto
  then have "length (b_list (deref t (IndexOf h t key))) = 1"
    using tb(4) bs by (cases "b_list (deref t (IndexOf h t key))") auto
  then have full: "IsFull (deref t (IndexOf h t key))" using tb(2) bs by (simp add: IsFull_def)
  have wf': "wf_table h (split_bucket h key t)" by (rule wf_split[OF wf])
  have bs': "bucket_size (split_bucket h key t) = 1"
    using split_bucket_simps(2)[OF wf refl, of key] bs by simp
  have k': "key \<in> fst ` set (b_list (deref (split_bucket h key t) (IndexOf h (split_bucket h key t) key)))"
    using k by (auto simp: target_after_split[OF wf refl])
  show "IsFull (deref t (IndexOf h t key)) \<and>
      wf_table h (split_bucket h key t) \<and> bucket_size (split_bucket h key t) = 1 \<and>
      key \<in> fst ` set (b_list (deref (split_bucket h key t) (IndexOf h (split_bucket h key t) key)))"
    using full wf' bs' k' by simp
qed

subsection \<open>The claims about the hash table\<close>

lemma eht_one_reached: "Insert hash_identity 0 10 (new_ExtendibleHashTable 1) = Some eht_one"
  by (simp add: Insert_def split_loop_not_full new_ExtendibleHashTable_def new_Bucket_def
      IndexOf_def deref_def IsFull_def Bucket_Insert_def eht_one_def)

lemma eht_two_reached:
  "Option.bind (Insert hash_identity 0 10 (new_ExtendibleHashTable 2)) (Insert hash_identity 1 11)
     = Some eht_two"
  by (simp add: Insert_def split_loop_not_full new_ExtendibleHashTable_def new_Bucket_def
      IndexOf_def deref_def IsFull_def Bucket_Insert_def eht_two_def)

lemma wf_eht_one: "wf_table hash_identity eht_one"
  by (simp add: wf_table_def eht_one_def deref_def hash_identity_def)

lemma wf_eht_two: "wf_table hash_identity eht_two"
  by (simp add: wf_table_def eht_two_def deref_def hash_identity_def)

text \<open>
  Claim C6. One pass of the split loop of \<open>Insert\<close>, on a table that satisfies the
  invariant and whose target bucket \<open>B\<close> (of local depth \<open>d\<close>) is full: \<open>Insert\<close> goes
  on from the split table; when \<open>d\<close> equals the global depth the directory becomes the old
  one followed by a copy of itself and the global depth grows by one, otherwise both stay;
  the two new buckets have depth \<open>d + 1\<close>; with \<open>mask = 1 << d\<close>, \<open>bucket_1\<close> holds the
  pairs of \<open>B\<close> with \<open>hash(k) & mask \<noteq> 0\<close> and \<open>bucket_0\<close> the others, in the order of
  \<open>B\<close>; every slot that pointed at \<open>B\<close> points at \<open>bucket_1\<close> when
  \<open>slot_index & mask \<noteq> 0\<close> and at \<open>bucket_0\<close> otherwise, every other slot is unchanged;
  and \<open>num_buckets\<close> grows by exactly one.
\<close>

theorem split_step:
  assumes "wf_table h t" and "IsFull (deref t (IndexOf h t key))"
  shows "let B = deref t (IndexOf h t key); d = GetDepth B; msk = push_bit d (1::nat);
             t' = split_bucket h key t;
             D = (if d = GetGlobalDepth t then dir t @ dir t else dir t);
             p0 = length (heap t); p1 = length (heap t) + 1
         in Insert h key val t = Insert h key val t'
          \<and> GetGlobalDepth t' = (if d = GetGlobalDepth t then GetGlobalDepth t + 1 else GetGlobalDepth t)
          \<and> length (dir t') = length D
          \<and> GetDepth (heap t' ! p0) = d + 1 \<and> GetDepth (heap t' ! p1) = d + 1
          \<and> GetItems (heap t' ! p0) = filter (\<lambda>item. \<not> h (fst item) AND msk \<noteq> 0) (GetItems B)
          \<and> GetItems (heap t' ! p1) = filter (\<lambda>item. h (fst item) AND msk \<noteq> 0) (GetItems B)
          \<and> (\<forall>i < length D. dir t' ! i =
                (if D ! i = dir t ! IndexOf h t key
                 then (if i AND msk \<noteq> 0 then Some p1 else Some p0) else D ! i))
          \<and> GetNumBuckets t' = GetNumBuckets t + 1"
proof -
  note wf = assms(1)
  note ss = split_bucket_simps[OF wf refl, of key]
  have ins: "Insert h key val t = Insert h key val (split_bucket h key t)"
    by (simp only: Insert_def split_loop_full[OF assms(2)])
  have nth: "dir (split_bucket h key t) ! i =
       (if (if b_depth (deref t (IndexOf h t key)) = global_depth t then dir t @ dir t else dir t) ! i
            = dir t ! IndexOf h t key
        then (if bit i (b_depth (deref t (IndexOf h t key)))
              then Some (length (heap t) + 1) else Some (length (heap t)))
        else (if b_depth (deref t (IndexOf h t key)) = global_depth t then dir t @ dir t else dir t) ! i)"
    if "i < length (if b_depth (deref t (IndexOf h t key)) = global_depth t then dir t @ dir t else dir t)"
    for i
  proof -
    have "(if b_depth (deref t (IndexOf h t key)) = global_depth t then dir t @ dir t else dir t) ! i
        = dir t ! (i mod length (dir t))"
    proof (cases "b_depth (deref t (IndexOf h t key)) = global_depth t")
      case True
      with that show ?thesis by (simp add: append_self_nth)
    next
      case False
      with that show ?thesis by simp
    qed
    moreover have "i < length (dir (split_bucket h key t))"
      using that ss(5) by (simp split: if_splits)
    ultimately show ?thesis
      using split_bucket_dir_nth[OF wf refl, of i key] by simp
  qed
  show ?thesis
    unfolding Let_def GetDepth_def GetGlobalDepth_def GetItems_def GetNumBuckets_def and_push_bit_1_iff
  proof (intro conjI allI impI)
    show "Insert h key val t = Insert h key val (split_bucket h key t)" by (rule ins)
    show "global_depth (split_bucket h key t) =
        (if b_depth (deref t (IndexOf h t key)) = global_depth t then global_depth t + 1
         else global_depth t)" by (rule ss(1))
    show "length (dir (split_bucket h key t)) =
        length (if b_depth (deref t (IndexOf h t key)) = global_depth t then dir t @ dir t else dir t)"
      using ss(5) by simp
    show "b_depth (heap (split_bucket h key t) ! length (heap t)) = b_depth (deref t (IndexOf h t key)) + 1"
      by (simp add: ss(4))
    show "b_depth (heap (split_bucket h key t) ! (length (heap t) + 1)) = b_depth (deref t (IndexOf h t key)) + 1"
      by (simp add: ss(4) nth_append)
    show "b_list (heap (split_bucket h key t) ! length (heap t)) =
        filter (\<lambda>item. \<not> bit (h (fst item)) (b_depth (deref t (IndexOf h t key))))
          (b_list (deref t (IndexOf h t key)))"
      by (simp add: ss(4))
    show "b_list (heap (split_bucket h key t) ! (length (heap t) + 1)) =
        filter (\<lambda>item. bit (h (fst item)) (b_depth (deref t (IndexOf h t key))))
          (b_list (deref t (IndexOf h t key)))"
      by (simp add: ss(4) nth_append)
    show "num_buckets (split_bucket h key t) = num_buckets t + 1" by (rule ss(3))
  next
    fix i
    assume "i < length (if b_depth (deref t (IndexOf h t key)) = global_depth t then dir t @ dir t else dir t)"
    from nth[OF this]
    show "dir (split_bucket h key t) ! i =
       (if (if b_depth (deref t (IndexOf h t key)) = global_depth t then dir t @ dir t else dir t) ! i
            = dir t ! IndexOf h t key
        then (if bit i (b_depth (deref t (IndexOf h t key)))
              then Some (length (heap t) + 1) else Some (length (heap t)))
        else (if b_depth (deref t (IndexOf h t key)) = global_depth t then dir t @ dir t else dir t) ! i)" .
  qed
qed

text \<open>
  The split of claim C6 on the table of capacity 1 that holds key 0, for the insertion of
  key 4.
\<close>

theorem split_step_witness:
  "GetGlobalDepth (split_bucket hash_identity 4 eht_one) = 1 \<and>
   GetNumBuckets (split_bucket hash_identity 4 eht_one) = 2 \<and>
   GetItems (heap (split_bucket hash_identity 4 eht_one) ! 1) = [(0, 10)] \<and>
   GetItems (heap (split_bucket hash_identity 4 eht_one) ! 2) = []"
proof -
  have full: "IsFull (deref eht_one (IndexOf hash_identity eht_one 4))"
    by (simp add: eht_one_def IsFull_def deref_def IndexOf_def)
  have B: "deref eht_one (IndexOf hash_identity eht_one 4) = \<lparr>b_size = 1, b_depth = 0, b_list = [(0, 10)]\<rparr>"
    by (simp add: eht_one_def deref_def IndexOf_def)
  have h: "length (heap eht_one) = 1" "GetGlobalDepth eht_one = 0" "GetNumBuckets eht_one = 1"
    by (simp_all add: eht_one_def GetGlobalDepth_def GetNumBuckets_def)
  from split_step[OF wf_eht_one full, of 11] show ?thesis
    unfolding Let_def B h by (simp add: GetDepth_def GetItems_def hash_identity_def numeral_2_eq_2)
qed

text \<open>
  Claim C9, amended. On a table that satisfies the invariant, \<open>Insert\<close> returns, and
  \<open>Find\<close> then yields the inserted value, whenever the target bucket is not full or holds
  a key whose hash differs from the hash of the inserted key. (Integers are unbounded in
  the model: the directory may grow to any length.)
\<close>

theorem Insert_terminates:
  assumes wf: "wf_table h t"
    and c: "\<not> IsFull (deref t (IndexOf h t key)) \<or>
         (\<exists>item \<in> set (b_list (deref t (IndexOf h t key))). h (fst item) \<noteq> h key)"
  shows "\<exists>t'. Insert h key val t = Some t' \<and> wf_table h t' \<and> Find h key t' = Some val"
proof -
  have "\<exists>t'. split_loop h key t = Some t' \<and> wf_table h t' \<and>
            \<not> IsFull (deref t' (IndexOf h t' key))"
    using c
  proof
    assume "\<not> IsFull (deref t (IndexOf h t key))"
    then show ?thesis using wf split_loop_not_full[of t h key] by simp
  next
    assume "\<exists>item \<in> set (b_list (deref t (IndexOf h t key))). h (fst item) \<noteq> h key"
    then obtain item where item: "item \<in> set (b_list (deref t (IndexOf h t key)))"
      and ne: "h (fst item) \<noteq> h key" by blast
    from ne obtain p where "bit (h (fst item)) p \<noteq> bit (h key) p"
      by (auto simp: bit_eq_iff)
    from split_loop_terminates[OF wf item this] show ?thesis .
  qed
  then obtain t' where "split_loop h key t = Some t'" "wf_table h t'"
    "\<not> IsFull (deref t' (IndexOf h t' key))" by blast
  from Insert_after_loop[OF this] show ?thesis .
qed

text \<open>
  Claim C9 at the table of capacity 2 that holds keys 0 and 1, for the insertion of key 2:
  the only bucket is full and key 1 has another hash than key 2.
\<close>

theorem Insert_terminates_witness:
  "\<exists>t'. Insert hash_identity 2 12 eht_two = Some t' \<and> wf_table hash_identity t' \<and>
     Find hash_identity 2 t' = Some 12"
proof -
  have "\<exists>item \<in> set (b_list (deref eht_two (IndexOf hash_identity eht_two 2))).
      hash_identity (fst item) \<noteq> hash_identity 2"
    by (simp add: eht_two_def deref_def IndexOf_def hash_identity_def)
  then show ?thesis using Insert_terminates[OF wf_eht_two, of 2 12] by simp
qed

text \<open>
  Claim C9 as stated ("for every key, value, bucket size and hash function") fails: with
  \<open>bucket_size = 0\<close> every bucket is full, the split loop never ends and \<open>Insert\<close>
  does not return.
\<close>

theorem Insert_bucket_size_0_diverges:
  "Insert hash_identity 0 (0::nat) (new_ExtendibleHashTable 0) = None"
proof -
  have "bucket_size (new_ExtendibleHashTable 0 :: (nat, nat) ExtendibleHashTable) = 0"
    by (simp add: new_ExtendibleHashTable_def)
  from diverge_bucket_size_0[OF wf_new this] show ?thesis
    by (simp add: Insert_def)
qed

lemma first_insert_size_1:
  "Insert h k v1 (new_ExtendibleHashTable 1) =
     Some \<lparr>global_depth = 0, bucket_size = 1, num_buckets = 1, dir = [Some 0],
           heap = [\<lparr>b_size = 1, b_depth = 0, b_list = [(k, v1)]\<rparr>]\<rparr>"
  and wf_first_insert_size_1:
  "wf_table h \<lparr>global_depth = 0, bucket_size = 1, num_buckets = 1, dir = [Some 0],
           heap = [\<lparr>b_size = 1, b_depth = 0, b_list = [(k, v1)]\<rparr>]\<rparr>"
proof -
  let ?t1 = "\<lparr>global_depth = 0, bucket_size = 1, num_buckets = 1, dir = [Some 0],
           heap = [\<lparr>b_size = 1, b_depth = 0, b_list = [(k, v1)]\<rparr>]\<rparr>"
  have nf: "\<not> IsFull (deref (new_ExtendibleHashTable 1) (IndexOf h (new_ExtendibleHashTable 1) k))"
    by (simp add: new_ExtendibleHashTable_def new_Bucket_def IndexOf_def deref_def IsFull_def)
  have fin: "(new_ExtendibleHashTable 1)\<lparr>heap := (heap (new_ExtendibleHashTable 1))
         [the (dir (new_ExtendibleHashTable 1) ! IndexOf h (new_ExtendibleHashTable 1) k) :=
            snd (Bucket_Insert k v1 (heap (new_ExtendibleHashTable 1) !
              the (dir (new_ExtendibleHashTable 1) ! IndexOf h (new_ExtendibleHashTable 1) k)))]\<rparr> = ?t1"
    by (simp add: new_ExtendibleHashTable_def new_Bucket_def IndexOf_def Bucket_Insert_def IsFull_def)
  show "Insert h k v1 (new_ExtendibleHashTable 1) = Some ?t1"
    unfolding Insert_def split_loop_not_full[OF nf] using fin by (simp add: Let_def)
  show "wf_table h ?t1"
    using wf_final_insert[OF wf_new nf, of v1] unfolding fin .
qed

text \<open>
  Claim C8 (upsert) at a table of capacity 1: \<open>Insert(k, v1)\<close> returns the table whose
  only bucket holds \<open>(k, v1)\<close>; \<open>Insert(k, v2)\<close> on it never returns. The loop of
  \<open>Insert\<close> tests whether the bucket is full before \<open>Bucket::Insert\<close> looks for the
  key, the bucket of \<open>k\<close> is full, and every split leaves \<open>k\<close> in the bucket that \<open>k\<close>
  is directed to.
\<close>

theorem Insert_existing_key_full_bucket_diverges:
  "Insert h k v1 (new_ExtendibleHashTable 1) =
     Some \<lparr>global_depth = 0, bucket_size = 1, num_buckets = 1, dir = [Some 0],
           heap = [\<lparr>b_size = 1, b_depth = 0, b_list = [(k, v1)]\<rparr>]\<rparr> \<and>
   Insert h k v2 \<lparr>global_depth = 0, bucket_size = 1, num_buckets = 1, dir = [Some 0],
           heap = [\<lparr>b_size = 1, b_depth = 0, b_list = [(k, v1)]\<rparr>]\<rparr> = None"
proof -
  let ?t1 = "\<lparr>global_depth = 0, bucket_size = 1, num_buckets = 1, dir = [Some 0],
           heap = [\<lparr>b_size = 1, b_depth = 0, b_list = [(k, v1)]\<rparr>]\<rparr>"
  have "split_loop h k ?t1 = None"
    by (rule diverge_key_present_size_1[OF wf_first_insert_size_1]) (simp_all add: deref_def IndexOf_def)
  then show ?thesis using first_insert_size_1[of h k v1] by (simp add: Insert_def)
qed

lemma Suc_and_evals:
  "Suc 0 AND 2 = 0" "Suc 0 AND 4 = 0" "Suc (Suc 0) AND 2 = 2" "Suc (Suc 0) AND 4 = 0"
  "Suc (Suc (Suc 0)) AND 2 = 2" "Suc (Suc (Suc 0)) AND 4 = 0"
  "Suc (Suc (Suc (Suc 0))) AND 4 = 4"
  "Suc (Suc (Suc (Suc (Suc 0)))) AND 4 = 4"
  "Suc (Suc (Suc (Suc (Suc (Suc 0))))) AND 4 = 4"
  "Suc (Suc (Suc (Suc (Suc (Suc (Suc 0)))))) AND 4 = 4"
  by code_simp+

lemmas split_eval = Suc_and_evals split_bucket_def Let_def IndexOf_def deref_def GetDepth_def GetGlobalDepth_def
  GetItems_def double_dir_def new_Bucket_def Bucket_Insert_def IsFull_def

text \<open>
  Claim C7, amended. From the empty table of capacity 1, under any hash with
  \<open>hash(0) = 0\<close> and \<open>hash(4) = 4\<close>, inserting key 0 and then key 4 returns a table of
  global depth 3 with \<open>num_buckets = 4\<close> (three splits, one new bucket each).
\<close>

theorem S2_directory_double:
  assumes h0: "h (0::nat) = 0" and h4: "h 4 = 4"
  shows "\<exists>t. Option.bind (Insert h 0 v0 (new_ExtendibleHashTable 1)) (Insert h 4 v4) = Some t \<and>
             GetGlobalDepth t = 3 \<and> GetNumBuckets t = 4"
proof -
  let ?b = "\<lambda>d l. \<lparr>b_size = 1, b_depth = d, b_list = l\<rparr>"
  let ?t1 = "\<lparr>global_depth = 0, bucket_size = 1, num_buckets = 1, dir = [Some 0],
           heap = [?b 0 [(0, v0)]]\<rparr>"
  let ?t2 = "\<lparr>global_depth = 1, bucket_size = 1, num_buckets = 2, dir = [Some 1, Some 2],
           heap = [?b 0 [(0, v0)], ?b 1 [(0, v0)], ?b 1 []]\<rparr>"
  let ?t3 = "\<lparr>global_depth = 2, bucket_size = 1, num_buckets = 3,
           dir = [Some 3, Some 2, Some 4, Some 2],
           heap = [?b 0 [(0, v0)], ?b 1 [(0, v0)], ?b 1 [], ?b 2 [(0, v0)], ?b 2 []]\<rparr>"
  let ?t4 = "\<lparr>global_depth = 3, bucket_size = 1, num_buckets = 4,
           dir = [Some 5, Some 2, Some 4, Some 2, Some 6, Some 2, Some 4, Some 2],
           heap = [?b 0 [(0, v0)], ?b 1 [(0, v0)], ?b 1 [], ?b 2 [(0, v0)], ?b 2 [],
                   ?b 3 [(0, v0)], ?b 3 []]\<rparr>"
  let ?t5 = "\<lparr>global_depth = 3, bucket_size = 1, num_buckets = 4,
           dir = [Some 5, Some 2, Some 4, Some 2, Some 6, Some 2, Some 4, Some 2],
           heap = [?b 0 [(0, v0)], ?b 1 [(0, v0)], ?b 1 [], ?b 2 [(0, v0)], ?b 2 [],
                   ?b 3 [(0, v0)], ?b 3 [(4, v4)]]\<rparr>"
  have first: "Insert h 0 v0 (new_ExtendibleHashTable 1) = Some ?t1"
    by (rule first_insert_size_1)
  have f1: "IsFull (deref ?t1 (IndexOf h ?t1 4))" by (simp add: split_eval)
  have s1: "split_bucket h 4 ?t1 = ?t2" using h0 h4 by (simp add: split_eval)
  have f2: "IsFull (deref ?t2 (IndexOf h ?t2 4))" using h4 by (simp add: split_eval)
  have s2: "split_bucket h 4 ?t2 = ?t3" using h0 h4 by (simp add: split_eval)
  have f3: "IsFull (deref ?t3 (IndexOf h ?t3 4))" using h4 by (simp add: split_eval)
  have s3: "split_bucket h 4 ?t3 = ?t4" using h0 h4 by (simp add: split_eval)
  have f4: "\<not> IsFull (deref ?t4 (IndexOf h ?t4 4))" using h4 by (simp add: split_eval)
  have "split_loop h 4 ?t1 = split_loop h 4 ?t2" using split_loop_full[OF f1] s1 by simp
  also have "\<dots> = split_loop h 4 ?t3" using split_loop_full[OF f2] s2 by simp
  also have "\<dots> = split_loop h 4 ?t4" using split_loop_full[OF f3] s3 by simp
  also have "\<dots> = Some ?t4" by (rule split_loop_not_full[OF f4])
  finally have loop: "split_loop h 4 ?t1 = Some ?t4" .
  have "Insert h 4 v4 ?t1 = Some ?t5"
    unfolding Insert_def loop using h4 by (simp add: split_eval)
  then show ?thesis using first by (simp add: GetGlobalDepth_def GetNumBuckets_def)
qed

text \<open>Claim C7 under the identity hash.\<close>

theorem S2_directory_double_witness:
  "\<exists>t. Option.bind (Insert hash_identity 0 10 (new_ExtendibleHashTable 1))
          (Insert hash_identity 4 (11::nat)) = Some t \<and>
       GetGlobalDepth t = 3 \<and> GetNumBuckets t = 4"
  using S2_directory_double[of hash_identity 10 11] by (simp add: hash_identity_def)

text \<open>
  Claim C7 as stated (\<open>GetNumBuckets() == 3\<close>) fails: under the identity hash the two
  insertions end with \<open>num_buckets = 4\<close>.
\<close>

theorem S2_num_buckets_counterexample:
  "map_option GetNumBuckets
     (Option.bind (Insert hash_identity 0 10 (new_ExtendibleHashTable 1))
        (Insert hash_identity 4 (11::nat))) = Some 4 \<and>
   map_option GetNumBuckets
     (Option.bind (Insert hash_identity 0 10 (new_ExtendibleHashTable 1))
        (Insert hash_identity 4 (11::nat))) \<noteq> Some 3"
  by code_simp

section \<open>B+ tree: proofs\<close>

subsection \<open>The array algorithms\<close>

lemma copy_from_out: "i < d \<or> d + n \<le> i \<Longrightarrow> copy_from src s n dst d i = dst i"
  by (induction n arbitrary: s dst d) auto

lemma copy_from_in: "k < n \<Longrightarrow> copy_from src s n dst d (d + k) = src (s + k)"
proof (induction n arbitrary: s dst d k)
  case 0
  then show ?case by simp
next
  case (Suc n)
  show ?case
  proof (cases k)
    case 0
    then show ?thesis by (simp add: copy_from_out)
  next
    case (Suc k')
    with Suc.prems have k': "k' < n" by simp
    have "copy_from src s (Suc n) dst d (d + Suc k') =
        copy_from src (Suc s) n (dst(d := src s)) (Suc d) (Suc d + k')" by simp
    also have "\<dots> = src (Suc s + k')" by (rule Suc.IH[OF k'])
    finally show ?thesis using Suc by simp
  qed
qed

lemma move_within_out: "i < d \<or> d + n \<le> i \<Longrightarrow> move_within a s n d i = a i"
  by (induction n arbitrary: a s d) auto

lemma move_within_left_in:
  "d \<le> s \<Longrightarrow> k < n \<Longrightarrow> move_within a s n d (d + k) = a (s + k)"
proof (induction n arbitrary: a s d k)
  case 0
  then show ?case by simp
next
  case (Suc n)
  show ?case
  proof (cases k)
    case 0
    then show ?thesis by (simp add: move_within_out)
  next
    case (Suc k')
    with Suc.prems have k': "k' < n" and ds: "Suc d \<le> Suc s" by simp_all
    have "move_within a s (Suc n) d (d + Suc k') =
        move_within (a(d := a s)) (Suc s) n (Suc d) (Suc d + k')" by simp
    also have "\<dots> = (a(d := a s)) (Suc s + k')" by (rule Suc.IH[OF ds k'])
    also have "\<dots> = a (s + Suc k')" using Suc.prems by simp
    finally show ?thesis using Suc by simp
  qed
qed

lemma move_within_disjoint_in:
  "s + n \<le> d \<Longrightarrow> k < n \<Longrightarrow> move_within a s n d (d + k) = a (s + k)"
proof (induction n arbitrary: a s d k)
  case 0
  then show ?case by simp
next
  case (Suc n)
  show ?case
  proof (cases k)
    case 0
    then show ?thesis by (simp add: move_within_out)
  next
    case (Suc k')
    with Suc.prems have k': "k' < n" and ds: "Suc s + n \<le> Suc d" by simp_all
    have "move_within a s (Suc n) d (d + Suc k') =
        move_within (a(d := a s)) (Suc s) n (Suc d) (Suc d + k')" by simp
    also have "\<dots> = (a(d := a s)) (Suc s + k')" by (rule Suc.IH[OF ds k'])
    also have "\<dots> = a (s + Suc k')" using Suc.prems k' by simp
    finally show ?thesis using Suc by simp
  qed
qed

lemma move_within_zero_shift: "move_within a s n s = a"
proof (rule ext)
  fix i
  show "move_within a s n s i = a i"
  proof (cases "i < s \<or> s + n \<le> i")
    case True
    then show ?thesis by (rule move_within_out)
  next
    case False
    then have "i = s + (i - s)" "i - s < n" by auto
    then show ?thesis using move_within_left_in[of s s "i - s" n a] by simp
  qed
qed

lemma move_backward_within_out:
  "n \<le> e \<Longrightarrow> i < e - n \<or> e \<le> i \<Longrightarrow> move_backward_within a s n e i = a i"
proof (induction n arbitrary: a e)
  case 0
  then show ?case by simp
next
  case (Suc n)
  from Suc.prems have *: "n \<le> e - 1" "i < e - 1 - n \<or> e - 1 \<le> i" "i \<noteq> e - 1" by auto
  have "move_backward_within a s (Suc n) e i =
      move_backward_within (a(e - 1 := a (s + n))) s n (e - 1) i" by simp
  also have "\<dots> = (a(e - 1 := a (s + n))) i" by (rule Suc.IH[OF *(1) *(2)])
  also have "\<dots> = a i" using *(3) by simp
  finally show ?case .
qed

lemma move_backward_within_in:
  "s + n \<le> e \<Longrightarrow> n \<le> e \<Longrightarrow> k < n \<Longrightarrow> move_backward_within a s n e (e - n + k) = a (s + k)"
proof (induction n arbitrary: a e k)
  case 0
  then show ?case by simp
next
  case (Suc n)
  show ?case
  proof (cases "k = n")
    case True
    have "move_backward_within (a(e - 1 := a (s + n))) s n (e - 1) (e - 1) = (a(e - 1 := a (s + n))) (e - 1)"
      using Suc.prems by (intro move_backward_within_out) auto
    moreover have "e - Suc n + n = e - 1" using Suc.prems by simp
    ultimately show ?thesis using True by simp
  next
    case False
    with Suc.prems have k: "k < n" and e: "s + n \<le> e - 1" "n \<le> e - 1" by simp_all
    have idx: "e - Suc n + k = (e - 1) - n + k" by simp
    have ne: "s + k \<noteq> e - 1" using k e by simp
    have "move_backward_within a s (Suc n) e (e - Suc n + k) =
        move_backward_within (a(e - 1 := a (s + n))) s n (e - 1) ((e - 1) - n + k)"
      by (simp only: move_backward_within.simps idx)
    also have "\<dots> = (a(e - 1 := a (s + n))) (s + k)" by (rule Suc.IH[OF e k])
    also have "\<dots> = a (s + k)" using ne by simp
    finally show ?thesis .
  qed
qed

lemma Insert_shift_apply:
  "0 \<le> idx \<Longrightarrow>
   Insert_shift a idx i j = (if nat idx < j \<and> j \<le> nat i then a (j - 1) else a j)"
proof (induction a idx i rule: Insert_shift.induct)
  case (1 a idx i)
  show ?case
  proof (cases "i > idx")
    case True
    have unf: "Insert_shift a idx i j = Insert_shift (a(nat i := a (nat (i - 1)))) idx (i - 1) j"
      using True by (subst Insert_shift.simps) simp
    have IH: "Insert_shift (a(nat i := a (nat (i - 1)))) idx (i - 1) j =
        (if nat idx < j \<and> j \<le> nat (i - 1) then (a(nat i := a (nat (i - 1)))) (j - 1)
         else (a(nat i := a (nat (i - 1)))) j)"
      by (rule "1.IH"[OF True "1.prems"])
    have n1: "nat (i - 1) = nat i - 1" and pos: "0 < nat i" and lt: "nat idx < nat i"
      using True "1.prems" by simp_all
    show ?thesis
    proof (cases "j = nat i")
      case True
      then show ?thesis unfolding unf IH using n1 pos lt by simp
    next
      case False
      then show ?thesis unfolding unf IH using n1 pos lt by auto
    qed
  next
    case False
    then show ?thesis by (subst Insert_shift.simps) auto
  qed
qed

lemma MoveHalfTo_loop_apply:
  "0 \<le> copy_idx \<Longrightarrow> copy_idx \<le> i \<Longrightarrow>
   MoveHalfTo_loop a r copy_idx maxsize i j =
     (if nat (i - copy_idx) \<le> j \<and> int j < maxsize - copy_idx then a (j + nat copy_idx) else r j)"
proof (induction a r copy_idx maxsize i rule: MoveHalfTo_loop.induct)
  case (1 a r copy_idx maxsize i)
  show ?case
  proof (cases "i < maxsize")
    case True
    have unf: "MoveHalfTo_loop a r copy_idx maxsize i j =
        MoveHalfTo_loop a (r(nat (i - copy_idx) := a (nat i))) copy_idx maxsize (i + 1) j"
      using True by (subst MoveHalfTo_loop.simps) simp
    have le: "copy_idx \<le> i + 1" using "1.prems" by simp
    have IH: "MoveHalfTo_loop a (r(nat (i - copy_idx) := a (nat i))) copy_idx maxsize (i + 1) j =
        (if nat (i + 1 - copy_idx) \<le> j \<and> int j < maxsize - copy_idx then a (j + nat copy_idx)
         else (r(nat (i - copy_idx) := a (nat i))) j)"
      by (rule "1.IH"[OF True "1.prems"(1) le])
    have n1: "nat (i + 1 - copy_idx) = Suc (nat (i - copy_idx))"
      and n2: "nat (i - copy_idx) + nat copy_idx = nat i"
      and n3: "int (nat (i - copy_idx)) < maxsize - copy_idx"
      using True "1.prems" by simp_all
    show ?thesis
    proof (cases "j = nat (i - copy_idx)")
      case True
      then show ?thesis unfolding unf IH using n1 n2 n3 by simp
    next
      case False
      then show ?thesis unfolding unf IH using n1 by auto
    qed
  next
    case False
    with "1.prems" show ?thesis by (subst MoveHalfTo_loop.simps) auto
  qed
qed

text \<open>An array is sorted below \<open>n\<close>.\<close>

lemma KeyIndex_loop_spec:
  fixes a :: "nat \<Rightarrow> 'k::linorder \<times> 'v"
  assumes "\<forall>i j. i \<le> j \<and> j < n \<longrightarrow> fst (a i) \<le> fst (a j)"
    and "0 \<le> left" and "left \<le> right + 1" and "right \<le> int n - 1" and "left \<le> int n - 1"
    and "\<forall>j. int j < left \<longrightarrow> fst (a j) \<le> key"
    and "\<forall>j. right < int j \<and> j < n \<longrightarrow> key < fst (a j)"
  shows "0 \<le> KeyIndex_loop a key left right \<and> KeyIndex_loop a key left right \<le> int n - 1 \<and>
         (\<forall>j. int j < KeyIndex_loop a key left right \<longrightarrow> fst (a j) \<le> key) \<and>
         (\<forall>j. KeyIndex_loop a key left right < int j \<and> j < n \<longrightarrow> key < fst (a j))"
  using assms
proof (induction a key left right rule: KeyIndex_loop.induct)
  case (1 a key left right)
  show ?case
  proof (cases "left < right")
    case False
    then have unf: "KeyIndex_loop a key left right = left" by (subst KeyIndex_loop.simps) simp
    have "key < fst (a j)" if "left < int j" "j < n" for j
    proof -
      from False "1.prems"(3) have "left = right \<or> left = right + 1" by linarith
      then have "right < int j" using that by auto
      with "1.prems"(7) that show ?thesis by blast
    qed
    then show ?thesis unfolding unf using "1.prems" by auto
  next
    case True
    define mid where "mid = (right - left) div 2 + left"
    have mid: "left \<le> mid" "mid < right" using True by (simp_all add: mid_def)
    have midn: "nat mid < n" "0 \<le> mid" using mid "1.prems" by simp_all
    show ?thesis
    proof (cases "comparator (fst (a (nat mid))) key > 0")
      case gt: True
      then have kl: "key < fst (a (nat mid))" by (simp add: comparator_def split: if_splits)
      have unf: "KeyIndex_loop a key left right = KeyIndex_loop a key left (mid - 1)"
        using True gt by (subst KeyIndex_loop.simps) (simp add: mid_def Let_def)
      have p7: "\<forall>j. mid - 1 < int j \<and> j < n \<longrightarrow> key < fst (a j)"
      proof (intro allI impI)
        fix j assume j: "mid - 1 < int j \<and> j < n"
        then have "nat mid \<le> j" using midn by linarith
        with "1.prems"(1) j have "fst (a (nat mid)) \<le> fst (a j)" by blast
        with kl show "key < fst (a j)" by simp
      qed
      have "0 \<le> KeyIndex_loop a key left (mid - 1) \<and> KeyIndex_loop a key left (mid - 1) \<le> int n - 1 \<and>
         (\<forall>j. int j < KeyIndex_loop a key left (mid - 1) \<longrightarrow> fst (a j) \<le> key) \<and>
         (\<forall>j. KeyIndex_loop a key left (mid - 1) < int j \<and> j < n \<longrightarrow> key < fst (a j))"
        using mid "1.prems" p7
        by (intro "1.IH"(1)[OF True mid_def gt]) simp_all
      then show ?thesis unfolding unf .
    next
      case le: False
      then have kl: "fst (a (nat mid)) \<le> key" by (simp add: comparator_def split: if_splits)
      have unf: "KeyIndex_loop a key left right = KeyIndex_loop a key (mid + 1) right"
        using True le by (subst KeyIndex_loop.simps) (simp add: mid_def Let_def)
      have p6: "\<forall>j. int j < mid + 1 \<longrightarrow> fst (a j) \<le> key"
      proof (intro allI impI)
        fix j assume j: "int j < mid + 1"
        then have "j \<le> nat mid" using midn by linarith
        with "1.prems"(1) midn have "fst (a j) \<le> fst (a (nat mid))" by blast
        with kl show "fst (a j) \<le> key" by simp
      qed
      have "0 \<le> KeyIndex_loop a key (mid + 1) right \<and> KeyIndex_loop a key (mid + 1) right \<le> int n - 1 \<and>
         (\<forall>j. int j < KeyIndex_loop a key (mid + 1) right \<longrightarrow> fst (a j) \<le> key) \<and>
         (\<forall>j. KeyIndex_loop a key (mid + 1) right < int j \<and> j < n \<longrightarrow> key < fst (a j))"
        using mid "1.prems" p6
        by (intro "1.IH"(2)[OF True mid_def le]) simp_all
      then show ?thesis unfolding unf .
    qed
  qed
qed

subsection \<open>Search and insertion in a leaf\<close>

lemma length_leaf_entries [simp]: "length (leaf_entries p) = nat (psize p)"
  by (simp add: leaf_entries_def)

lemma leaf_entries_nth: "i < nat (psize p) \<Longrightarrow> leaf_entries p ! i = leaf_array p i"
  by (simp add: leaf_entries_def)

lemma sorted_entries_array:
  fixes p :: "('k::linorder, 'v) BPlusTreePage"
  assumes "sorted_wrt (<) (map fst (leaf_entries p))"
  shows "i < j \<Longrightarrow> j < nat (psize p) \<Longrightarrow> fst (leaf_array p i) < fst (leaf_array p j)"
  using assms by (auto simp: sorted_wrt_iff_nth_less leaf_entries_nth)

lemma sorted_entries_array_le:
  fixes p :: "('k::linorder, 'v) BPlusTreePage"
  assumes "sorted_wrt (<) (map fst (leaf_entries p))"
  shows "\<forall>i j. i \<le> j \<and> j < nat (psize p) \<longrightarrow> fst (leaf_array p i) \<le> fst (leaf_array p j)"
proof (intro allI impI)
  fix i j assume ij: "i \<le> j \<and> j < nat (psize p)"
  show "fst (leaf_array p i) \<le> fst (leaf_array p j)"
  proof (cases "i = j")
    case True
    then show ?thesis by simp
  next
    case False
    with ij have "i < j" by simp
    from sorted_entries_array[OF assms this] ij show ?thesis by simp
  qed
qed

lemma Leaf_KeyIndex_spec:
  fixes p :: "('k::linorder, 'v) BPlusTreePage"
  assumes sorted: "sorted_wrt (<) (map fst (leaf_entries p))" and pos: "psize p > 0"
  shows "\<exists>r. Leaf_KeyIndex p key = Inr r \<and> - 1 \<le> r \<and> r \<le> psize p - 1 \<and>
     (\<forall>j. int j \<le> r \<longrightarrow> fst (leaf_array p j) \<le> key) \<and>
     (\<forall>j. r < int j \<and> j < nat (psize p) \<longrightarrow> key < fst (leaf_array p j))"
proof -
  define l where "l = KeyIndex_loop (leaf_array p) key 0 (psize p - 1)"
  have spec: "0 \<le> l \<and> l \<le> int (nat (psize p)) - 1 \<and>
         (\<forall>j. int j < l \<longrightarrow> fst (leaf_array p j) \<le> key) \<and>
         (\<forall>j. l < int j \<and> j < nat (psize p) \<longrightarrow> key < fst (leaf_array p j))"
    unfolding l_def
    using pos by (intro KeyIndex_loop_spec[OF sorted_entries_array_le[OF sorted]]) auto
  show ?thesis
  proof (cases "comparator (fst (leaf_array p (nat l))) key > 0")
    case True
    then have kl: "key < fst (leaf_array p (nat l))" by (simp add: comparator_def split: if_splits)
    have r: "Leaf_KeyIndex p key = Inr (l - 1)"
      using pos True by (simp add: Leaf_KeyIndex_def Let_def l_def)
    have "key < fst (leaf_array p j)" if "l - 1 < int j" "j < nat (psize p)" for j
    proof (cases "int j = l")
      case True
      then have "j = nat l" by simp
      with kl show ?thesis by simp
    next
      case False
      with that have "l < int j" by simp
      with spec that show ?thesis by blast
    qed
    moreover have "fst (leaf_array p j) \<le> key" if "int j \<le> l - 1" for j
      using spec that by simp
    moreover have "- 1 \<le> l - 1" "l - 1 \<le> psize p - 1" using spec pos by simp_all
    ultimately show ?thesis using r by (intro exI[of _ "l - 1"]) blast
  next
    case False
    then have kl: "fst (leaf_array p (nat l)) \<le> key" by (simp add: comparator_def split: if_splits)
    have r: "Leaf_KeyIndex p key = Inr l"
      using pos False by (simp add: Leaf_KeyIndex_def Let_def l_def)
    have "fst (leaf_array p j) \<le> key" if "int j \<le> l" for j
    proof (cases "int j = l")
      case True
      then have "j = nat l" by simp
      with kl show ?thesis by simp
    next
      case False
      with that have "int j < l" by simp
      with spec show ?thesis by blast
    qed
    moreover have "key < fst (leaf_array p j)" if "l < int j" "j < nat (psize p)" for j
      using spec that by blast
    moreover have "- 1 \<le> l" "l \<le> psize p - 1" using spec pos by simp_all
    ultimately show ?thesis using r by (intro exI[of _ l]) blast
  qed
qed

lemma Leaf_KeyIndex_present:
  fixes p :: "('k::linorder, 'v) BPlusTreePage"
  assumes sorted: "sorted_wrt (<) (map fst (leaf_entries p))"
    and i: "i < nat (psize p)" and key: "fst (leaf_array p i) = key"
  shows "Leaf_KeyIndex p key = Inr (int i)"
proof -
  from i have pos: "psize p > 0" by simp
  from Leaf_KeyIndex_spec[OF sorted pos, of key] obtain r where
    r: "Leaf_KeyIndex p key = Inr r" "- 1 \<le> r" "r \<le> psize p - 1"
    and le: "\<forall>j. int j \<le> r \<longrightarrow> fst (leaf_array p j) \<le> key"
    and gt: "\<forall>j. r < int j \<and> j < nat (psize p) \<longrightarrow> key < fst (leaf_array p j)" by blast
  have "\<not> r < int i" using gt i key by auto
  then have ir: "int i \<le> r" by simp
  have "\<not> int i < r"
  proof
    assume "int i < r"
    then have "i < nat r" "nat r < nat (psize p)" using r by simp_all
    from sorted_entries_array[OF sorted this] key have "key < fst (leaf_array p (nat r))" by simp
    moreover have "fst (leaf_array p (nat r)) \<le> key" using le ir by simp
    ultimately show False by simp
  qed
  with ir have "r = int i" by simp
  with r show ?thesis by simp
qed

lemma Leaf_Lookup_present:
  fixes p :: "('k::linorder, 'v) BPlusTreePage"
  assumes sorted: "sorted_wrt (<) (map fst (leaf_entries p))"
    and i: "i < nat (psize p)" and key: "fst (leaf_array p i) = key"
  shows "Leaf_Lookup hdr p key = Inr (Some (snd (leaf_array p i)))"
  using Leaf_KeyIndex_present[OF assms] i key
  by (simp add: Leaf_Lookup_def array_at_def comparator_def)

lemma Leaf_Insert_entries:
  fixes p :: "('k::linorder, 'v) BPlusTreePage"
  assumes ki: "Leaf_KeyIndex p key = Inr r" and r: "- 1 \<le> r" "r \<le> psize p - 1"
    and pos: "psize p > 0"
  shows "\<exists>p'. Leaf_Insert p key val = Inr (psize p + 1, p') \<and> psize p' = psize p + 1 \<and>
      leaf_entries p' = take (nat (r + 1)) (leaf_entries p) @ [(key, val)] @
                         drop (nat (r + 1)) (leaf_entries p) \<and>
      p' = p\<lparr>psize := psize p + 1, leaf_array := leaf_array p'\<rparr>"
proof -
  define a' where "a' = (Insert_shift (leaf_array p) (r + 1) (psize p))(nat (r + 1) := (key, val))"
  define p' where "p' = p\<lparr>psize := psize p + 1, leaf_array := a'\<rparr>"
  have ins: "Leaf_Insert p key val = Inr (psize p + 1, p')"
    using ki r pos by (simp add: Leaf_Insert_def Let_def p'_def a'_def)
  have a'j: "a' j = (if j = nat (r + 1) then (key, val)
                    else if nat (r + 1) < j \<and> j \<le> nat (psize p) then leaf_array p (j - 1)
                    else leaf_array p j)" for j
    using r by (simp add: a'_def Insert_shift_apply)
  have "leaf_entries p' = take (nat (r + 1)) (leaf_entries p) @ [(key, val)] @
                         drop (nat (r + 1)) (leaf_entries p)"
  proof (rule nth_equalityI)
    show "length (leaf_entries p') = length (take (nat (r + 1)) (leaf_entries p) @ [(key, val)] @
                         drop (nat (r + 1)) (leaf_entries p))"
      using r pos by (simp add: p'_def)
  next
    fix j assume "j < length (leaf_entries p')"
    then have j: "j < nat (psize p) + 1" using pos by (simp add: p'_def nat_add_distrib)
    have k: "nat (r + 1) \<le> nat (psize p)" using r by simp
    have "j < nat (psize p')" using j pos by (simp add: p'_def)
    from leaf_entries_nth[OF this] have lhs: "leaf_entries p' ! j = a' j"
      by (simp add: p'_def)
    consider "j < nat (r + 1)" | "j = nat (r + 1)" | "nat (r + 1) < j" by linarith
    then show "leaf_entries p' ! j = (take (nat (r + 1)) (leaf_entries p) @ [(key, val)] @
                         drop (nat (r + 1)) (leaf_entries p)) ! j"
    proof cases
      case 1
      then show ?thesis unfolding lhs using k j by (simp add: a'j nth_append leaf_entries_nth)
    next
      case 2
      then show ?thesis unfolding lhs using k j by (simp add: a'j nth_append)
    next
      case 3
      then have "j - 1 < nat (psize p)" "nat (r + 1) + (j - Suc (nat (r + 1))) = j - 1"
        using j by simp_all
      with 3 show ?thesis unfolding lhs using k j
        by (simp add: a'j nth_append leaf_entries_nth nth_Cons')
    qed
  qed
  then show ?thesis using ins by (auto simp: p'_def)
qed

subsection \<open>The leaf insertion primitive and its caller\<close>

lemma leaf_entries_leaf_13: "leaf_entries leaf_13 = [(1, 10), (3, 30)]"
  by (simp add: leaf_entries_def leaf_13_def numeral_2_eq_2)

lemma FindLeafPage_bpt_13: "FindLeafPage (Suc 0) key False False bpt_13 = Inr 1"
  by (simp add: FindLeafPage_def bpt_13_def INVALID_PAGE_ID_def IsEmpty_def GetData_def
      FetchPage_def IsLeafPage_def leaf_13_def)

lemma GetData_bpt_13: "GetData bpt_13 1 = Inr leaf_13"
  by (simp add: GetData_def FetchPage_def bpt_13_def)

text \<open>
  Claim C10. \<open>BPlusTreeLeafPage::Insert\<close> has no duplicate check: on a leaf whose keys
  are strictly increasing and that holds \<open>key\<close> in slot \<open>i\<close>, \<open>Insert(key, val)\<close> returns
  with one entry more, the new pair right after slot \<open>i\<close>, so the keys of the leaf are no
  longer strictly increasing (nor distinct). On the same leaf \<open>Lookup\<close> finds the key, and
  \<open>InsertToLeaf\<close>, which tests \<open>Lookup\<close> first, returns false and leaves the tree as it
  is, without calling \<open>Insert\<close> of the leaf.
\<close>

theorem Leaf_Insert_no_duplicate_check:
  fixes p :: "('k::{linorder,zero}, 'v::zero) BPlusTreePage"
  assumes sorted: "sorted_wrt (<) (map fst (leaf_entries p))"
    and i: "i < nat (psize p)" and key: "fst (leaf_array p i) = key"
  shows "(\<exists>p'. Leaf_Insert p key val = Inr (psize p + 1, p') \<and>
            leaf_entries p' =
              take (Suc i) (leaf_entries p) @ [(key, val)] @ drop (Suc i) (leaf_entries p) \<and>
            \<not> sorted_wrt (<) (map fst (leaf_entries p')) \<and>
            \<not> distinct (map fst (leaf_entries p'))) \<and>
         Leaf_Lookup hdr p key = Inr (Some (snd (leaf_array p i))) \<and>
         (FindLeafPage fuel key False False t = Inr leaf_page \<longrightarrow>
          GetData t leaf_page = Inr p \<longrightarrow>
          InsertToLeaf hdr fuel key val t = Inr (False, t))"
proof (intro conjI impI)
  from i have pos: "psize p > 0" by simp
  have ki: "Leaf_KeyIndex p key = Inr (int i)"
    by (rule Leaf_KeyIndex_present[OF sorted i key])
  have "- 1 \<le> int i" "int i \<le> psize p - 1" using i by simp_all
  from Leaf_Insert_entries[OF ki this pos, of val] obtain p' where
    ins: "Leaf_Insert p key val = Inr (psize p + 1, p')"
    and es: "leaf_entries p' =
       take (Suc i) (leaf_entries p) @ [(key, val)] @ drop (Suc i) (leaf_entries p)"
    by (auto simp: nat_add_distrib)
  have len: "Suc i < length (leaf_entries p')" using i by (simp add: es)
  have k1: "fst (leaf_entries p' ! i) = key"
    using i key by (simp add: es nth_append leaf_entries_nth)
  have k2: "fst (leaf_entries p' ! Suc i) = key"
    using i by (simp add: es nth_append)
  have ns: "\<not> sorted_wrt (<) (map fst (leaf_entries p'))"
  proof
    assume "sorted_wrt (<) (map fst (leaf_entries p'))"
    then have "map fst (leaf_entries p') ! i < map fst (leaf_entries p') ! Suc i"
      using len by (simp add: sorted_wrt_iff_nth_less)
    with k1 k2 len show False by simp
  qed
  have nd: "\<not> distinct (map fst (leaf_entries p'))"
  proof
    assume "distinct (map fst (leaf_entries p'))"
    moreover have "i < length (map fst (leaf_entries p'))" "Suc i < length (map fst (leaf_entries p'))"
      using len by simp_all
    ultimately have "map fst (leaf_entries p') ! i \<noteq> map fst (leaf_entries p') ! Suc i"
      by (simp only: nth_eq_iff_index_eq)
    with k1 k2 len show False by simp
  qed
  show "\<exists>p'. Leaf_Insert p key val = Inr (psize p + 1, p') \<and>
            leaf_entries p' =
              take (Suc i) (leaf_entries p) @ [(key, val)] @ drop (Suc i) (leaf_entries p) \<and>
            \<not> sorted_wrt (<) (map fst (leaf_entries p')) \<and>
            \<not> distinct (map fst (leaf_entries p'))"
    using ins es ns nd by blast
  show lk: "Leaf_Lookup hdr p key = Inr (Some (snd (leaf_array p i)))"
    by (rule Leaf_Lookup_present[OF sorted i key])
  assume "FindLeafPage fuel key False False t = Inr leaf_page" "GetData t leaf_page = Inr p"
  then show "InsertToLeaf hdr fuel key val t = Inr (False, t)"
    using lk by (simp add: InsertToLeaf_def)
qed

text \<open>Claim C10 on the leaf \<open>(1, 10), (3, 30)\<close> and the key 3.\<close>

theorem Leaf_Insert_no_duplicate_check_witness:
  "(\<exists>p'. Leaf_Insert leaf_13 3 33 = Inr (3, p') \<and>
          leaf_entries p' = [(1, 10), (3, 30), (3, 33)]) \<and>
   Leaf_Lookup hdr_8_8 leaf_13 3 = Inr (Some 30) \<and>
   InsertToLeaf hdr_8_8 (Suc 0) 3 33 bpt_13 = Inr (False, bpt_13)"
proof -
  have s: "sorted_wrt (<) (map fst (leaf_entries leaf_13))"
    by (simp add: leaf_entries_leaf_13)
  have i: "(1::nat) < nat (psize leaf_13)" and k: "fst (leaf_array leaf_13 1) = 3"
    by (simp_all add: leaf_13_def)
  from Leaf_Insert_no_duplicate_check[OF s i k, of 33 hdr_8_8 "Suc 0" bpt_13 1]
  show ?thesis
    using FindLeafPage_bpt_13[of 3] GetData_bpt_13
    by (auto simp: leaf_entries_leaf_13) (simp_all add: leaf_13_def)
qed

subsection \<open>The root in \<open>CoalesceOrRedistribute\<close>\<close>

text \<open>
  Claim C4. \<open>CoalesceOrRedistribute\<close> on the root \<open>N\<close> (an internal root has at least
  one child): when \<open>N\<close> is internal with a single child, the child's \<open>parent_page_id\<close>
  becomes \<open>INVALID_PAGE_ID\<close>, \<open>root_page_id\<close> becomes the child's page id, the record of
  the header page is updated to it, and the result is true; when \<open>N\<close> is an empty leaf,
  \<open>root_page_id\<close> becomes \<open>INVALID_PAGE_ID\<close>, the header record is updated, and the
  result is true; in every other case the result is false and nothing changes. \<open>N\<close>
  itself is written in no case.
\<close>

theorem CoalesceOrRedistribute_root:
  assumes node: "GetData t node_id = Inr N" and root: "IsRootPage N"
    and wf: "IsLeafPage N \<or> 1 \<le> psize N"
  shows "(\<not> IsLeafPage N \<and> psize N = 1 \<longrightarrow>
            (\<forall>child. GetData t (ValueAt N 0) = Inr child \<longrightarrow>
               CoalesceOrRedistribute (Suc n) node_id t =
                 Inr (True,
                      t\<lparr>root_page_id := page_id child,
                        pages := (pages t)(ValueAt N 0 \<mapsto> child\<lparr>parent_page_id := INVALID_PAGE_ID\<rparr>),
                        header_record := map_option (\<lambda>r. page_id child) (header_record t)\<rparr>))) \<and>
         (IsLeafPage N \<and> psize N = 0 \<longrightarrow>
            CoalesceOrRedistribute (Suc n) node_id t =
              Inr (True,
                   t\<lparr>root_page_id := INVALID_PAGE_ID,
                     header_record := map_option (\<lambda>r. INVALID_PAGE_ID) (header_record t)\<rparr>)) \<and>
         (\<not> (\<not> IsLeafPage N \<and> psize N = 1) \<and> \<not> (IsLeafPage N \<and> psize N = 0) \<longrightarrow>
            CoalesceOrRedistribute (Suc n) node_id t = Inr (False, t))"
proof (intro conjI impI allI)
  fix child
  assume a: "\<not> IsLeafPage N \<and> psize N = 1" and c: "GetData t (ValueAt N 0) = Inr child"
  show "CoalesceOrRedistribute (Suc n) node_id t =
      Inr (True,
           t\<lparr>root_page_id := page_id child,
             pages := (pages t)(ValueAt N 0 \<mapsto> child\<lparr>parent_page_id := INVALID_PAGE_ID\<rparr>),
             header_record := map_option (\<lambda>r. page_id child) (header_record t)\<rparr>)"
    using node root a c
    by (simp add: UpdateRootPageId_def put_page_def split: option.split)
next
  assume "IsLeafPage N \<and> psize N = 0"
  then show "CoalesceOrRedistribute (Suc n) node_id t =
      Inr (True,
           t\<lparr>root_page_id := INVALID_PAGE_ID,
             header_record := map_option (\<lambda>r. INVALID_PAGE_ID) (header_record t)\<rparr>)"
    using node root by (simp add: UpdateRootPageId_def split: option.split)
next
  assume "\<not> (\<not> IsLeafPage N \<and> psize N = 1) \<and> \<not> (IsLeafPage N \<and> psize N = 0)"
  then show "CoalesceOrRedistribute (Suc n) node_id t = Inr (False, t)"
    using node root wf by auto
qed

text \<open>Claim C4 on the tree whose internal root has the single child page 1.\<close>

theorem CoalesceOrRedistribute_root_witness:
  "map_sum id (\<lambda>(b, t'). (b, root_page_id t', map_option parent_page_id (pages t' 1),
      header_record t')) (CoalesceOrRedistribute (Suc 0) 2 bpt_single_child) =
   Inr (True, 1, Some (- 1), Some 1)"
proof -
  have n: "GetData bpt_single_child 2 =
      Inr \<lparr>page_type = INTERNAL_PAGE, psize = 1, max_size = 4,
                              parent_page_id = - 1, page_id = 2, next_page_id = 0,
                              leaf_array = (\<lambda>i. (0, 0)),
                              internal_array = (\<lambda>i. (0, 0))(0 := (0, 1))\<rparr>"
    by (simp add: GetData_def FetchPage_def bpt_single_child_def)
  have c: "GetData bpt_single_child 1 = Inr (leaf_13\<lparr>parent_page_id := 2\<rparr>)"
    by (simp add: GetData_def FetchPage_def bpt_single_child_def)
  from CoalesceOrRedistribute_root[OF n, of 0] c show ?thesis
    by (simp add: IsRootPage_def IsLeafPage_def INVALID_PAGE_ID_def ValueAt_def
        bpt_single_child_def leaf_13_def)
qed

subsection \<open>Keys that are not in the tree\<close>

text \<open>
  Claim C5 on the empty tree, for every key (and every reading \<open>hdr\<close> of the bytes in
  front of a leaf's array): \<open>GetValue\<close> does not return false: it calls \<open>FindLeafPage\<close>,
  whose \<open>assert(root_page_id_ != INVALID_PAGE_ID)\<close> fails (\<open>Insert\<close>, \<open>Remove\<close>,
  \<open>Begin\<close> and \<open>End\<close> test for the empty tree first, \<open>GetValue\<close> does not). \<open>Remove\<close>
  on the empty tree returns with the tree as it is. On the tree whose only leaf holds the
  keys 1 and 3, \<open>GetValue(0)\<close> returns false, as the claim says: \<open>Lookup\<close> compares the
  key with the header bytes in front of the array, which differ from it.
\<close>

theorem GetValue_empty_tree_asserts:
  "GetValue hdr fuel key (t\<lparr>root_page_id := INVALID_PAGE_ID\<rparr>) = Inl AssertionFailed \<and>
   BPlusTree_Remove hdr fuel key (t\<lparr>root_page_id := INVALID_PAGE_ID\<rparr>) =
     Inr (t\<lparr>root_page_id := INVALID_PAGE_ID\<rparr>) \<and>
   GetValue hdr_8_8 (Suc 0) 0 bpt_13 = Inr None"
proof (intro conjI)
  show "GetValue hdr_8_8 (Suc 0) 0 bpt_13 = Inr None"
    by code_simp
  show "GetValue hdr fuel key (t\<lparr>root_page_id := INVALID_PAGE_ID\<rparr>) = Inl AssertionFailed"
    by (simp add: GetValue_def FindLeafPage_def)
  show "BPlusTree_Remove hdr fuel key (t\<lparr>root_page_id := INVALID_PAGE_ID\<rparr>) =
     Inr (t\<lparr>root_page_id := INVALID_PAGE_ID\<rparr>)"
    by (simp add: BPlusTree_Remove_def)
qed

subsection \<open>A key that reads like the header of its leaf\<close>

lemma Leaf_KeyIndex_below:
  fixes p :: "('k::linorder, 'v) BPlusTreePage"
  assumes sorted: "sorted_wrt (<) (map fst (leaf_entries p))" and pos: "psize p > 0"
    and below: "key < fst (leaf_array p 0)"
  shows "Leaf_KeyIndex p key = Inr (- 1)"
proof -
  from Leaf_KeyIndex_spec[OF sorted pos, of key] obtain r where
    r: "Leaf_KeyIndex p key = Inr r" "- 1 \<le> r"
    and le: "\<forall>j. int j \<le> r \<longrightarrow> fst (leaf_array p j) \<le> key" by blast
  have "\<not> 0 \<le> r"
  proof
    assume "0 \<le> r"
    then have "int 0 \<le> r" by simp
    with le have "fst (leaf_array p 0) \<le> key" by blast
    with below show False by simp
  qed
  with r show ?thesis by simp
qed

lemma keys_above_first:
  fixes p :: "('k::linorder, 'v) BPlusTreePage"
  assumes sorted: "sorted_wrt (<) (map fst (leaf_entries p))"
    and below: "key < fst (leaf_array p 0)"
  shows "key \<notin> fst ` set (leaf_entries p)"
proof
  assume "key \<in> fst ` set (leaf_entries p)"
  then obtain j where j: "j < nat (psize p)" and k: "fst (leaf_array p j) = key"
    by (auto simp: leaf_entries_def)
  have "fst (leaf_array p 0) \<le> fst (leaf_array p j)"
    using sorted_entries_array_le[OF sorted] j by simp
  with k below show False by simp
qed

text \<open>
  Claim C2 at a key that is below the first key of its leaf and equal to the key that the
  bytes in front of the array of that leaf read as: the key is in none of the entries of the
  leaf, but \<open>KeyIndex\<close> answers \<open>-1\<close>, \<open>Lookup\<close> compares the key with
  \<open>array_[-1].first\<close>, finds it equal and returns true. So \<open>Insert\<close> returns false and
  adds nothing, and \<open>GetValue\<close> returns true with the value that the header bytes read as.
  \<open>Lookup\<close> guards \<open>idx < GetSize()\<close> only, not \<open>idx >= 0\<close>.
\<close>

theorem Insert_key_equal_header_slot:
  fixes t :: "('k::{linorder,zero}, 'v::zero) BPlusTree"
  assumes find: "FindLeafPage fuel key False False t = Inr lid"
    and leaf: "GetData t lid = Inr L"
    and sorted: "sorted_wrt (<) (map fst (leaf_entries L))"
    and pos: "0 < psize L"
    and below: "key < fst (leaf_array L 0)"
    and hdr: "fst (hdr L) = key"
  shows "BPlusTree_Insert hdr fuel key val t = Inr (False, t) \<and>
         key \<notin> fst ` set (leaf_entries L) \<and>
         GetValue hdr fuel key t = Inr (Some (snd (hdr L)))"
proof (intro conjI)
  have ki: "Leaf_KeyIndex L key = Inr (- 1)"
    by (rule Leaf_KeyIndex_below[OF sorted pos below])
  have lk: "Leaf_Lookup hdr L key = Inr (Some (snd (hdr L)))"
    using ki pos hdr by (simp add: Leaf_Lookup_def array_at_def comparator_def)
  have ne: "\<not> IsEmpty t"
    using find by (auto simp: FindLeafPage_def IsEmpty_def split: if_splits)
  show "BPlusTree_Insert hdr fuel key val t = Inr (False, t)"
    using ne find leaf lk by (simp add: BPlusTree_Insert_def InsertToLeaf_def)
  show "key \<notin> fst ` set (leaf_entries L)"
    by (rule keys_above_first[OF sorted below])
  show "GetValue hdr fuel key t = Inr (Some (snd (hdr L)))"
    using find leaf lk by (simp add: GetValue_def)
qed

text \<open>
  Claim C2 on the tree whose only leaf holds the keys 1 and 3 (\<open>max_size\<close> 4, no parent),
  with 8-byte keys and values: the bytes of \<open>max_size\<close> and \<open>parent_page_id\<close> read as the
  key \<open>-4294967292\<close>.
\<close>

theorem Insert_key_equal_header_slot_witness:
  "BPlusTree_Insert hdr_8_8 (Suc 0) (- 4294967292) 5 bpt_13 = Inr (False, bpt_13) \<and>
   - 4294967292 \<notin> fst ` set (leaf_entries leaf_13) \<and>
   GetValue hdr_8_8 (Suc 0) (- 4294967292) bpt_13 = Inr (Some 8589934591)"
proof -
  have s: "sorted_wrt (<) (map fst (leaf_entries leaf_13))"
    by (simp add: leaf_entries_leaf_13)
  have p: "0 < psize leaf_13" and b: "- 4294967292 < fst (leaf_array leaf_13 0)"
    and h: "hdr_8_8 leaf_13 = (- 4294967292, 8589934591)"
    by (simp_all add: leaf_13_def hdr_8_8_def)
  from h have h1: "fst (hdr_8_8 leaf_13) = - 4294967292" by simp
  have f: "FindLeafPage (Suc 0) (- 4294967292) False False bpt_13 = Inr 1"
    by (rule FindLeafPage_bpt_13)
  from Insert_key_equal_header_slot[where hdr = hdr_8_8 and val = 5, OF f GetData_bpt_13 s p b h1]
  show ?thesis by (simp add: h)
qed

text \<open>
  Any other key below the first key of the leaf is inserted at the front, and is not found
  before: the header bytes differ from it.
\<close>

lemma Insert_below_first_key:
  "(case BPlusTree_Insert hdr_8_8 (Suc 0) 0 5 bpt_13 of
      Inl e \<Rightarrow> False
    | Inr (b, t') \<Rightarrow> b \<and> map_option leaf_entries (pages t' 1) = Some [(0, 5), (1, 10), (3, 30)]) \<and>
   GetValue hdr_8_8 (Suc 0) 0 bpt_13 = Inr None"
  by code_simp

subsection \<open>\<open>Redistribute\<close>\<close>

text \<open>
  \<open>MoveAheadTo\<close> and \<open>MoveMiddleTo\<close> of a leaf move \<open>GetSize() - GetMinSize()\<close> entries,
  the surplus of the page over its minimum size, to the recipient: the first to the end
  of the recipient, the second to its front.
\<close>

lemma map_upt_eqI:
  "length xs = n \<Longrightarrow> (\<And>j. j < n \<Longrightarrow> f j = xs ! j) \<Longrightarrow> map f [0..<n] = xs"
  by (rule nth_equalityI) simp_all

lemma Leaf_MoveAheadTo_result:
  assumes inc: "GetMinSize S \<le> psize S" and mn: "0 \<le> GetMinSize S" and nn: "0 \<le> psize N"
  shows "\<exists>S' N'. Leaf_MoveAheadTo S N = Inr (S', N') \<and>
      psize S' = GetMinSize S \<and> psize N' = psize N + (psize S - GetMinSize S) \<and>
      leaf_entries S' = drop (nat (psize S - GetMinSize S)) (leaf_entries S) \<and>
      leaf_entries N' = leaf_entries N @ take (nat (psize S - GetMinSize S)) (leaf_entries S) \<and>
      (0 < GetMinSize S \<longrightarrow> Leaf_KeyAt S' 0 = fst (leaf_array S (nat (psize S - GetMinSize S)))) \<and>
      (psize S = GetMinSize S \<longrightarrow> S' = S \<and> N' = N)"
proof -
  define k where "k = nat (psize S - GetMinSize S)"
  define aN where "aN = copy_from (leaf_array S) 0 k (leaf_array N) (nat (psize N))"
  define aS where "aS = move_within (leaf_array S) k (nat (psize S) - k) 0"
  define N' where "N' = N\<lparr>leaf_array := aN, psize := psize N + (psize S - GetMinSize S)\<rparr>"
  define S' where "S' = IncreaseSize (GetMinSize S - psize S) (S\<lparr>leaf_array := aS\<rparr>)"
  have kS: "k \<le> nat (psize S)" "nat (psize S) - k = nat (GetMinSize S)"
    using inc mn by (simp_all add: k_def)
  have res: "Leaf_MoveAheadTo S N = Inr (S', N')"
    using inc mn nn
    by (simp add: Leaf_MoveAheadTo_def Leaf_CopyNFrom_def Let_def S'_def N'_def aN_def aS_def k_def)
  have sz: "psize S' = GetMinSize S" "psize N' = psize N + (psize S - GetMinSize S)"
    by (simp_all add: S'_def N'_def IncreaseSize_def)
  have aSj: "aS j = leaf_array S (k + j)" if "j < nat (GetMinSize S)" for j
    using move_within_left_in[of 0 k j "nat (psize S) - k" "leaf_array S"] that kS
    by (simp add: aS_def)
  have eS: "leaf_entries S' = drop k (leaf_entries S)"
    unfolding leaf_entries_def sz
  proof (rule map_upt_eqI)
    show "length (drop k (map (leaf_array S) [0..<nat (psize S)])) = nat (GetMinSize S)"
      using kS by simp
  next
    fix j assume j: "j < nat (GetMinSize S)"
    then have "k + j < nat (psize S)" using kS by linarith
    then show "leaf_array S' j = drop k (map (leaf_array S) [0..<nat (psize S)]) ! j"
      using aSj[OF j] by (simp add: S'_def IncreaseSize_def)
  qed
  have aNj: "aN j = (if j < nat (psize N) then leaf_array N j else leaf_array S (j - nat (psize N)))"
    if "j < nat (psize N) + k" for j
  proof (cases "j < nat (psize N)")
    case True
    then show ?thesis by (simp add: aN_def copy_from_out)
  next
    case False
    then have "j = nat (psize N) + (j - nat (psize N))" "j - nat (psize N) < k" using that by simp_all
    then show ?thesis using False copy_from_in[of "j - nat (psize N)" k "leaf_array S" 0 "leaf_array N" "nat (psize N)"]
      by (simp add: aN_def)
  qed
  have eN: "leaf_entries N' = leaf_entries N @ take k (leaf_entries S)"
    unfolding leaf_entries_def sz
  proof (rule map_upt_eqI)
    show "length (map (leaf_array N) [0..<nat (psize N)] @ take k (map (leaf_array S) [0..<nat (psize S)]))
        = nat (psize N + (psize S - GetMinSize S))"
      using kS nn inc by (simp add: k_def min_def nat_add_distrib)
  next
    fix j assume "j < nat (psize N + (psize S - GetMinSize S))"
    then have j: "j < nat (psize N) + k" using nn inc by (simp add: k_def nat_add_distrib)
    show "leaf_array N' j =
        (map (leaf_array N) [0..<nat (psize N)] @ take k (map (leaf_array S) [0..<nat (psize S)])) ! j"
      using aNj[OF j] j kS by (auto simp: N'_def nth_append)
  qed
  have k0: "0 < GetMinSize S \<longrightarrow> Leaf_KeyAt S' 0 = fst (leaf_array S k)"
    using aSj[of 0] by (simp add: Leaf_KeyAt_def S'_def IncreaseSize_def)
  have same: "psize S = GetMinSize S \<longrightarrow> S' = S \<and> N' = N"
  proof
    assume e: "psize S = GetMinSize S"
    then have k0: "k = 0" by (simp add: k_def)
    have "aS = leaf_array S" by (simp add: aS_def k0 move_within_zero_shift)
    moreover have "aN = leaf_array N" by (simp add: aN_def k0)
    ultimately show "S' = S \<and> N' = N"
      using e by (simp add: S'_def N'_def IncreaseSize_def)
  qed
  show ?thesis
    using res sz eS eN k0 same unfolding k_def by blast
qed

lemma Leaf_MoveMiddleTo_result:
  assumes inc: "GetMinSize S \<le> psize S" and mn: "0 \<le> GetMinSize S" and nn: "0 \<le> psize N"
  shows "\<exists>S' N'. Leaf_MoveMiddleTo S N = Inr (S', N') \<and>
      psize S' = GetMinSize S \<and> psize N' = psize N + (psize S - GetMinSize S) \<and>
      leaf_entries S' = take (nat (GetMinSize S)) (leaf_entries S) \<and>
      take (nat (psize S - GetMinSize S)) (leaf_entries N') =
        drop (nat (GetMinSize S)) (leaf_entries S) \<and>
      (psize N \<le> psize S - GetMinSize S \<longrightarrow>
         drop (nat (psize S - GetMinSize S)) (leaf_entries N') = leaf_entries N) \<and>
      S' = S\<lparr>psize := GetMinSize S\<rparr> \<and>
      N' = N\<lparr>psize := psize N', leaf_array := leaf_array N'\<rparr>"
proof -
  define k where "k = nat (psize S - GetMinSize S)"
  define m where "m = nat (GetMinSize S)"
  define a1 where "a1 = move_within (leaf_array N) 0 (nat (psize N)) k"
  define aN where "aN = copy_from (leaf_array S) m k a1 0"
  define N' where "N' = (IncreaseSize (psize S - GetMinSize S) N)\<lparr>leaf_array := aN\<rparr>"
  define S' where "S' = IncreaseSize (GetMinSize S - psize S) S"
  have km: "m + k = nat (psize S)" using inc mn by (simp add: k_def m_def)
  have res: "Leaf_MoveMiddleTo S N = Inr (S', N')"
    using inc mn nn
    by (simp add: Leaf_MoveMiddleTo_def Let_def S'_def N'_def aN_def a1_def k_def m_def)
  have sz: "psize S' = GetMinSize S" "psize N' = psize N + (psize S - GetMinSize S)"
    by (simp_all add: S'_def N'_def IncreaseSize_def)
  have eS: "leaf_entries S' = take m (leaf_entries S)"
    using km by (simp add: leaf_entries_def S'_def IncreaseSize_def take_map m_def min_def)
  have aNj: "aN j = leaf_array S (m + j)" if "j < k" for j
    using copy_from_in[OF that, of "leaf_array S" m a1 0] by (simp add: aN_def)
  have lenN: "nat (psize N') = nat (psize N) + k" using nn inc by (simp add: sz k_def nat_add_distrib)
  have eN1: "take k (leaf_entries N') = drop m (leaf_entries S)"
  proof (rule nth_equalityI)
    show "length (take k (leaf_entries N')) = length (drop m (leaf_entries S))"
      using km lenN by simp
  next
    fix j assume "j < length (take k (leaf_entries N'))"
    then have j: "j < k" by simp
    then have "j < nat (psize N')" "m + j < nat (psize S)" using lenN km by simp_all
    then show "take k (leaf_entries N') ! j = drop m (leaf_entries S) ! j"
      using j aNj[OF j] by (simp add: leaf_entries_nth) (simp add: N'_def)
  qed
  have eN2: "psize N \<le> psize S - GetMinSize S \<longrightarrow> drop k (leaf_entries N') = leaf_entries N"
  proof
    assume le: "psize N \<le> psize S - GetMinSize S"
    then have nk: "nat (psize N) \<le> k" by (simp add: k_def)
    show "drop k (leaf_entries N') = leaf_entries N"
    proof (rule nth_equalityI)
      show "length (drop k (leaf_entries N')) = length (leaf_entries N)"
        using lenN by simp
    next
      fix j assume "j < length (drop k (leaf_entries N'))"
      then have j: "j < nat (psize N)" using lenN by simp
      have "aN (k + j) = a1 (k + j)" by (simp add: aN_def copy_from_out)
      also have "\<dots> = leaf_array N (0 + j)"
        unfolding a1_def using nk j by (intro move_within_disjoint_in) simp_all
      finally have "aN (k + j) = leaf_array N j" by simp
      moreover have "k + j < nat (psize N')" using j lenN by simp
      ultimately show "drop k (leaf_entries N') ! j = leaf_entries N ! j"
        using j by (simp add: leaf_entries_nth) (simp add: N'_def)
    qed
  qed
  have S'eq: "S' = S\<lparr>psize := GetMinSize S\<rparr>" by (simp add: S'_def IncreaseSize_def)
  have N'eq: "N' = N\<lparr>psize := psize N', leaf_array := leaf_array N'\<rparr>"
    by (simp add: N'_def IncreaseSize_def)
  show ?thesis
    using res sz eS eN1 eN2 S'eq N'eq unfolding k_def m_def by blast
qed

lemma GetData_put_page:
  "GetData (put_page a p t) b = (if b = a then Inr p else GetData t b)"
  by (simp add: GetData_def FetchPage_def put_page_def)

lemma GetData_Inr_iff: "GetData t a = Inr p \<longleftrightarrow> pages t a = Some p"
  by (simp add: GetData_def FetchPage_def split: option.splits)

lemma Internal_KeyAt_SetKeyAt: "Internal_KeyAt (SetKeyAt i k p) i = k"
  by (simp add: Internal_KeyAt_def SetKeyAt_def)

lemma GetMinSize_psize_update [simp]: "GetMinSize (p\<lparr>psize := n\<rparr>) = GetMinSize p"
  by (simp add: GetMinSize_def IsLeafPage_def)

lemma Redistribute_leaf_next_result:
  assumes N: "GetData t nid = Inr N" and S: "GetData t sid = Inr S" and P: "GetData t pid = Inr P"
    and dist: "nid \<noteq> sid" "nid \<noteq> pid" "sid \<noteq> pid"
    and mv: "Leaf_MoveAheadTo S N = Inr (S', N')"
  shows "Redistribute_leaf_next sid nid pid i t =
      Inr (put_page pid (SetKeyAt i (Leaf_KeyAt S' 0) P) (put_page nid N' (put_page sid S' t)))"
  using N S P dist mv
  by (simp add: Redistribute_leaf_next_def GetData_put_page)

lemma Redistribute_leaf_prev_result:
  assumes N: "GetData t nid = Inr N" and S: "GetData t sid = Inr S" and P: "GetData t pid = Inr P"
    and dist: "nid \<noteq> sid" "nid \<noteq> pid" "sid \<noteq> pid"
    and mv: "Leaf_MoveMiddleTo S N = Inr (S', N')"
  shows "Redistribute_leaf_prev sid nid pid i t =
      Inr (put_page pid (SetKeyAt i (Leaf_KeyAt N' 0) P) (put_page nid N' (put_page sid S' t)))"
  using N S P dist mv
  by (simp add: Redistribute_leaf_prev_def GetData_put_page)

lemma Redistribute_leaf:
  assumes N: "GetData t nid = Inr N" and S: "GetData t sid = Inr S" and P: "GetData t pid = Inr P"
    and dist: "nid \<noteq> sid" "nid \<noteq> pid" "sid \<noteq> pid"
    and leaf: "IsLeafPage N"
    and idx: "0 \<le> index"
    and sz: "GetMinSize S \<le> psize S" "0 \<le> GetMinSize S" "0 \<le> psize N"
  shows "\<exists>t' N' S' P'. Redistribute sid nid pid index from_prev t = Inr t' \<and>
      GetData t' nid = Inr N' \<and> GetData t' sid = Inr S' \<and> GetData t' pid = Inr P' \<and>
      psize N' = psize N + (psize S - GetMinSize S) \<and> psize S' = GetMinSize S \<and>
      (if from_prev
       then leaf_entries S' = take (nat (GetMinSize S)) (leaf_entries S) \<and>
            take (nat (psize S - GetMinSize S)) (leaf_entries N') =
              drop (nat (GetMinSize S)) (leaf_entries S)
       else leaf_entries S' = drop (nat (psize S - GetMinSize S)) (leaf_entries S) \<and>
            leaf_entries N' = leaf_entries N @ take (nat (psize S - GetMinSize S)) (leaf_entries S) \<and>
            Internal_KeyAt P' (nat index) = Leaf_KeyAt S' 0)"
proof (cases from_prev)
  case False
  obtain S' N' where mv: "Leaf_MoveAheadTo S N = Inr (S', N')"
    and r: "psize S' = GetMinSize S" "psize N' = psize N + (psize S - GetMinSize S)"
      "leaf_entries S' = drop (nat (psize S - GetMinSize S)) (leaf_entries S)"
      "leaf_entries N' = leaf_entries N @ take (nat (psize S - GetMinSize S)) (leaf_entries S)"
    using Leaf_MoveAheadTo_result[of S N] sz by auto
  let ?P = "SetKeyAt (nat index) (Leaf_KeyAt S' 0) P"
  let ?t = "put_page pid ?P (put_page nid N' (put_page sid S' t))"
  have "Redistribute sid nid pid index from_prev t = Inr ?t"
    using False N leaf idx Redistribute_leaf_next_result[OF N S P dist mv]
    by (simp add: Redistribute_def)
  moreover have "GetData ?t nid = Inr N'" "GetData ?t sid = Inr S'" "GetData ?t pid = Inr ?P"
    using dist by (simp_all add: GetData_put_page)
  moreover have "Internal_KeyAt ?P (nat index) = Leaf_KeyAt S' 0"
    by (rule Internal_KeyAt_SetKeyAt)
  ultimately show ?thesis using False r by auto
next
  case True
  obtain S1 N1 where mv: "Leaf_MoveMiddleTo S N = Inr (S1, N1)"
    and r: "psize S1 = GetMinSize S" "psize N1 = psize N + (psize S - GetMinSize S)"
      "leaf_entries S1 = take (nat (GetMinSize S)) (leaf_entries S)"
      "take (nat (psize S - GetMinSize S)) (leaf_entries N1) =
        drop (nat (GetMinSize S)) (leaf_entries S)"
      "S1 = S\<lparr>psize := GetMinSize S\<rparr>"
    using Leaf_MoveMiddleTo_result[of S N] sz by auto
  let ?P1 = "SetKeyAt (nat index) (Leaf_KeyAt N1 0) P"
  let ?t1 = "put_page pid ?P1 (put_page nid N1 (put_page sid S1 t))"
  have prev: "Redistribute_leaf_prev sid nid pid (nat index) t = Inr ?t1"
    by (rule Redistribute_leaf_prev_result[OF N S P dist mv])
  have g1: "GetData ?t1 nid = Inr N1" "GetData ?t1 sid = Inr S1" "GetData ?t1 pid = Inr ?P1"
    using dist by (simp_all add: GetData_put_page)
  have m1: "GetMinSize S1 = GetMinSize S" by (simp add: r(5))
  have mv2: "Leaf_MoveAheadTo S1 N1 = Inr (S1, N1)"
    using Leaf_MoveAheadTo_result[of S1 N1] sz r(1,2) m1 by auto
  let ?P = "SetKeyAt (nat index) (Leaf_KeyAt S1 0) ?P1"
  let ?t = "put_page pid ?P (put_page nid N1 (put_page sid S1 ?t1))"
  have "Redistribute sid nid pid index from_prev t = Inr ?t"
    using True N leaf idx prev Redistribute_leaf_next_result[OF g1 dist mv2]
    by (simp add: Redistribute_def)
  moreover have "GetData ?t nid = Inr N1" "GetData ?t sid = Inr S1" "GetData ?t pid = Inr ?P"
    using dist by (simp_all add: GetData_put_page)
  ultimately show ?thesis using True r(1-4) by auto
qed

text \<open>
  The internal pages: the loop over the moved children leaves every other page of the pool
  as it is.
\<close>

lemma map_copy_from_append:
  "map (copy_from src s k dst n) [0..<n + k] = map dst [0..<n] @ map (\<lambda>j. src (s + j)) [0..<k]"
proof (rule nth_equalityI)
  show "length (map (copy_from src s k dst n) [0..<n + k]) =
      length (map dst [0..<n] @ map (\<lambda>j. src (s + j)) [0..<k])" by simp
next
  fix j assume "j < length (map (copy_from src s k dst n) [0..<n + k])"
  then have j: "j < n + k" by simp
  show "map (copy_from src s k dst n) [0..<n + k] ! j =
      (map dst [0..<n] @ map (\<lambda>j. src (s + j)) [0..<k]) ! j"
  proof (cases "j < n")
    case True
    then show ?thesis using j by (simp add: nth_append copy_from_out)
  next
    case False
    then have e: "j = n + (j - n)" and l: "j - n < k" using j by simp_all
    have "copy_from src s k dst n (n + (j - n)) = src (s + (j - n))"
      using l by (rule copy_from_in)
    then show ?thesis using False j e by (simp add: nth_append)
  qed
qed

lemma map_shift_drop: "map (\<lambda>j. a (k + j)) [0..<m] = drop k (map a [0..<k + m])"
  by (rule nth_equalityI) simp_all

lemma map_take_upt: "m \<le> n \<Longrightarrow> map a [0..<m] = take m (map a [0..<n])"
  by (rule nth_equalityI) simp_all

lemma map_move_within_left:
  "map (move_within a k m 0) [0..<m] = drop k (map a [0..<k + m])"
proof -
  have "map (move_within a k m 0) [0..<m] = map (\<lambda>j. a (k + j)) [0..<m]"
  proof (rule map_cong[OF refl])
    fix j assume "j \<in> set [0..<m]"
    then have "j < m" by simp
    then show "move_within a k m 0 j = a (k + j)"
      using move_within_left_in[of 0 k j m a] by simp
  qed
  then show ?thesis by (simp add: map_shift_drop)
qed

lemma length_internal_entries [simp]: "length (internal_entries p) = nat (psize p)"
  by (simp add: internal_entries_def)

lemma reparent_result:
  assumes "\<forall>k<n. pages t (snd (a (i + k))) \<noteq> None"
  shows "\<exists>t'. reparent a i n parent_id t = Inr t' \<and>
      (\<forall>x. (\<forall>k<n. x \<noteq> snd (a (i + k))) \<longrightarrow> pages t' x = pages t x)"
  using assms
proof (induction n arbitrary: i t)
  case 0
  then show ?case by simp
next
  case (Suc n)
  from Suc.prems have "pages t (snd (a (i + 0))) \<noteq> None" by blast
  then obtain child where child: "pages t (snd (a i)) = Some child" by auto
  let ?t1 = "put_page (snd (a i)) (child\<lparr>parent_page_id := parent_id\<rparr>) t"
  have "\<forall>k<n. pages ?t1 (snd (a (Suc i + k))) \<noteq> None"
  proof (intro allI impI)
    fix k assume "k < n"
    then have "pages t (snd (a (i + Suc k))) \<noteq> None" using Suc.prems by (metis Suc_less_eq)
    then show "pages ?t1 (snd (a (Suc i + k))) \<noteq> None" by (simp add: put_page_def)
  qed
  from Suc.IH[OF this] obtain t' where
    r: "reparent a (Suc i) n parent_id ?t1 = Inr t'"
    and fr: "\<forall>x. (\<forall>k<n. x \<noteq> snd (a (Suc i + k))) \<longrightarrow> pages t' x = pages ?t1 x" by blast
  have "reparent a i (Suc n) parent_id t = Inr t'"
    using child r by (simp add: FetchPage_def)
  moreover have "\<forall>x. (\<forall>k<Suc n. x \<noteq> snd (a (i + k))) \<longrightarrow> pages t' x = pages t x"
  proof (intro allI impI)
    fix x assume x: "\<forall>k<Suc n. x \<noteq> snd (a (i + k))"
    then have "x \<noteq> snd (a (i + 0))" by blast
    then have x0: "x \<noteq> snd (a i)" by simp
    have "\<forall>k<n. x \<noteq> snd (a (Suc i + k))"
    proof (intro allI impI)
      fix k assume "k < n"
      then have "x \<noteq> snd (a (i + Suc k))" using x by (metis Suc_less_eq)
      then show "x \<noteq> snd (a (Suc i + k))" by simp
    qed
    then have "pages t' x = pages ?t1 x" using fr by blast
    then show "pages t' x = pages t x" using x0 by (simp add: put_page_def)
  qed
  ultimately show ?case by blast
qed

lemma Internal_CopyNFrom_result:
  assumes r: "pages t rid = Some r" and n: "0 \<le> n" and sz: "0 \<le> psize r"
    and ch: "\<forall>k<nat n. pages t (snd (items (s + k))) \<noteq> None \<and> snd (items (s + k)) \<noteq> rid"
  shows "\<exists>t'. Internal_CopyNFrom items s n rid t = Inr t' \<and>
      pages t' rid = Some (r\<lparr>internal_array :=
          copy_from items s (nat n) (internal_array r) (nat (psize r)), psize := psize r + n\<rparr>) \<and>
      (\<forall>x. x \<noteq> rid \<and> (\<forall>k<nat n. x \<noteq> snd (items (s + k))) \<longrightarrow> pages t' x = pages t x)"
proof -
  define a where "a = copy_from items s (nat n) (internal_array r) (nat (psize r))"
  define r1 where "r1 = r\<lparr>internal_array := a\<rparr>"
  define t0 where "t0 = put_page rid r1 t"
  have ak: "a (nat (psize r) + k) = items (s + k)" if "k < nat n" for k
    unfolding a_def using that by (rule copy_from_in)
  have "\<forall>k<nat n. pages t0 (snd (a (nat (psize r) + k))) \<noteq> None"
    using ch ak by (simp add: t0_def put_page_def)
  from reparent_result[OF this, of "page_id r1"] obtain t1 where
    rp: "reparent a (nat (psize r)) (nat n) (page_id r1) t0 = Inr t1"
    and fr: "\<forall>x. (\<forall>k<nat n. x \<noteq> snd (a (nat (psize r) + k))) \<longrightarrow> pages t1 x = pages t0 x"
    by blast
  have fr': "pages t1 x = pages t0 x" if "\<forall>k<nat n. x \<noteq> snd (items (s + k))" for x
    using fr that ak by simp
  have r2: "pages t1 rid = Some r1"
    using fr'[of rid] ch by (auto simp: t0_def put_page_def)
  have ia: "internal_array r1 = a" by (simp add: r1_def)
  have res: "Internal_CopyNFrom items s n rid t = Inr (put_page rid (IncreaseSize n r1) t1)"
    using r n sz rp r2
    by (simp add: Internal_CopyNFrom_def FetchPage_def Let_def a_def[symmetric] r1_def[symmetric]
        t0_def[symmetric] ia)
  have "IncreaseSize n r1 = r\<lparr>internal_array := a, psize := psize r + n\<rparr>"
    by (simp add: IncreaseSize_def r1_def)
  then have "pages (put_page rid (IncreaseSize n r1) t1) rid =
      Some (r\<lparr>internal_array := a, psize := psize r + n\<rparr>)"
    by (simp add: put_page_def)
  moreover have "\<forall>x. x \<noteq> rid \<and> (\<forall>k<nat n. x \<noteq> snd (items (s + k))) \<longrightarrow>
      pages (put_page rid (IncreaseSize n r1) t1) x = pages t x"
    using fr' by (simp add: put_page_def t0_def)
  ultimately show ?thesis using res unfolding a_def by blast
qed

lemma Internal_MoveAheadTo_result:
  assumes N: "pages t nid = Some N" and S: "pages t sid = Some S" and ne: "nid \<noteq> sid"
    and sz: "GetMinSize S \<le> psize S" "0 \<le> GetMinSize S" "0 \<le> psize N"
    and ch: "\<forall>k<nat (psize S - GetMinSize S).
        pages t (snd (internal_array S k)) \<noteq> None \<and>
        snd (internal_array S k) \<noteq> nid \<and> snd (internal_array S k) \<noteq> sid"
  shows "\<exists>t' N' S'. Internal_MoveAheadTo sid nid middle t = Inr t' \<and>
      pages t' nid = Some N' \<and> pages t' sid = Some S' \<and>
      (\<forall>x. x \<noteq> nid \<and> x \<noteq> sid \<and>
           (\<forall>k<nat (psize S - GetMinSize S). x \<noteq> snd (internal_array S k)) \<longrightarrow>
           pages t' x = pages t x) \<and>
      psize N' = psize N + (psize S - GetMinSize S) \<and> psize S' = GetMinSize S \<and>
      GetMinSize S' = GetMinSize S \<and>
      internal_entries N' =
        internal_entries (SetKeyAt 0 middle N) @
        take (nat (psize S - GetMinSize S)) (internal_entries S) \<and>
      internal_entries S' = drop (nat (psize S - GetMinSize S)) (internal_entries S) \<and>
      Internal_KeyAt S' 0 = (if 0 < GetMinSize S
         then fst (internal_array S (nat (psize S - GetMinSize S)))
         else fst (internal_array S 0))"
proof -
  define k where "k = nat (psize S - GetMinSize S)"
  define N0 where "N0 = SetKeyAt 0 middle N"
  define t1 where "t1 = put_page nid N0 t"
  define aN where "aN = copy_from (internal_array S) 0 k (internal_array N0) (nat (psize N))"
  define N' where "N' = N0\<lparr>internal_array := aN, psize := psize N + (psize S - GetMinSize S)\<rparr>"
  define aS where "aS = move_within (internal_array S) k (nat (psize S) - k) 0"
  define S' where "S' = IncreaseSize (GetMinSize S - psize S) (S\<lparr>internal_array := aS\<rparr>)"
  have kS: "nat (psize S) - k = nat (GetMinSize S)" "k + nat (GetMinSize S) = nat (psize S)"
    using sz by (simp_all add: k_def)
  have pN0: "psize N0 = psize N" by (simp add: N0_def SetKeyAt_def)
  have f1: "pages t1 nid = Some N0" "pages t1 sid = Some S"
    using S ne by (simp_all add: t1_def put_page_def)
  have "\<forall>j<nat (psize S - GetMinSize S).
      pages t1 (snd (internal_array S (0 + j))) \<noteq> None \<and> snd (internal_array S (0 + j)) \<noteq> nid"
    using ch by (simp add: t1_def put_page_def)
  from Internal_CopyNFrom_result[OF f1(1) _ _ this] sz pN0
  obtain t2 where
    c: "Internal_CopyNFrom (internal_array S) 0 (psize S - GetMinSize S) nid t1 = Inr t2"
    and cN: "pages t2 nid = Some N'"
    and cfr: "\<forall>x. x \<noteq> nid \<and> (\<forall>j<k. x \<noteq> snd (internal_array S j)) \<longrightarrow> pages t2 x = pages t1 x"
    by (auto simp: N'_def aN_def k_def)
  have "\<forall>j<k. sid \<noteq> snd (internal_array S j)"
    using ch unfolding k_def by metis
  then have "pages t2 sid = pages t1 sid" using cfr[THEN spec, of sid] ne by simp
  then have cS: "pages t2 sid = Some S" using f1(2) by simp
  let ?t' = "put_page sid S' t2"
  have res: "Internal_MoveAheadTo sid nid middle t = Inr ?t'"
    using N f1 c cS sz
    by (simp add: Internal_MoveAheadTo_def FetchPage_def Let_def N0_def[symmetric]
        t1_def[symmetric] S'_def aS_def k_def)
  have g: "pages ?t' nid = Some N'" "pages ?t' sid = Some S'"
    using cN ne by (simp_all add: put_page_def)
  have fr: "\<forall>x. x \<noteq> nid \<and> x \<noteq> sid \<and> (\<forall>j<k. x \<noteq> snd (internal_array S j)) \<longrightarrow>
      pages ?t' x = pages t x"
    using cfr by (simp add: put_page_def t1_def)
  have szs: "psize N' = psize N + (psize S - GetMinSize S)" "psize S' = GetMinSize S"
    "GetMinSize S' = GetMinSize S"
    by (simp_all add: N'_def S'_def IncreaseSize_def GetMinSize_def IsLeafPage_def)
  have lenN: "nat (psize N') = nat (psize N) + k"
    using sz by (simp add: szs k_def nat_add_distrib)
  have eN: "internal_entries N' = internal_entries N0 @ take k (internal_entries S)"
  proof -
    have "internal_entries N' = map aN [0..<nat (psize N) + k]"
      by (simp add: internal_entries_def lenN) (simp add: N'_def)
    also have "\<dots> = map (internal_array N0) [0..<nat (psize N)] @
        map (\<lambda>j. internal_array S (0 + j)) [0..<k]"
      unfolding aN_def by (rule map_copy_from_append)
    also have "map (\<lambda>j. internal_array S (0 + j)) [0..<k] = take k (internal_entries S)"
      using kS by (simp add: internal_entries_def map_take_upt[of k "nat (psize S)"])
    finally show ?thesis by (simp add: internal_entries_def pN0)
  qed
  have eS: "internal_entries S' = drop k (internal_entries S)"
  proof -
    have "internal_entries S' = map aS [0..<nat (GetMinSize S)]"
      by (simp add: internal_entries_def szs) (simp add: S'_def IncreaseSize_def)
    also have "\<dots> = drop k (map (internal_array S) [0..<k + nat (GetMinSize S)])"
      unfolding aS_def kS(1) by (rule map_move_within_left)
    finally show ?thesis by (simp add: internal_entries_def kS(2))
  qed
  have k0: "Internal_KeyAt S' 0 = (if 0 < GetMinSize S then fst (internal_array S k)
      else fst (internal_array S 0))"
  proof (cases "0 < GetMinSize S")
    case True
    then have "aS 0 = internal_array S (k + 0)"
      unfolding aS_def kS(1) using move_within_left_in[of 0 k 0 "nat (GetMinSize S)" "internal_array S"]
      by simp
    then show ?thesis using True by (simp add: Internal_KeyAt_def S'_def IncreaseSize_def)
  next
    case False
    then have "nat (psize S) - k = 0" using kS by simp
    then have "aS = internal_array S" by (simp add: aS_def)
    then show ?thesis using False by (simp add: Internal_KeyAt_def S'_def IncreaseSize_def)
  qed
  show ?thesis
    using res g fr szs eN eS k0 unfolding k_def N0_def by blast
qed

lemma Internal_MoveMiddleTo_result:
  assumes N: "pages t nid = Some N" and S: "pages t sid = Some S" and ne: "nid \<noteq> sid"
    and sz: "GetMinSize S \<le> psize S" "0 \<le> GetMinSize S" "0 \<le> psize N"
    and ch: "\<forall>k<nat (psize S - GetMinSize S).
        pages t (snd (internal_array S (nat (GetMinSize S) + k))) \<noteq> None \<and>
        snd (internal_array S (nat (GetMinSize S) + k)) \<noteq> nid \<and>
        snd (internal_array S (nat (GetMinSize S) + k)) \<noteq> sid"
  shows "\<exists>t' N' S'. Internal_MoveMiddleTo sid nid middle t = Inr t' \<and>
      pages t' nid = Some N' \<and> pages t' sid = Some S' \<and>
      (\<forall>x. x \<noteq> nid \<and> x \<noteq> sid \<and>
           (\<forall>k<nat (psize S - GetMinSize S).
               x \<noteq> snd (internal_array S (nat (GetMinSize S) + k))) \<longrightarrow>
           pages t' x = pages t x) \<and>
      psize N' = psize N + (psize S - GetMinSize S) \<and> psize S' = GetMinSize S \<and>
      GetMinSize S' = GetMinSize S \<and>
      internal_entries S' = take (nat (GetMinSize S)) (internal_entries S) \<and>
      take (nat (psize S - GetMinSize S)) (internal_entries N') =
        drop (nat (GetMinSize S)) (internal_entries S)"
proof -
  define k where "k = nat (psize S - GetMinSize S)"
  define m where "m = nat (GetMinSize S)"
  define N0 where "N0 = SetKeyAt 0 middle N"
  define t1 where "t1 = put_page nid N0 t"
  define a1 where "a1 = move_within (internal_array N0) 0 (nat (psize N)) k"
  define aN where "aN = copy_from (internal_array S) m k a1 0"
  define N' where "N' = IncreaseSize (psize S - GetMinSize S) (N0\<lparr>internal_array := aN\<rparr>)"
  define S' where "S' = IncreaseSize (GetMinSize S - psize S) S"
  have km: "m + k = nat (psize S)" using sz by (simp add: k_def m_def)
  have pN0: "psize N0 = psize N" by (simp add: N0_def SetKeyAt_def)
  have f1: "pages t1 nid = Some N0" "pages t1 sid = Some S"
    using S ne by (simp_all add: t1_def put_page_def)
  have "\<forall>j<k. pages t1 (snd (internal_array S (m + j))) \<noteq> None"
    using ch by (simp add: t1_def put_page_def k_def m_def)
  from reparent_result[OF this, of "page_id N"] obtain t2 where
    rp: "reparent (internal_array S) m k (page_id N) t1 = Inr t2"
    and rfr: "\<forall>x. (\<forall>j<k. x \<noteq> snd (internal_array S (m + j))) \<longrightarrow> pages t2 x = pages t1 x"
    by blast
  have "\<forall>j<k. nid \<noteq> snd (internal_array S (m + j))"
    using ch unfolding k_def m_def by metis
  then have "pages t2 nid = pages t1 nid" using rfr[THEN spec, of nid] by simp
  moreover have "\<forall>j<k. sid \<noteq> snd (internal_array S (m + j))"
    using ch unfolding k_def m_def by metis
  then have "pages t2 sid = pages t1 sid" using rfr[THEN spec, of sid] by simp
  ultimately have f2: "pages t2 nid = Some N0" "pages t2 sid = Some S"
    using f1 by simp_all
  let ?t3 = "put_page sid S' t2"
  let ?t' = "put_page nid N' ?t3"
  have f3: "pages ?t3 nid = Some N0" using f2 ne by (simp add: put_page_def)
  have res: "Internal_MoveMiddleTo sid nid middle t = Inr ?t'"
    using N f1 rp f2 f3 sz pN0
    by (simp add: Internal_MoveMiddleTo_def FetchPage_def Let_def N0_def[symmetric]
        t1_def[symmetric] k_def[symmetric] m_def[symmetric] S'_def[symmetric]
        a1_def[symmetric] aN_def[symmetric] N'_def[symmetric])
  have g: "pages ?t' nid = Some N'" "pages ?t' sid = Some S'"
    using ne by (simp_all add: put_page_def)
  have fr: "\<forall>x. x \<noteq> nid \<and> x \<noteq> sid \<and> (\<forall>j<k. x \<noteq> snd (internal_array S (m + j))) \<longrightarrow>
      pages ?t' x = pages t x"
    using rfr by (simp add: put_page_def t1_def)
  have szs: "psize N' = psize N + (psize S - GetMinSize S)" "psize S' = GetMinSize S"
    "GetMinSize S' = GetMinSize S"
    by (simp_all add: N'_def S'_def IncreaseSize_def GetMinSize_def IsLeafPage_def pN0)
  have lenN: "nat (psize N') = k + nat (psize N)"
    using sz by (simp add: szs k_def nat_add_distrib)
  have eS: "internal_entries S' = take m (internal_entries S)"
    using km by (simp add: internal_entries_def S'_def IncreaseSize_def take_map m_def min_def)
  have eN: "take k (internal_entries N') = drop m (internal_entries S)"
  proof -
    have "take k (internal_entries N') = map aN [0..<0 + k]"
      by (simp add: internal_entries_def lenN take_map) (simp add: N'_def IncreaseSize_def)
    also have "\<dots> = map a1 [0..<0] @ map (\<lambda>j. internal_array S (m + j)) [0..<k]"
      unfolding aN_def by (rule map_copy_from_append)
    also have "\<dots> = drop m (map (internal_array S) [0..<m + k])"
      by (simp add: map_shift_drop)
    finally show ?thesis by (simp add: internal_entries_def km)
  qed
  show ?thesis
    using res g fr szs eS eN unfolding k_def m_def by blast
qed

lemma Redistribute_internal_next_result:
  assumes N: "GetData t nid = Inr N" and S: "GetData t sid = Inr S" and P: "GetData t pid = Inr P"
    and dist: "nid \<noteq> sid" "nid \<noteq> pid" "sid \<noteq> pid"
    and sz: "GetMinSize S \<le> psize S" "0 \<le> GetMinSize S" "0 \<le> psize N"
    and ch: "\<forall>k<nat (psize S - GetMinSize S).
        pages t (snd (internal_array S k)) \<noteq> None \<and>
        snd (internal_array S k) \<noteq> nid \<and> snd (internal_array S k) \<noteq> sid \<and>
        snd (internal_array S k) \<noteq> pid"
  shows "\<exists>t' N' S' P'. Redistribute_internal_next sid nid pid i t = Inr t' \<and>
      GetData t' nid = Inr N' \<and> GetData t' sid = Inr S' \<and> GetData t' pid = Inr P' \<and>
      psize N' = psize N + (psize S - GetMinSize S) \<and> psize S' = GetMinSize S \<and>
      internal_entries N' =
        internal_entries (SetKeyAt 0 (Internal_KeyAt P i) N) @
        take (nat (psize S - GetMinSize S)) (internal_entries S) \<and>
      internal_entries S' = drop (nat (psize S - GetMinSize S)) (internal_entries S) \<and>
      Internal_KeyAt P' i = Internal_KeyAt S' 0"
proof -
  have pN: "pages t nid = Some N" and pS: "pages t sid = Some S" and pP: "pages t pid = Some P"
    using N S P by (simp_all add: GetData_Inr_iff)
  have ch': "\<forall>k<nat (psize S - GetMinSize S).
        pages t (snd (internal_array S k)) \<noteq> None \<and>
        snd (internal_array S k) \<noteq> nid \<and> snd (internal_array S k) \<noteq> sid"
    using ch by blast
  from Internal_MoveAheadTo_result[OF pN pS dist(1) sz ch', of "Internal_KeyAt P i"]
  obtain t1 N' S' where
    mv: "Internal_MoveAheadTo sid nid (Internal_KeyAt P i) t = Inr t1"
    and g: "pages t1 nid = Some N'" "pages t1 sid = Some S'"
    and fr: "\<forall>x. x \<noteq> nid \<and> x \<noteq> sid \<and>
           (\<forall>k<nat (psize S - GetMinSize S). x \<noteq> snd (internal_array S k)) \<longrightarrow>
           pages t1 x = pages t x"
    and r: "psize N' = psize N + (psize S - GetMinSize S)" "psize S' = GetMinSize S"
      "internal_entries N' =
        internal_entries (SetKeyAt 0 (Internal_KeyAt P i) N) @
        take (nat (psize S - GetMinSize S)) (internal_entries S)"
      "internal_entries S' = drop (nat (psize S - GetMinSize S)) (internal_entries S)"
    by blast
  have "\<forall>k<nat (psize S - GetMinSize S). pid \<noteq> snd (internal_array S k)"
    using ch by metis
  then have "pages t1 pid = pages t pid" using fr[THEN spec, of pid] dist by simp
  then have gP: "pages t1 pid = Some P" using pP by simp
  let ?P = "SetKeyAt i (Internal_KeyAt S' 0) P"
  let ?t = "put_page pid ?P t1"
  have "Redistribute_internal_next sid nid pid i t = Inr ?t"
    using P mv g gP
    by (simp add: Redistribute_internal_next_def GetData_def FetchPage_def)
  moreover have "GetData ?t nid = Inr N'" "GetData ?t sid = Inr S'" "GetData ?t pid = Inr ?P"
    using dist g by (simp_all add: GetData_put_page GetData_Inr_iff)
  moreover have "Internal_KeyAt ?P i = Internal_KeyAt S' 0"
    by (rule Internal_KeyAt_SetKeyAt)
  ultimately show ?thesis using r by blast
qed

lemma Redistribute_internal_prev_result:
  assumes N: "GetData t nid = Inr N" and S: "GetData t sid = Inr S" and P: "GetData t pid = Inr P"
    and dist: "nid \<noteq> sid" "nid \<noteq> pid" "sid \<noteq> pid"
    and sz: "GetMinSize S \<le> psize S" "0 \<le> GetMinSize S" "0 \<le> psize N"
    and ch: "\<forall>k<nat (psize S - GetMinSize S).
        pages t (snd (internal_array S (nat (GetMinSize S) + k))) \<noteq> None \<and>
        snd (internal_array S (nat (GetMinSize S) + k)) \<noteq> nid \<and>
        snd (internal_array S (nat (GetMinSize S) + k)) \<noteq> sid \<and>
        snd (internal_array S (nat (GetMinSize S) + k)) \<noteq> pid"
  shows "\<exists>t' N' S' P'. Redistribute_internal_prev sid nid pid i t = Inr t' \<and>
      GetData t' nid = Inr N' \<and> GetData t' sid = Inr S' \<and> GetData t' pid = Inr P' \<and>
      psize N' = psize N + (psize S - GetMinSize S) \<and> psize S' = GetMinSize S \<and>
      GetMinSize S' = GetMinSize S \<and>
      internal_entries S' = take (nat (GetMinSize S)) (internal_entries S) \<and>
      take (nat (psize S - GetMinSize S)) (internal_entries N') =
        drop (nat (GetMinSize S)) (internal_entries S) \<and>
      Internal_KeyAt P' i = Internal_KeyAt N' 0"
proof -
  have pN: "pages t nid = Some N" and pS: "pages t sid = Some S" and pP: "pages t pid = Some P"
    using N S P by (simp_all add: GetData_Inr_iff)
  have ch': "\<forall>k<nat (psize S - GetMinSize S).
        pages t (snd (internal_array S (nat (GetMinSize S) + k))) \<noteq> None \<and>
        snd (internal_array S (nat (GetMinSize S) + k)) \<noteq> nid \<and>
        snd (internal_array S (nat (GetMinSize S) + k)) \<noteq> sid"
    using ch by blast
  from Internal_MoveMiddleTo_result[OF pN pS dist(1) sz ch', of "Internal_KeyAt P i"]
  obtain t1 N' S' where
    mv: "Internal_MoveMiddleTo sid nid (Internal_KeyAt P i) t = Inr t1"
    and g: "pages t1 nid = Some N'" "pages t1 sid = Some S'"
    and fr: "\<forall>x. x \<noteq> nid \<and> x \<noteq> sid \<and>
           (\<forall>k<nat (psize S - GetMinSize S).
              x \<noteq> snd (internal_array S (nat (GetMinSize S) + k))) \<longrightarrow>
           pages t1 x = pages t x"
    and r: "psize N' = psize N + (psize S - GetMinSize S)" "psize S' = GetMinSize S"
      "GetMinSize S' = GetMinSize S"
      "internal_entries S' = take (nat (GetMinSize S)) (internal_entries S)"
      "take (nat (psize S - GetMinSize S)) (internal_entries N') =
        drop (nat (GetMinSize S)) (internal_entries S)"
    by blast
  have "\<forall>k<nat (psize S - GetMinSize S). pid \<noteq> snd (internal_array S (nat (GetMinSize S) + k))"
    using ch by metis
  then have "pages t1 pid = pages t pid" using fr[THEN spec, of pid] dist by simp
  then have gP: "pages t1 pid = Some P" using pP by simp
  let ?P = "SetKeyAt i (Internal_KeyAt N' 0) P"
  let ?t = "put_page pid ?P t1"
  have "Redistribute_internal_prev sid nid pid i t = Inr ?t"
    using P mv g gP
    by (simp add: Redistribute_internal_prev_def GetData_def FetchPage_def)
  moreover have "GetData ?t nid = Inr N'" "GetData ?t sid = Inr S'" "GetData ?t pid = Inr ?P"
    using dist g by (simp_all add: GetData_put_page GetData_Inr_iff)
  moreover have "Internal_KeyAt ?P i = Internal_KeyAt N' 0"
    by (rule Internal_KeyAt_SetKeyAt)
  ultimately show ?thesis using r by blast
qed

lemma SetKeyAt_same: "SetKeyAt j (Internal_KeyAt p j) p = p"
  by (simp add: SetKeyAt_def Internal_KeyAt_def)

lemma Redistribute_internal:
  assumes N: "GetData t nid = Inr N" and S: "GetData t sid = Inr S" and P: "GetData t pid = Inr P"
    and dist: "nid \<noteq> sid" "nid \<noteq> pid" "sid \<noteq> pid"
    and leaf: "\<not> IsLeafPage N"
    and idx: "0 \<le> index"
    and sz: "GetMinSize S \<le> psize S" "0 \<le> GetMinSize S" "0 \<le> psize N"
    and ch: "\<forall>k<nat (psize S - GetMinSize S).
        pages t (ValueAt S ((if from_prev then nat (GetMinSize S) else 0) + k)) \<noteq> None \<and>
        ValueAt S ((if from_prev then nat (GetMinSize S) else 0) + k) \<noteq> nid \<and>
        ValueAt S ((if from_prev then nat (GetMinSize S) else 0) + k) \<noteq> sid \<and>
        ValueAt S ((if from_prev then nat (GetMinSize S) else 0) + k) \<noteq> pid"
  shows "\<exists>t' N' S' P'. Redistribute sid nid pid index from_prev t = Inr t' \<and>
      GetData t' nid = Inr N' \<and> GetData t' sid = Inr S' \<and> GetData t' pid = Inr P' \<and>
      psize N' = psize N + (psize S - GetMinSize S) \<and> psize S' = GetMinSize S \<and>
      (if from_prev
       then internal_entries S' = take (nat (GetMinSize S)) (internal_entries S) \<and>
            take (nat (psize S - GetMinSize S)) (internal_entries N') =
              drop (nat (GetMinSize S)) (internal_entries S)
       else internal_entries S' = drop (nat (psize S - GetMinSize S)) (internal_entries S) \<and>
            internal_entries N' =
              internal_entries (SetKeyAt 0 (Internal_KeyAt P (nat index)) N) @
              take (nat (psize S - GetMinSize S)) (internal_entries S) \<and>
            Internal_KeyAt P' (nat index) = Internal_KeyAt S' 0)"
proof (cases from_prev)
  case False
  have ch': "\<forall>k<nat (psize S - GetMinSize S).
        pages t (snd (internal_array S k)) \<noteq> None \<and>
        snd (internal_array S k) \<noteq> nid \<and> snd (internal_array S k) \<noteq> sid \<and>
        snd (internal_array S k) \<noteq> pid"
    using ch False by (simp add: ValueAt_def)
  from Redistribute_internal_next_result[OF N S P dist sz ch', of "nat index"]
  obtain t' N' S' P' where
    r: "Redistribute_internal_next sid nid pid (nat index) t = Inr t'"
      "GetData t' nid = Inr N'" "GetData t' sid = Inr S'" "GetData t' pid = Inr P'"
      "psize N' = psize N + (psize S - GetMinSize S)" "psize S' = GetMinSize S"
      "internal_entries N' =
        internal_entries (SetKeyAt 0 (Internal_KeyAt P (nat index)) N) @
        take (nat (psize S - GetMinSize S)) (internal_entries S)"
      "internal_entries S' = drop (nat (psize S - GetMinSize S)) (internal_entries S)"
      "Internal_KeyAt P' (nat index) = Internal_KeyAt S' 0"
    by blast
  have "Redistribute sid nid pid index from_prev t = Inr t'"
    using False N leaf idx r(1) by (simp add: Redistribute_def)
  then show ?thesis using False r(2-) by auto
next
  case True
  have ch': "\<forall>k<nat (psize S - GetMinSize S).
        pages t (snd (internal_array S (nat (GetMinSize S) + k))) \<noteq> None \<and>
        snd (internal_array S (nat (GetMinSize S) + k)) \<noteq> nid \<and>
        snd (internal_array S (nat (GetMinSize S) + k)) \<noteq> sid \<and>
        snd (internal_array S (nat (GetMinSize S) + k)) \<noteq> pid"
    using ch True by (simp add: ValueAt_def)
  from Redistribute_internal_prev_result[OF N S P dist sz ch', of "nat index"]
  obtain t1 N1 S1 P1 where
    r: "Redistribute_internal_prev sid nid pid (nat index) t = Inr t1"
      "GetData t1 nid = Inr N1" "GetData t1 sid = Inr S1" "GetData t1 pid = Inr P1"
      "psize N1 = psize N + (psize S - GetMinSize S)" "psize S1 = GetMinSize S"
      "GetMinSize S1 = GetMinSize S"
      "internal_entries S1 = take (nat (GetMinSize S)) (internal_entries S)"
      "take (nat (psize S - GetMinSize S)) (internal_entries N1) =
        drop (nat (GetMinSize S)) (internal_entries S)"
      "Internal_KeyAt P1 (nat index) = Internal_KeyAt N1 0"
    by blast
  have sz1: "GetMinSize S1 \<le> psize S1" "0 \<le> GetMinSize S1" "0 \<le> psize N1"
    using r(5,6,7) sz by simp_all
  have ch1: "\<forall>k<nat (psize S1 - GetMinSize S1).
        pages t1 (snd (internal_array S1 k)) \<noteq> None \<and>
        snd (internal_array S1 k) \<noteq> nid \<and> snd (internal_array S1 k) \<noteq> sid \<and>
        snd (internal_array S1 k) \<noteq> pid"
    using r(6,7) by simp
  from Redistribute_internal_next_result[OF r(2,3,4) dist sz1 ch1, of "nat index"]
  obtain t' N' S' P' where
    q: "Redistribute_internal_next sid nid pid (nat index) t1 = Inr t'"
      "GetData t' nid = Inr N'" "GetData t' sid = Inr S'" "GetData t' pid = Inr P'"
      "psize N' = psize N1 + (psize S1 - GetMinSize S1)" "psize S' = GetMinSize S1"
      "internal_entries N' =
        internal_entries (SetKeyAt 0 (Internal_KeyAt P1 (nat index)) N1) @
        take (nat (psize S1 - GetMinSize S1)) (internal_entries S1)"
      "internal_entries S' = drop (nat (psize S1 - GetMinSize S1)) (internal_entries S1)"
    by blast
  have e: "internal_entries N' = internal_entries N1" "internal_entries S' = internal_entries S1"
    using q(7,8) r(6,7,10) by (simp_all add: SetKeyAt_same)
  have "Redistribute sid nid pid index from_prev t = Inr t'"
    using True N leaf idx r(1) q(1) by (simp add: Redistribute_def)
  moreover have "psize N' = psize N + (psize S - GetMinSize S)" "psize S' = GetMinSize S"
    using q(5,6) r(5,6,7) by simp_all
  ultimately show ?thesis using True q(2,3,4) e r(8,9) by auto
qed

text \<open>
  Claim C1, amended. \<open>Redistribute\<close> moves the surplus of the sibling \<open>S\<close> over its
  minimum size, \<open>size(S) - min_size(S)\<close> entries (not exactly one), into the node \<open>N\<close>:
  the last entries of \<open>S\<close> to the front of \<open>N\<close> when \<open>S\<close> is the left neighbour
  (\<open>from_prev\<close>), the first entries of \<open>S\<close> to the end of \<open>N\<close> when it is the right
  neighbour. After the call \<open>N\<close> has gained \<open>size(S) - min_size(S)\<close> entries and \<open>S\<close>
  holds \<open>min_size(S)\<close>; in the right case the key of the parent at \<open>index\<close> is the new
  slot-0 key of the right sibling. The pages \<open>N\<close>, \<open>S\<close> and the parent are three pages of
  the pool; for internal pages the moved children are pages of the pool other than these
  three. (In the right case of internal pages the key of slot 0 of \<open>N\<close> is first set to
  the key of the parent at \<open>index\<close>.)
\<close>

theorem Redistribute_moves_surplus:
  assumes N: "GetData t nid = Inr N" and S: "GetData t sid = Inr S" and P: "GetData t pid = Inr P"
    and dist: "nid \<noteq> sid" "nid \<noteq> pid" "sid \<noteq> pid"
    and idx: "0 \<le> index"
    and under: "0 \<le> psize N"
    and surplus: "0 \<le> GetMinSize S" "GetMinSize S < psize S"
    and ch: "\<not> IsLeafPage N \<Longrightarrow>
      \<forall>k<nat (psize S - GetMinSize S).
        pages t (ValueAt S ((if from_prev then nat (GetMinSize S) else 0) + k)) \<noteq> None \<and>
        ValueAt S ((if from_prev then nat (GetMinSize S) else 0) + k) \<noteq> nid \<and>
        ValueAt S ((if from_prev then nat (GetMinSize S) else 0) + k) \<noteq> sid \<and>
        ValueAt S ((if from_prev then nat (GetMinSize S) else 0) + k) \<noteq> pid"
  shows "\<exists>t' N' S' P'. Redistribute sid nid pid index from_prev t = Inr t' \<and>
      GetData t' nid = Inr N' \<and> GetData t' sid = Inr S' \<and> GetData t' pid = Inr P' \<and>
      psize N' = psize N + (psize S - GetMinSize S) \<and> psize S' = GetMinSize S \<and>
      (if IsLeafPage N
       then (if from_prev
             then leaf_entries S' = take (nat (GetMinSize S)) (leaf_entries S) \<and>
                  take (nat (psize S - GetMinSize S)) (leaf_entries N') =
                    drop (nat (GetMinSize S)) (leaf_entries S)
             else leaf_entries S' = drop (nat (psize S - GetMinSize S)) (leaf_entries S) \<and>
                  leaf_entries N' =
                    leaf_entries N @ take (nat (psize S - GetMinSize S)) (leaf_entries S) \<and>
                  Internal_KeyAt P' (nat index) = Leaf_KeyAt S' 0)
       else (if from_prev
             then internal_entries S' = take (nat (GetMinSize S)) (internal_entries S) \<and>
                  take (nat (psize S - GetMinSize S)) (internal_entries N') =
                    drop (nat (GetMinSize S)) (internal_entries S)
             else internal_entries S' =
                    drop (nat (psize S - GetMinSize S)) (internal_entries S) \<and>
                  internal_entries N' =
                    internal_entries (SetKeyAt 0 (Internal_KeyAt P (nat index)) N) @
                    take (nat (psize S - GetMinSize S)) (internal_entries S) \<and>
                  Internal_KeyAt P' (nat index) = Internal_KeyAt S' 0))"
proof (cases "IsLeafPage N")
  case True
  show ?thesis
    using Redistribute_leaf[OF N S P dist True idx, of from_prev] under surplus True
    by simp
next
  case False
  have sz: "GetMinSize S \<le> psize S" using surplus by simp
  show ?thesis
    using Redistribute_internal[OF N S P dist False idx sz surplus(1) under ch[OF False]] False
    by simp
qed

text \<open>
  Claim C1 at the leaf page 1 of \<open>bpt_redis\<close> with its right sibling, page 2 (two of the
  five entries move), and at the internal page 12 of \<open>bpt_redis_internal\<close> with its left
  sibling, page 11 (two of the four entries move).
\<close>

lemma map_nth_default:
  "map (\<lambda>i. if i < length es then es ! i else d) [0..<length es] = es"
  by (rule nth_equalityI) simp_all

lemma leaf_page_of_simps:
  "psize (leaf_page_of pid parent nxt maxsz es) = int (length es)"
  "IsLeafPage (leaf_page_of pid parent nxt maxsz es)"
  "GetMinSize (leaf_page_of pid parent nxt maxsz es) = maxsz div 2"
  "leaf_entries (leaf_page_of pid parent nxt maxsz es) = es"
  by (simp_all add: leaf_page_of_def IsLeafPage_def GetMinSize_def leaf_entries_def
      map_nth_default)

lemma internal_page_of_simps:
  "psize (internal_page_of pid parent maxsz es) = int (length es)"
  "\<not> IsLeafPage (internal_page_of pid parent maxsz es)"
  "GetMinSize (internal_page_of pid parent maxsz es) = (maxsz + 1) div 2"
  "internal_entries (internal_page_of pid parent maxsz es) = es"
  "k < length es \<Longrightarrow> ValueAt (internal_page_of pid parent maxsz es) k = snd (es ! k)"
  by (simp_all add: internal_page_of_def IsLeafPage_def GetMinSize_def internal_entries_def
      map_nth_default ValueAt_def)

theorem Redistribute_moves_surplus_witness:
  "(\<exists>t' N' S' P'. Redistribute 2 1 3 1 False bpt_redis = Inr t' \<and>
      GetData t' 1 = Inr N' \<and> GetData t' 2 = Inr S' \<and> GetData t' 3 = Inr P' \<and>
      psize N' = 4 \<and> psize S' = 3 \<and>
      leaf_entries S' = [(6, 60), (7, 70), (8, 80)] \<and>
      leaf_entries N' = [(2, 20), (3, 30), (4, 40), (5, 50)] \<and>
      Internal_KeyAt P' 1 = Leaf_KeyAt S' 0) \<and>
   (\<exists>t' N' S' P'. Redistribute 11 12 10 1 True bpt_redis_internal = Inr t' \<and>
      GetData t' 12 = Inr N' \<and> GetData t' 11 = Inr S' \<and> GetData t' 10 = Inr P' \<and>
      psize N' = 3 \<and> psize S' = 2 \<and>
      internal_entries S' = [(0, 1), (10, 2)] \<and>
      take 2 (internal_entries N') = [(20, 3), (30, 4)])"
proof
  let ?N = "leaf_page_of 1 3 2 6 [(2, 20), (3, 30)]"
  let ?S = "leaf_page_of 2 3 (- 1) 6 [(4, 40), (5, 50), (6, 60), (7, 70), (8, 80)]"
  let ?P = "internal_page_of 3 (- 1) 6 [(0, 1), (4, 2)]"
  have g: "GetData bpt_redis 1 = Inr ?N" "GetData bpt_redis 2 = Inr ?S"
    "GetData bpt_redis 3 = Inr ?P"
    by (simp_all add: GetData_def FetchPage_def bpt_redis_def)
  have "\<exists>t' N' S' P'. Redistribute 2 1 3 1 False bpt_redis = Inr t' \<and>
      GetData t' 1 = Inr N' \<and> GetData t' 2 = Inr S' \<and> GetData t' 3 = Inr P' \<and>
      psize N' = psize ?N + (psize ?S - GetMinSize ?S) \<and> psize S' = GetMinSize ?S \<and>
      (if IsLeafPage ?N
       then (if False
             then leaf_entries S' = take (nat (GetMinSize ?S)) (leaf_entries ?S) \<and>
                  take (nat (psize ?S - GetMinSize ?S)) (leaf_entries N') =
                    drop (nat (GetMinSize ?S)) (leaf_entries ?S)
             else leaf_entries S' = drop (nat (psize ?S - GetMinSize ?S)) (leaf_entries ?S) \<and>
                  leaf_entries N' =
                    leaf_entries ?N @ take (nat (psize ?S - GetMinSize ?S)) (leaf_entries ?S) \<and>
                  Internal_KeyAt P' (nat 1) = Leaf_KeyAt S' 0)
       else (if False
             then internal_entries S' = take (nat (GetMinSize ?S)) (internal_entries ?S) \<and>
                  take (nat (psize ?S - GetMinSize ?S)) (internal_entries N') =
                    drop (nat (GetMinSize ?S)) (internal_entries ?S)
             else internal_entries S' =
                    drop (nat (psize ?S - GetMinSize ?S)) (internal_entries ?S) \<and>
                  internal_entries N' =
                    internal_entries (SetKeyAt 0 (Internal_KeyAt ?P (nat 1)) ?N) @
                    take (nat (psize ?S - GetMinSize ?S)) (internal_entries ?S) \<and>
                  Internal_KeyAt P' (nat 1) = Internal_KeyAt S' 0))"
    by (rule Redistribute_moves_surplus[OF g]) (simp_all add: leaf_page_of_simps)
  then show "\<exists>t' N' S' P'. Redistribute 2 1 3 1 False bpt_redis = Inr t' \<and>
      GetData t' 1 = Inr N' \<and> GetData t' 2 = Inr S' \<and> GetData t' 3 = Inr P' \<and>
      psize N' = 4 \<and> psize S' = 3 \<and>
      leaf_entries S' = [(6, 60), (7, 70), (8, 80)] \<and>
      leaf_entries N' = [(2, 20), (3, 30), (4, 40), (5, 50)] \<and>
      Internal_KeyAt P' 1 = Leaf_KeyAt S' 0"
    by (simp add: leaf_page_of_simps numeral_2_eq_2)
next
  let ?N = "internal_page_of 12 10 4 [(0, 5)]"
  let ?S = "internal_page_of 11 10 4 [(0, 1), (10, 2), (20, 3), (30, 4)]"
  let ?P = "internal_page_of 10 (- 1) 4 [(0, 11), (50, 12)]"
  have g: "GetData bpt_redis_internal 12 = Inr ?N" "GetData bpt_redis_internal 11 = Inr ?S"
    "GetData bpt_redis_internal 10 = Inr ?P"
    by (simp_all add: GetData_def FetchPage_def bpt_redis_internal_def)
  have ch: "\<forall>k<nat (psize ?S - GetMinSize ?S).
        pages bpt_redis_internal (ValueAt ?S ((if True then nat (GetMinSize ?S) else 0) + k)) \<noteq> None \<and>
        ValueAt ?S ((if True then nat (GetMinSize ?S) else 0) + k) \<noteq> 12 \<and>
        ValueAt ?S ((if True then nat (GetMinSize ?S) else 0) + k) \<noteq> 11 \<and>
        ValueAt ?S ((if True then nat (GetMinSize ?S) else 0) + k) \<noteq> 10"
  proof (intro allI impI)
    fix k assume "k < nat (psize ?S - GetMinSize ?S)"
    then have "k = 0 \<or> k = 1" by (auto simp: internal_page_of_simps)
    then show "pages bpt_redis_internal (ValueAt ?S ((if True then nat (GetMinSize ?S) else 0) + k)) \<noteq> None \<and>
        ValueAt ?S ((if True then nat (GetMinSize ?S) else 0) + k) \<noteq> 12 \<and>
        ValueAt ?S ((if True then nat (GetMinSize ?S) else 0) + k) \<noteq> 11 \<and>
        ValueAt ?S ((if True then nat (GetMinSize ?S) else 0) + k) \<noteq> 10"
      by (auto simp: internal_page_of_simps bpt_redis_internal_def)
  qed
  have "\<exists>t' N' S' P'. Redistribute 11 12 10 1 True bpt_redis_internal = Inr t' \<and>
      GetData t' 12 = Inr N' \<and> GetData t' 11 = Inr S' \<and> GetData t' 10 = Inr P' \<and>
      psize N' = psize ?N + (psize ?S - GetMinSize ?S) \<and> psize S' = GetMinSize ?S \<and>
      (if IsLeafPage ?N
       then (if True
             then leaf_entries S' = take (nat (GetMinSize ?S)) (leaf_entries ?S) \<and>
                  take (nat (psize ?S - GetMinSize ?S)) (leaf_entries N') =
                    drop (nat (GetMinSize ?S)) (leaf_entries ?S)
             else leaf_entries S' = drop (nat (psize ?S - GetMinSize ?S)) (leaf_entries ?S) \<and>
                  leaf_entries N' =
                    leaf_entries ?N @ take (nat (psize ?S - GetMinSize ?S)) (leaf_entries ?S) \<and>
                  Internal_KeyAt P' (nat 1) = Leaf_KeyAt S' 0)
       else (if True
             then internal_entries S' = take (nat (GetMinSize ?S)) (internal_entries ?S) \<and>
                  take (nat (psize ?S - GetMinSize ?S)) (internal_entries N') =
                    drop (nat (GetMinSize ?S)) (internal_entries ?S)
             else internal_entries S' =
                    drop (nat (psize ?S - GetMinSize ?S)) (internal_entries ?S) \<and>
                  internal_entries N' =
                    internal_entries (SetKeyAt 0 (Internal_KeyAt ?P (nat 1)) ?N) @
                    take (nat (psize ?S - GetMinSize ?S)) (internal_entries ?S) \<and>
                  Internal_KeyAt P' (nat 1) = Internal_KeyAt S' 0))"
    by (rule Redistribute_moves_surplus[OF g _ _ _ _ _ _ _ ch])
       (simp_all add: internal_page_of_simps)
  then show "\<exists>t' N' S' P'. Redistribute 11 12 10 1 True bpt_redis_internal = Inr t' \<and>
      GetData t' 12 = Inr N' \<and> GetData t' 11 = Inr S' \<and> GetData t' 10 = Inr P' \<and>
      psize N' = 3 \<and> psize S' = 2 \<and>
      internal_entries S' = [(0, 1), (10, 2)] \<and>
      take 2 (internal_entries N') = [(20, 3), (30, 4)]"
    by (simp add: internal_page_of_simps numeral_2_eq_2)
qed

text \<open>
  Claim C1 as stated ("moves exactly one boundary entry") fails: the leaf page 1 of
  \<open>bpt_redis\<close> holds two entries, below the minimum size 3, its right sibling holds five,
  and \<open>Redistribute\<close> moves two entries: the node ends with four entries, the sibling
  with three.
\<close>

theorem Redistribute_moves_two_counterexample:
  "map_option psize (pages bpt_redis 1) = Some 2 \<and>
   map_option psize (pages bpt_redis 2) = Some 5 \<and>
   map_option GetMinSize (pages bpt_redis 2) = Some 3 \<and>
   (case Redistribute 2 1 3 1 False bpt_redis of
      Inl e \<Rightarrow> False
    | Inr t' \<Rightarrow>
        map_option leaf_entries (pages t' 1) = Some [(2, 20), (3, 30), (4, 40), (5, 50)] \<and>
        map_option leaf_entries (pages t' 2) = Some [(6, 60), (7, 70), (8, 80)] \<and>
        map_option psize (pages t' 1) \<noteq> Some (2 + 1) \<and>
        map_option psize (pages t' 2) \<noteq> Some (5 - 1))"
  by code_simp

text \<open>
  In the left case \<open>Redistribute\<close> has no \<open>else\<close> after \<open>if (from_prev)\<close>: the call of
  \<open>MoveAheadTo\<close> and the second \<open>SetKeyAt\<close> run as well, and the key of the parent at
  \<open>index\<close> ends as the slot-0 key of the left sibling (here 0), not as the new slot-0
  key of the node (here 20).
\<close>

lemma Redistribute_from_prev_parent_key:
  "(case Redistribute 11 12 10 1 True bpt_redis_internal of
      Inl e \<Rightarrow> False
    | Inr t' \<Rightarrow>
        map_option internal_entries (pages t' 11) = Some [(0, 1), (10, 2)] \<and>
        map_option internal_entries (pages t' 12) = Some [(20, 3), (30, 4), (50, 5)] \<and>
        map_option internal_entries (pages t' 10) = Some [(0, 11), (0, 12)] \<and>
        map_option parent_page_id (pages t' 3) = Some 12 \<and>
        map_option parent_page_id (pages t' 4) = Some 12)"
  by code_simp

subsection \<open>The split of a leaf and the insertion into the parent\<close>

lemma ValueIndex_loop_bounds:
  "0 \<le> i \<Longrightarrow> ValueIndex_loop a v sz i = - 1 \<or>
     (i \<le> ValueIndex_loop a v sz i \<and> ValueIndex_loop a v sz i < sz)"
proof (induction a v sz i rule: ValueIndex_loop.induct)
  case (1 a val sz i)
  show ?case
  proof (cases "i < sz")
    case False
    then show ?thesis by (simp add: ValueIndex_loop.simps[of a val sz i])
  next
    case True
    show ?thesis
    proof (cases "val \<noteq> snd (a (nat i))")
      case False
      with True have "ValueIndex_loop a val sz i = i"
        by (subst ValueIndex_loop.simps) simp
      with True show ?thesis by simp
    next
      case ne: True
      have "0 \<le> i + 1" using 1(2) by simp
      from 1(1)[OF True ne this] True ne show ?thesis
        by (auto simp: ValueIndex_loop.simps[of a val sz i])
    qed
  qed
qed

lemma ValueIndex_bounds: "- 1 \<le> ValueIndex p v \<and> (0 \<le> psize p \<longrightarrow> ValueIndex p v < psize p)"
  using ValueIndex_loop_bounds[of 0 "internal_array p" v "psize p"]
  by (auto simp: ValueIndex_def)

lemma internal_entries_nth: "i < nat (psize p) \<Longrightarrow> internal_entries p ! i = internal_array p i"
  by (simp add: internal_entries_def)

lemma InsertNodeAfter_entries:
  assumes sz: "0 \<le> psize P"
  shows "\<exists>P'. InsertNodeAfter old k v P = Inr (psize P + 1, P') \<and>
      P' = P\<lparr>internal_array := internal_array P', psize := psize P + 1\<rparr> \<and>
      internal_entries P' =
        take (nat (ValueIndex P old + 1)) (internal_entries P) @ [(k, v)] @
        drop (nat (ValueIndex P old + 1)) (internal_entries P)"
proof -
  define idx where "idx = nat (ValueIndex P old + 1)"
  define n where "n = nat (psize P)"
  have b: "0 \<le> ValueIndex P old + 1" "ValueIndex P old + 1 \<le> psize P"
    using ValueIndex_bounds[of P old] sz by auto
  then have idx: "idx \<le> n" by (simp add: idx_def n_def)
  define a where "a = move_backward_within (internal_array P) idx (n - idx) (n + 1)"
  define P' where "P' = P\<lparr>internal_array := a(idx := (k, v)), psize := psize P + 1\<rparr>"
  have res: "InsertNodeAfter old k v P = Inr (psize P + 1, P')"
    using b by (simp add: InsertNodeAfter_def Let_def P'_def a_def idx_def n_def)
  have lo: "a j = internal_array P j" if "j \<le> idx" for j
    unfolding a_def using that idx by (intro move_backward_within_out) auto
  have hi: "a j = internal_array P (j - 1)" if "idx < j" "j \<le> n" for j
  proof -
    have "move_backward_within (internal_array P) idx (n - idx) (n + 1)
        ((n + 1) - (n - idx) + (j - idx - 1)) = internal_array P (idx + (j - idx - 1))"
      using that idx by (intro move_backward_within_in) auto
    moreover have "(n + 1) - (n - idx) + (j - idx - 1) = j" "idx + (j - idx - 1) = j - 1"
      using that idx by auto
    ultimately show ?thesis by (simp add: a_def)
  qed
  have len: "nat (psize P') = n + 1" using sz by (simp add: P'_def n_def nat_add_distrib)
  have "internal_entries P' =
      take idx (internal_entries P) @ [(k, v)] @ drop idx (internal_entries P)"
  proof (rule nth_equalityI)
    show "length (internal_entries P') =
        length (take idx (internal_entries P) @ [(k, v)] @ drop idx (internal_entries P))"
      using idx by (simp add: internal_entries_def len) (simp add: n_def)
  next
    fix j assume "j < length (internal_entries P')"
    then have j: "j < n + 1" by (simp add: internal_entries_def len)
    have lhs: "internal_entries P' ! j = (a(idx := (k, v))) j"
      using j len by (simp add: internal_entries_nth) (simp add: P'_def)
    consider "j < idx" | "j = idx" | "idx < j" by linarith
    then show "internal_entries P' ! j =
        (take idx (internal_entries P) @ [(k, v)] @ drop idx (internal_entries P)) ! j"
    proof cases
      case 1
      then show ?thesis unfolding lhs using idx lo[of j]
        by (simp add: nth_append internal_entries_nth n_def[symmetric])
    next
      case 2
      then show ?thesis unfolding lhs using idx
        by (simp add: nth_append n_def[symmetric])
    next
      case 3
      then have "j - 1 < n" "idx + (j - Suc idx) = j - 1" "j \<le> n" using j by simp_all
      with 3 show ?thesis unfolding lhs using idx hi[of j]
        by (simp add: nth_append internal_entries_nth nth_Cons' n_def[symmetric])
    qed
  qed
  moreover have "P' = P\<lparr>internal_array := internal_array P', psize := psize P + 1\<rparr>"
    by (simp add: P'_def)
  ultimately show ?thesis using res unfolding idx_def by blast
qed

lemma reparent_pages:
  assumes "\<forall>k<n. pages t (snd (a (i + k))) \<noteq> None"
  shows "\<exists>t'. reparent a i n parent_id t = Inr t' \<and> t' = t\<lparr>pages := pages t'\<rparr> \<and>
      (\<forall>x. pages t' x =
         (if \<exists>k<n. x = snd (a (i + k))
          then map_option (\<lambda>c. c\<lparr>parent_page_id := parent_id\<rparr>) (pages t x)
          else pages t x))"
  using assms
proof (induction n arbitrary: i t)
  case 0
  then show ?case by simp
next
  case (Suc n)
  from Suc.prems have "pages t (snd (a (i + 0))) \<noteq> None" by blast
  then obtain child where child: "pages t (snd (a i)) = Some child" by auto
  let ?t1 = "put_page (snd (a i)) (child\<lparr>parent_page_id := parent_id\<rparr>) t"
  have "\<forall>k<n. pages ?t1 (snd (a (Suc i + k))) \<noteq> None"
  proof (intro allI impI)
    fix k assume "k < n"
    then have "pages t (snd (a (i + Suc k))) \<noteq> None" using Suc.prems by (metis Suc_less_eq)
    then show "pages ?t1 (snd (a (Suc i + k))) \<noteq> None" by (simp add: put_page_def)
  qed
  from Suc.IH[OF this] obtain t' where
    r: "reparent a (Suc i) n parent_id ?t1 = Inr t'"
    and fl: "t' = ?t1\<lparr>pages := pages t'\<rparr>"
    and fr: "\<forall>x. pages t' x =
         (if \<exists>k<n. x = snd (a (Suc i + k))
          then map_option (\<lambda>c. c\<lparr>parent_page_id := parent_id\<rparr>) (pages ?t1 x)
          else pages ?t1 x)" by blast
  have res: "reparent a i (Suc n) parent_id t = Inr t'"
    using child r by (simp add: FetchPage_def)
  have ex: "(\<exists>k<Suc n. x = snd (a (i + k))) \<longleftrightarrow> x = snd (a i) \<or> (\<exists>k<n. x = snd (a (Suc i + k)))"
    for x
  proof
    assume "\<exists>k<Suc n. x = snd (a (i + k))"
    then obtain k where k: "k < Suc n" "x = snd (a (i + k))" by blast
    show "x = snd (a i) \<or> (\<exists>k<n. x = snd (a (Suc i + k)))"
    proof (cases k)
      case 0
      with k show ?thesis by simp
    next
      case (Suc k')
      with k have "k' < n" "x = snd (a (Suc i + k'))" by simp_all
      then show ?thesis by blast
    qed
  next
    assume "x = snd (a i) \<or> (\<exists>k<n. x = snd (a (Suc i + k)))"
    then show "\<exists>k<Suc n. x = snd (a (i + k))"
    proof
      assume "x = snd (a i)"
      then have "0 < Suc n \<and> x = snd (a (i + 0))" by simp
      then show ?thesis by blast
    next
      assume "\<exists>k<n. x = snd (a (Suc i + k))"
      then obtain k where "k < n" "x = snd (a (Suc i + k))" by blast
      then have "Suc k < Suc n \<and> x = snd (a (i + Suc k))" by simp
      then show ?thesis by blast
    qed
  qed
  have "pages t' x =
         (if \<exists>k<Suc n. x = snd (a (i + k))
          then map_option (\<lambda>c. c\<lparr>parent_page_id := parent_id\<rparr>) (pages t x)
          else pages t x)" for x
  proof (cases "x = snd (a i)")
    case True
    then have p1: "pages ?t1 x = Some (child\<lparr>parent_page_id := parent_id\<rparr>)"
      "pages t x = Some child"
      using child by (simp_all add: put_page_def)
    from True have e: "\<exists>k<Suc n. x = snd (a (i + k))" using ex[of x] by simp
    show ?thesis
      unfolding fr[THEN spec, of x] p1 using e by simp
  next
    case False
    then have p1: "pages ?t1 x = pages t x" by (simp add: put_page_def)
    from False have e: "(\<exists>k<Suc n. x = snd (a (i + k))) = (\<exists>k<n. x = snd (a (Suc i + k)))"
      using ex[of x] by simp
    show ?thesis
      unfolding fr[THEN spec, of x] p1 e by (rule refl)
  qed
  moreover have "t' = t\<lparr>pages := pages t'\<rparr>"
    by (subst fl) (simp add: put_page_def)
  ultimately show ?case using res by blast
qed

lemma Internal_CopyNFrom_pages:
  assumes r: "pages t rid = Some r" and n: "0 \<le> n" and sz: "0 \<le> psize r"
    and ch: "\<forall>k<nat n. pages t (snd (items (s + k))) \<noteq> None \<and> snd (items (s + k)) \<noteq> rid"
  shows "\<exists>t'. Internal_CopyNFrom items s n rid t = Inr t' \<and>
      t' = t\<lparr>pages := pages t'\<rparr> \<and>
      (\<forall>x. pages t' x =
         (if x = rid
          then Some (r\<lparr>internal_array :=
                 copy_from items s (nat n) (internal_array r) (nat (psize r)),
                 psize := psize r + n\<rparr>)
          else if \<exists>k<nat n. x = snd (items (s + k))
               then map_option (\<lambda>c. c\<lparr>parent_page_id := page_id r\<rparr>) (pages t x)
               else pages t x))"
proof -
  define a where "a = copy_from items s (nat n) (internal_array r) (nat (psize r))"
  define r1 where "r1 = r\<lparr>internal_array := a\<rparr>"
  define t0 where "t0 = put_page rid r1 t"
  have ak: "a (nat (psize r) + k) = items (s + k)" if "k < nat n" for k
    unfolding a_def using that by (rule copy_from_in)
  have exk: "(\<exists>k<nat n. x = snd (a (nat (psize r) + k))) = (\<exists>k<nat n. x = snd (items (s + k)))"
    for x using ak by auto
  have "\<forall>k<nat n. pages t0 (snd (a (nat (psize r) + k))) \<noteq> None"
    using ch ak by (simp add: t0_def put_page_def)
  from reparent_pages[OF this, of "page_id r1"] obtain t1 where
    rp: "reparent a (nat (psize r)) (nat n) (page_id r1) t0 = Inr t1"
    and fl: "t1 = t0\<lparr>pages := pages t1\<rparr>"
    and fr: "\<forall>x. pages t1 x =
         (if \<exists>k<nat n. x = snd (a (nat (psize r) + k))
          then map_option (\<lambda>c. c\<lparr>parent_page_id := page_id r1\<rparr>) (pages t0 x)
          else pages t0 x)"
    by blast
  have nr: "\<not> (\<exists>k<nat n. rid = snd (items (s + k)))" using ch by metis
  have "pages t1 rid = pages t0 rid"
    unfolding fr[THEN spec, of rid] exk by (rule if_not_P[OF nr])
  then have r2: "pages t1 rid = Some r1" by (simp add: t0_def put_page_def)
  have ia: "internal_array r1 = a" by (simp add: r1_def)
  let ?t' = "put_page rid (IncreaseSize n r1) t1"
  have res: "Internal_CopyNFrom items s n rid t = Inr ?t'"
    using r n sz rp r2
    by (simp add: Internal_CopyNFrom_def FetchPage_def Let_def a_def[symmetric] r1_def[symmetric]
        t0_def[symmetric] ia)
  have inc: "IncreaseSize n r1 = r\<lparr>internal_array := a, psize := psize r + n\<rparr>"
    by (simp add: IncreaseSize_def r1_def)
  have pg: "pages ?t' x =
         (if x = rid then Some (r\<lparr>internal_array := a, psize := psize r + n\<rparr>)
          else if \<exists>k<nat n. x = snd (items (s + k))
               then map_option (\<lambda>c. c\<lparr>parent_page_id := page_id r\<rparr>) (pages t x)
               else pages t x)" for x
  proof (cases "x = rid")
    case True
    then show ?thesis by (simp add: put_page_def inc)
  next
    case False
    have "pages ?t' x = pages t1 x" using False by (simp add: put_page_def)
    also have "\<dots> = (if \<exists>k<nat n. x = snd (items (s + k))
          then map_option (\<lambda>c. c\<lparr>parent_page_id := page_id r1\<rparr>) (pages t0 x)
          else pages t0 x)"
      unfolding fr[THEN spec, of x] exk by (rule refl)
    also have "pages t0 x = pages t x" using False by (simp add: t0_def put_page_def)
    finally show ?thesis using False by (auto simp: r1_def)
  qed
  have "?t' = t\<lparr>pages := pages ?t'\<rparr>"
    by (subst fl) (simp add: put_page_def t0_def)
  then show ?thesis using res pg unfolding a_def by blast
qed

lemma SplitInternal_result:
  fixes t :: "('k::zero, 'v::zero) BPlusTree"
  assumes m: "0 \<le> GetMinSize node" "GetMinSize node \<le> psize node"
    and ch: "\<forall>k<nat (psize node - GetMinSize node).
        pages t (snd (internal_array node (nat (GetMinSize node) + k))) \<noteq> None \<and>
        snd (internal_array node (nat (GetMinSize node) + k)) \<noteq> next_free_page t"
  shows "\<exists>S t'. SplitInternal node t =
        Inr (node\<lparr>psize := GetMinSize node\<rparr>, next_free_page t, t') \<and>
      t' = t\<lparr>pages := pages t', next_free_page := next_free_page t + 1\<rparr> \<and>
      internal_entries S = drop (nat (GetMinSize node)) (internal_entries node) \<and>
      page_id S = next_free_page t \<and> parent_page_id S = parent_page_id node \<and>
      psize S = psize node - GetMinSize node \<and>
      (0 < psize node - GetMinSize node \<longrightarrow>
         Internal_KeyAt S 0 = fst (internal_array node (nat (GetMinSize node)))) \<and>
      (\<forall>x. pages t' x =
         (if x = next_free_page t then Some S
          else if \<exists>k<nat (psize node - GetMinSize node).
                    x = snd (internal_array node (nat (GetMinSize node) + k))
               then map_option (\<lambda>c. c\<lparr>parent_page_id := next_free_page t\<rparr>) (pages t x)
               else pages t x))"
proof -
  define nid where "nid = next_free_page t"
  define st where "st = nat (GetMinSize node)"
  define cnt where "cnt = psize node - GetMinSize node"
  define t1 where "t1 = t\<lparr>pages := (pages t)(nid \<mapsto> zero_page), next_free_page := nid + 1\<rparr>"
  define r :: "('k, 'v) BPlusTreePage" where
    "r = Internal_Init nid (parent_page_id node) (internal_max_size t1) zero_page"
  define tr where "tr = put_page nid r t1"
  have np: "NewPage t = (nid, t1)" by (simp add: NewPage_def nid_def t1_def)
  have g: "GetData t1 nid = Inr zero_page" by (simp add: GetData_def FetchPage_def t1_def)
  have pr: "pages tr nid = Some r" by (simp add: tr_def put_page_def)
  have c0: "0 \<le> cnt" using m by (simp add: cnt_def)
  have z: "0 \<le> psize r" "psize r = 0" "page_id r = nid"
    by (simp_all add: r_def Internal_Init_def)
  have chr: "\<forall>k<nat cnt. pages tr (snd (internal_array node (st + k))) \<noteq> None \<and>
      snd (internal_array node (st + k)) \<noteq> nid"
    using ch by (simp add: tr_def put_page_def t1_def cnt_def st_def nid_def)
  from Internal_CopyNFrom_pages[OF pr c0 z(1) chr] obtain t' where
    cp: "Internal_CopyNFrom (internal_array node) st cnt nid tr = Inr t'"
    and fl: "t' = tr\<lparr>pages := pages t'\<rparr>"
    and pg: "\<forall>x. pages t' x =
         (if x = nid
          then Some (r\<lparr>internal_array :=
                 copy_from (internal_array node) st (nat cnt) (internal_array r) (nat (psize r)),
                 psize := psize r + cnt\<rparr>)
          else if \<exists>k<nat cnt. x = snd (internal_array node (st + k))
               then map_option (\<lambda>c. c\<lparr>parent_page_id := page_id r\<rparr>) (pages tr x)
               else pages tr x)"
    by blast
  define S where "S = r\<lparr>internal_array :=
                 copy_from (internal_array node) st (nat cnt) (internal_array r) 0,
                 psize := cnt\<rparr>"
  have mh: "Internal_MoveHalfTo node nid tr = Inr (node\<lparr>psize := GetMinSize node\<rparr>, t')"
    using m cp by (simp add: Internal_MoveHalfTo_def Let_def st_def cnt_def)
  have res: "SplitInternal node t = Inr (node\<lparr>psize := GetMinSize node\<rparr>, nid, t')"
    using g mh by (simp add: SplitInternal_def np r_def tr_def)
  have fl': "t' = t\<lparr>pages := pages t', next_free_page := nid + 1\<rparr>"
    by (subst fl) (simp add: tr_def put_page_def t1_def)
  have stc: "st + nat cnt = nat (psize node)" using m by (simp add: st_def cnt_def)
  have eS: "internal_entries S = drop st (internal_entries node)"
  proof -
    have "internal_entries S =
        map (copy_from (internal_array node) st (nat cnt) (internal_array r) 0) [0..<0 + nat cnt]"
      by (simp add: internal_entries_def S_def)
    also have "\<dots> = map (internal_array r) [0..<0] @
        map (\<lambda>j. internal_array node (st + j)) [0..<nat cnt]"
      by (rule map_copy_from_append)
    also have "\<dots> = drop st (map (internal_array node) [0..<st + nat cnt])"
      by (simp add: map_shift_drop)
    finally show ?thesis by (simp add: internal_entries_def stc)
  qed
  have k0: "0 < cnt \<longrightarrow> Internal_KeyAt S 0 = fst (internal_array node st)"
  proof
    assume "0 < cnt"
    then have "0 < nat cnt" by simp
    from copy_from_in[OF this, of "internal_array node" st "internal_array r" 0]
    show "Internal_KeyAt S 0 = fst (internal_array node st)"
      by (simp add: Internal_KeyAt_def S_def)
  qed
  have pg': "pages t' x =
         (if x = nid then Some S
          else if \<exists>k<nat cnt. x = snd (internal_array node (st + k))
               then map_option (\<lambda>c. c\<lparr>parent_page_id := nid\<rparr>) (pages t x)
               else pages t x)" for x
  proof (cases "x = nid")
    case True
    then show ?thesis unfolding pg[THEN spec, of x] by (simp add: S_def z)
  next
    case False
    then have "pages tr x = pages t x" by (simp add: tr_def put_page_def t1_def)
    then show ?thesis unfolding pg[THEN spec, of x] using False by (auto simp: z)
  qed
  have "page_id S = nid" "parent_page_id S = parent_page_id node" "psize S = cnt"
    by (simp_all add: S_def r_def Internal_Init_def)
  then show ?thesis
    using res fl' eS k0 pg' unfolding nid_def st_def cnt_def by blast
qed

lemma InsertIntoParent_root:
  fixes t :: "('k::{linorder,zero}, 'v::zero) BPlusTree"
  assumes Od: "GetData t old_id = Inr Od" and root: "IsRootPage Od"
    and Nw: "GetData t new_id = Inr Nw"
    and ids: "old_id \<noteq> new_id" "old_id \<noteq> next_free_page t" "new_id \<noteq> next_free_page t"
  shows "\<exists>R. InsertIntoParent (Suc f) old_id key new_id t =
       Inr (UpdateRootPageId 0
              (t\<lparr>pages := (pages t)(next_free_page t \<mapsto> R,
                    old_id \<mapsto> Od\<lparr>parent_page_id := next_free_page t\<rparr>,
                    new_id \<mapsto> Nw\<lparr>parent_page_id := next_free_page t\<rparr>),
                 next_free_page := next_free_page t + 1,
                 root_page_id := next_free_page t\<rparr>)) \<and>
     internal_entries R = [(0, page_id Od), (key, page_id Nw)] \<and>
     \<not> IsLeafPage R \<and> page_id R = next_free_page t \<and>
     parent_page_id R = INVALID_PAGE_ID \<and> max_size R = internal_max_size t"
proof -
  define n where "n = next_free_page t"
  define t1 where "t1 = t\<lparr>pages := (pages t)(n \<mapsto> zero_page), next_free_page := n + 1\<rparr>"
  define t2 where "t2 = t1\<lparr>root_page_id := n\<rparr>"
  define R :: "('k, 'v) BPlusTreePage" where
    "R = PopulateNewRoot (page_id Od) key (page_id Nw)
           (Internal_Init n INVALID_PAGE_ID (internal_max_size t) zero_page)"
  have np: "NewPage t = (n, t1)" by (simp add: NewPage_def n_def t1_def)
  have pOd: "pages t old_id = Some Od" and pN: "pages t new_id = Some Nw"
    using Od Nw by (simp_all add: GetData_Inr_iff)
  have i: "old_id \<noteq> n" "new_id \<noteq> n" using ids by (simp_all add: n_def)
  have g2: "GetData t2 n = Inr zero_page" "GetData t2 new_id = Inr Nw"
    using i pN by (simp_all add: GetData_def FetchPage_def t2_def t1_def)
  let ?t3 = "put_page n R t2"
  have g3: "GetData ?t3 old_id = Inr Od"
    using i pOd by (simp add: GetData_def FetchPage_def t2_def t1_def put_page_def)
  let ?t4 = "put_page old_id (Od\<lparr>parent_page_id := n\<rparr>) ?t3"
  have g4: "GetData ?t4 new_id = Inr Nw"
    using i ids pN by (simp add: GetData_def FetchPage_def t2_def t1_def put_page_def)
  have rp: "root_page_id t2 = n" "internal_max_size t2 = internal_max_size t"
    "root_page_id ?t3 = n" "root_page_id ?t4 = n"
    by (simp_all add: t2_def t1_def put_page_def)
  have res: "InsertIntoParent (Suc f) old_id key new_id t =
      Inr (UpdateRootPageId 0 (put_page new_id (Nw\<lparr>parent_page_id := n\<rparr>) ?t4))"
    using Od root np g2 g3 g4
    by (simp add: t2_def[symmetric] rp R_def[symmetric] Let_def)
  have eq: "put_page new_id (Nw\<lparr>parent_page_id := n\<rparr>) ?t4 =
      t\<lparr>pages := (pages t)(n \<mapsto> R, old_id \<mapsto> Od\<lparr>parent_page_id := n\<rparr>,
                    new_id \<mapsto> Nw\<lparr>parent_page_id := n\<rparr>),
         next_free_page := n + 1, root_page_id := n\<rparr>"
    by (intro BPlusTree.equality) (simp_all add: put_page_def t2_def t1_def)
  have eR: "internal_entries R = [(0, page_id Od), (key, page_id Nw)]"
    by (simp add: internal_entries_def R_def PopulateNewRoot_def SetValueAt_def SetKeyAt_def
        Internal_Init_def zero_page_def numeral_2_eq_2)
  have fR: "\<not> IsLeafPage R" "page_id R = n" "parent_page_id R = INVALID_PAGE_ID"
    "max_size R = internal_max_size t"
    by (simp_all add: R_def PopulateNewRoot_def SetValueAt_def SetKeyAt_def Internal_Init_def
        IsLeafPage_def)
  note res' = res[unfolded eq]
  show ?thesis
    using res' eR fR unfolding n_def by blast
qed

lemma InsertIntoParent_room:
  fixes t :: "('k::{linorder,zero}, 'v::zero) BPlusTree"
  assumes Od: "GetData t old_id = Inr Od" and nroot: "\<not> IsRootPage Od"
    and P: "GetData t (parent_page_id Od) = Inr P"
    and Nw: "GetData t new_id = Inr Nw"
    and ids: "old_id \<noteq> new_id" "parent_page_id Od \<noteq> old_id" "parent_page_id Od \<noteq> new_id"
    and sz: "0 \<le> psize P" and room: "psize P < internal_max_size t"
  shows "\<exists>P'. InsertIntoParent (Suc f) old_id key new_id t =
       Inr (put_page (parent_page_id Od) P'
              (put_page new_id (Nw\<lparr>parent_page_id := parent_page_id Od\<rparr>) t)) \<and>
     P' = P\<lparr>internal_array := internal_array P', psize := psize P + 1\<rparr> \<and>
     internal_entries P' =
       take (nat (ValueIndex P (page_id Od) + 1)) (internal_entries P) @ [(key, page_id Nw)] @
       drop (nat (ValueIndex P (page_id Od) + 1)) (internal_entries P)"
proof -
  define pp where "pp = parent_page_id Od"
  define N1 where "N1 = Nw\<lparr>parent_page_id := pp\<rparr>"
  define t1 where "t1 = put_page new_id N1 t"
  have g1: "GetData t1 pp = Inr P" "GetData t1 old_id = Inr Od" "GetData t1 new_id = Inr N1"
    using Od P ids by (simp_all add: t1_def GetData_put_page pp_def)
  from InsertNodeAfter_entries[OF sz, of "page_id Od" key "page_id Nw"] obtain P' where
    ina: "InsertNodeAfter (page_id Od) key (page_id Nw) P = Inr (psize P + 1, P')"
    and P': "P' = P\<lparr>internal_array := internal_array P', psize := psize P + 1\<rparr>"
    and es: "internal_entries P' =
       take (nat (ValueIndex P (page_id Od) + 1)) (internal_entries P) @ [(key, page_id Nw)] @
       drop (nat (ValueIndex P (page_id Od) + 1)) (internal_entries P)"
    by blast
  have pid: "page_id N1 = page_id Nw" by (simp add: N1_def)
  have im: "internal_max_size t1 = internal_max_size t" by (simp add: t1_def put_page_def)
  have "InsertIntoParent (Suc f) old_id key new_id t = Inr (put_page pp P' t1)"
    using Od nroot P Nw g1 room ina
    by (simp add: pp_def[symmetric] N1_def[symmetric] t1_def[symmetric] Let_def pid im)
  then show ?thesis using P' es unfolding t1_def N1_def pp_def by blast
qed

lemma parent_update_self: "c\<lparr>parent_page_id := parent_page_id c\<rparr> = c"
  by simp

lemma InsertIntoParent_full:
  fixes t :: "('k::{linorder,zero}, 'v::zero) BPlusTree"
  assumes Od: "GetData t old_id = Inr Od" and nroot: "\<not> IsRootPage Od"
    and P: "GetData t (parent_page_id Od) = Inr P"
    and Nw: "GetData t new_id = Inr Nw" and pidN: "page_id Nw = new_id"
    and ids: "old_id \<noteq> new_id" "parent_page_id Od \<noteq> old_id" "parent_page_id Od \<noteq> new_id"
    and sz: "0 \<le> psize P" and full: "\<not> psize P < internal_max_size t"
    and m: "0 \<le> GetMinSize P" "GetMinSize P \<le> psize P + 1"
    and fresh: "pages t (next_free_page t) = None"
    and ch: "\<forall>j<nat (psize P). pages t (snd (internal_array P j)) \<noteq> None"
  shows "\<exists>Pk S t3.
     InsertIntoParent (Suc f) old_id key new_id t =
       InsertIntoParent f (parent_page_id Od) (Internal_KeyAt S 0) (next_free_page t) t3 \<and>
     t3 = t\<lparr>pages := pages t3, next_free_page := next_free_page t + 1\<rparr> \<and>
     pages t3 (parent_page_id Od) = Some Pk \<and> pages t3 (next_free_page t) = Some S \<and>
     Pk = P\<lparr>internal_array := internal_array Pk, psize := GetMinSize P\<rparr> \<and>
     internal_entries Pk =
       take (nat (GetMinSize P))
         (take (nat (ValueIndex P (page_id Od) + 1)) (internal_entries P) @ [(key, new_id)] @
          drop (nat (ValueIndex P (page_id Od) + 1)) (internal_entries P)) \<and>
     internal_entries S =
       drop (nat (GetMinSize P))
         (take (nat (ValueIndex P (page_id Od) + 1)) (internal_entries P) @ [(key, new_id)] @
          drop (nat (ValueIndex P (page_id Od) + 1)) (internal_entries P)) \<and>
     page_id S = next_free_page t \<and> parent_page_id S = parent_page_id P \<and>
     (\<forall>x c. x \<noteq> parent_page_id Od \<longrightarrow> x \<noteq> new_id \<longrightarrow> pages t x = Some c \<longrightarrow>
        (\<exists>q. pages t3 x = Some (c\<lparr>parent_page_id := q\<rparr>))) \<and>
     (\<exists>q. pages t3 new_id = Some (Nw\<lparr>parent_page_id := q\<rparr>))"
proof -
  define pp where "pp = parent_page_id Od"
  define nid where "nid = next_free_page t"
  define N1 where "N1 = Nw\<lparr>parent_page_id := pp\<rparr>"
  define t1 where "t1 = put_page new_id N1 t"
  define mn where "mn = GetMinSize P"
  define ces where "ces =
      take (nat (ValueIndex P (page_id Od) + 1)) (internal_entries P) @ [(key, new_id)] @
      drop (nat (ValueIndex P (page_id Od) + 1)) (internal_entries P)"
  have pP: "pages t pp = Some P" and pN: "pages t new_id = Some Nw"
    and pOd: "pages t old_id = Some Od"
    using P Nw Od by (simp_all add: GetData_Inr_iff pp_def)
  have nn: "new_id \<noteq> nid" "pp \<noteq> nid" using pN pP fresh by (auto simp: nid_def)
  have g1: "GetData t1 pp = Inr P" "GetData t1 old_id = Inr Od" "GetData t1 new_id = Inr N1"
    using Od P ids by (simp_all add: t1_def GetData_put_page pp_def)
  have p1: "pages t1 x = (if x = new_id then Some N1 else pages t x)" for x
    by (simp add: t1_def put_page_def)
  from InsertNodeAfter_entries[OF sz, of "page_id Od" key "page_id Nw"] obtain cp where
    ina: "InsertNodeAfter (page_id Od) key (page_id Nw) P = Inr (psize P + 1, cp)"
    and cp: "cp = P\<lparr>internal_array := internal_array cp, psize := psize P + 1\<rparr>"
    and es: "internal_entries cp = ces"
    unfolding ces_def pidN by blast
  have cpf: "psize cp = psize P + 1" "GetMinSize cp = mn" "page_type cp = page_type P"
    "max_size cp = max_size P" "parent_page_id cp = parent_page_id P" "page_id cp = page_id P"
    "leaf_array cp = leaf_array P" "next_page_id cp = next_page_id P"
    by (subst cp, simp add: GetMinSize_def IsLeafPage_def mn_def)+
  have mc: "0 \<le> GetMinSize cp" "GetMinSize cp \<le> psize cp" using m by (simp_all add: cpf mn_def)
  have nf1: "next_free_page t1 = nid" by (simp add: t1_def put_page_def nid_def)
  have chc: "\<forall>k<nat (psize cp - GetMinSize cp).
        pages t1 (snd (internal_array cp (nat (GetMinSize cp) + k))) \<noteq> None \<and>
        snd (internal_array cp (nat (GetMinSize cp) + k)) \<noteq> next_free_page t1"
  proof (intro allI impI)
    fix k assume k: "k < nat (psize cp - GetMinSize cp)"
    define j where "j = nat (GetMinSize cp) + k"
    have j: "j < nat (psize cp)" using k mc by (simp add: j_def)
    then have "internal_array cp j = internal_entries cp ! j" by (simp add: internal_entries_nth)
    moreover have "internal_entries cp ! j \<in> set (internal_entries cp)"
      using j by (intro nth_mem) simp
    ultimately have "internal_array cp j \<in> set ces" by (simp add: es)
    then have "internal_array cp j = (key, new_id) \<or> internal_array cp j \<in> set (internal_entries P)"
      unfolding ces_def by (auto dest: in_set_takeD in_set_dropD)
    then have "pages t1 (snd (internal_array cp j)) \<noteq> None \<and> snd (internal_array cp j) \<noteq> nid"
    proof
      assume "internal_array cp j = (key, new_id)"
      then show ?thesis using nn by (simp add: p1)
    next
      assume "internal_array cp j \<in> set (internal_entries P)"
      then obtain j' where "j' < nat (psize P)" "internal_array cp j = internal_array P j'"
        by (auto simp: internal_entries_def)
      with ch have e: "pages t (snd (internal_array cp j)) \<noteq> None" by simp
      then have "snd (internal_array cp j) \<noteq> nid" using fresh by (auto simp: nid_def)
      with e show ?thesis by (simp add: p1)
    qed
    then show "pages t1 (snd (internal_array cp (nat (GetMinSize cp) + k))) \<noteq> None \<and>
        snd (internal_array cp (nat (GetMinSize cp) + k)) \<noteq> next_free_page t1"
      by (simp add: j_def nf1)
  qed
  from SplitInternal_result[OF mc chc] obtain S t2 where
    sp: "SplitInternal cp t1 = Inr (cp\<lparr>psize := GetMinSize cp\<rparr>, next_free_page t1, t2)"
    and t2f: "t2 = t1\<lparr>pages := pages t2, next_free_page := next_free_page t1 + 1\<rparr>"
    and eS: "internal_entries S = drop (nat (GetMinSize cp)) (internal_entries cp)"
    and fS: "page_id S = next_free_page t1" "parent_page_id S = parent_page_id cp"
    and p2: "\<forall>x. pages t2 x =
         (if x = next_free_page t1 then Some S
          else if \<exists>k<nat (psize cp - GetMinSize cp).
                    x = snd (internal_array cp (nat (GetMinSize cp) + k))
               then map_option (\<lambda>c. c\<lparr>parent_page_id := next_free_page t1\<rparr>) (pages t1 x)
               else pages t1 x)"
    by blast
  have p2x: "x \<noteq> nid \<Longrightarrow> pages t1 x = Some c \<Longrightarrow> \<exists>q. pages t2 x = Some (c\<lparr>parent_page_id := q\<rparr>)"
    for x c
  proof -
    assume x: "x \<noteq> nid" "pages t1 x = Some c"
    have "pages t2 x = Some (c\<lparr>parent_page_id := nid\<rparr>) \<or> pages t2 x = Some c"
      unfolding p2[THEN spec, of x] using x by (auto simp: nf1)
    then show ?thesis using parent_update_self[of c] by metis
  qed
  have gS: "pages t2 nid = Some S" unfolding p2[THEN spec, of nid] by (simp add: nf1)
  from p2x[OF nn(2), of P] pP ids obtain q0 where
    gp: "pages t2 pp = Some (P\<lparr>parent_page_id := q0\<rparr>)" by (auto simp: p1 pp_def)
  define pp0 where "pp0 = P\<lparr>parent_page_id := q0\<rparr>"
  define cp' where "cp' = cp\<lparr>psize := GetMinSize cp\<rparr>"
  define Pk where "Pk = pp0\<lparr>page_type := page_type cp', psize := psize cp',
      max_size := max_size cp', parent_page_id := parent_page_id cp', page_id := page_id cp',
      internal_array := (\<lambda>i. if int i < GetMinSize cp' then internal_array cp' i
                              else internal_array pp0 i)\<rparr>"
  let ?t3 = "put_page pp Pk t2"
  have gd: "GetData t2 nid = Inr S" "GetData t2 pp = Inr pp0"
    using gS gp by (simp_all add: GetData_Inr_iff pp0_def)
  have pid1: "page_id N1 = page_id Nw" by (simp add: N1_def)
  have im: "internal_max_size t1 = internal_max_size t" by (simp add: t1_def put_page_def)
  have step: "InsertIntoParent (Suc f) old_id key new_id t =
      InsertIntoParent f pp (Internal_KeyAt S 0) nid ?t3"
    using Od nroot P Nw g1 full ina sp gd
    by (simp add: pp_def[symmetric] N1_def[symmetric] t1_def[symmetric] Let_def pid1 im nf1
        cp'_def[symmetric] Pk_def[symmetric])
  have mcp': "GetMinSize cp' = mn" "psize cp' = mn"
    by (simp_all add: cp'_def cpf)
  have Pk_eq: "Pk = P\<lparr>internal_array := internal_array Pk, psize := mn\<rparr>"
    by (intro BPlusTreePage.equality)
       (simp_all add: Pk_def pp0_def cp'_def cpf)
  have ePk: "internal_entries Pk = take (nat mn) ces"
  proof -
    have "internal_array Pk x = internal_array cp x" if "x < nat mn" for x
    proof -
      from that have "int x < mn" by linarith
      then show ?thesis by (simp add: Pk_def mcp') (simp add: cp'_def)
    qed
    then have "internal_entries Pk = map (internal_array cp) [0..<nat mn]"
      by (simp add: internal_entries_def Pk_def mcp')
    also have "\<dots> = take (nat mn) (map (internal_array cp) [0..<nat (psize cp)])"
      using mc by (intro map_take_upt) (simp add: cpf)
    finally show ?thesis by (simp add: internal_entries_def[symmetric] es)
  qed
  have t3f: "?t3 = t\<lparr>pages := pages ?t3, next_free_page := nid + 1\<rparr>"
    by (subst t2f) (simp add: put_page_def t1_def nid_def)
  have g3: "pages ?t3 pp = Some Pk" "pages ?t3 nid = Some S"
    using gS nn by (simp_all add: put_page_def)
  have frame: "\<forall>x c. x \<noteq> pp \<longrightarrow> x \<noteq> new_id \<longrightarrow> pages t x = Some c \<longrightarrow>
        (\<exists>q. pages ?t3 x = Some (c\<lparr>parent_page_id := q\<rparr>))"
  proof (intro allI impI)
    fix x c assume x: "x \<noteq> pp" "x \<noteq> new_id" "pages t x = Some c"
    then have "x \<noteq> nid" using fresh by (auto simp: nid_def)
    moreover have "pages t1 x = Some c" using x by (simp add: p1)
    ultimately obtain q where "pages t2 x = Some (c\<lparr>parent_page_id := q\<rparr>)"
      using p2x by blast
    then show "\<exists>q. pages ?t3 x = Some (c\<lparr>parent_page_id := q\<rparr>)"
      using x by (auto simp: put_page_def)
  qed
  have newp: "\<exists>q. pages ?t3 new_id = Some (Nw\<lparr>parent_page_id := q\<rparr>)"
  proof -
    have "pages t1 new_id = Some N1" by (simp add: p1)
    from p2x[OF nn(1) this] obtain q where "pages t2 new_id = Some (N1\<lparr>parent_page_id := q\<rparr>)"
      by blast
    then have "pages ?t3 new_id = Some (Nw\<lparr>parent_page_id := q\<rparr>)"
      using ids by (simp add: put_page_def pp_def N1_def)
    then show ?thesis by blast
  qed
  have eS': "internal_entries S = drop (nat mn) ces" using eS by (simp add: cpf es)
  have fS': "page_id S = nid" "parent_page_id S = parent_page_id P"
    using fS by (simp_all add: nf1 cpf)
  show ?thesis
    using step t3f g3 Pk_eq ePk eS' fS' frame newp
    unfolding pp_def nid_def mn_def ces_def by blast
qed

lemma Leaf_MoveHalfTo_entries:
  assumes sz: "psize p = max_size p" and m: "0 \<le> max_size p"
  shows "\<exists>a. Leaf_MoveHalfTo p r =
           Inr (p\<lparr>next_page_id := page_id r, psize := (max_size p + 1) div 2\<rparr>,
                r\<lparr>leaf_array := a, next_page_id := next_page_id p,
                  psize := max_size p - (max_size p + 1) div 2\<rparr>) \<and>
         map a [0..<nat (max_size p - (max_size p + 1) div 2)] =
           drop (nat ((max_size p + 1) div 2)) (leaf_entries p) \<and>
         (0 < max_size p - (max_size p + 1) div 2 \<longrightarrow>
            a 0 = leaf_array p (nat ((max_size p + 1) div 2)))"
proof -
  define c where "c = (max_size p + 1) div 2"
  define a where "a = MoveHalfTo_loop (leaf_array p) (leaf_array r) c (max_size p) c"
  have c: "0 \<le> c" "c \<le> max_size p" using m by (simp_all add: c_def)
  have aj: "a j = (if int j < max_size p - c then leaf_array p (j + nat c) else leaf_array r j)" for j
    using c by (simp add: a_def MoveHalfTo_loop_apply)
  have res: "Leaf_MoveHalfTo p r =
           Inr (p\<lparr>next_page_id := page_id r, psize := c\<rparr>,
                r\<lparr>leaf_array := a, next_page_id := next_page_id p, psize := max_size p - c\<rparr>)"
    using sz by (simp add: Leaf_MoveHalfTo_def Let_def c_def a_def)
  have "map a [0..<nat (max_size p - c)] = drop (nat c) (leaf_entries p)"
  proof (rule nth_equalityI)
    show "length (map a [0..<nat (max_size p - c)]) = length (drop (nat c) (leaf_entries p))"
      using c sz by (simp add: nat_diff_distrib)
  next
    fix j assume "j < length (map a [0..<nat (max_size p - c)])"
    then have j: "j < nat (max_size p - c)" by simp
    then have "nat c + j < nat (psize p)" "int j < max_size p - c" using c sz by linarith+
    then show "map a [0..<nat (max_size p - c)] ! j = drop (nat c) (leaf_entries p) ! j"
      using j by (simp add: aj leaf_entries_nth add.commute)
  qed
  moreover have "0 < max_size p - c \<longrightarrow> a 0 = leaf_array p (nat c)"
    by (simp add: aj)
  ultimately show ?thesis using res unfolding c_def by blast
qed

lemma leaf_entries_take:
  "0 \<le> c \<Longrightarrow> c \<le> psize p \<Longrightarrow> leaf_entries (p\<lparr>next_page_id := x, psize := c\<rparr>) = take (nat c) (leaf_entries p)"
  by (simp add: leaf_entries_def take_map min_def)

lemma Leaf_Insert_Inr_size:
  "Leaf_Insert L key val = Inr (sz, L1) \<Longrightarrow>
   psize L1 = psize L + 1 \<and> 0 \<le> psize L \<and> next_page_id L1 = next_page_id L \<and>
   max_size L1 = max_size L \<and> parent_page_id L1 = parent_page_id L \<and> page_id L1 = page_id L \<and>
   page_type L1 = page_type L"
  by (auto simp: Leaf_Insert_def Leaf_KeyIndex_def Let_def split: if_splits sum.splits)

lemma UpdateRootPageId_fields:
  "pages (UpdateRootPageId i t) = pages t"
  "root_page_id (UpdateRootPageId i t) = root_page_id t"
  "next_free_page (UpdateRootPageId i t) = next_free_page t"
  by (simp_all add: UpdateRootPageId_def split: option.splits)

text \<open>The split of the leaf in \<open>InsertToLeaf\<close>, up to the call of \<open>InsertIntoParent\<close>.\<close>

lemma InsertToLeaf_split:
  fixes t :: "('k::{linorder,zero}, 'v::zero) BPlusTree"
  assumes find: "FindLeafPage fuel key False False t = Inr lid"
    and leaf: "GetData t lid = Inr L"
    and absent: "Leaf_Lookup hdr L key = Inr None"
    and ins: "Leaf_Insert L key val = Inr (sz, L1)"
    and full: "psize L1 = leaf_max_size t"
    and msz: "max_size L = leaf_max_size t"
    and fresh: "lid \<noteq> next_free_page t"
  shows "\<exists>Lk L' t2.
     InsertToLeaf hdr fuel key val t =
       (case InsertIntoParent fuel lid (Leaf_KeyAt L' 0) (next_free_page t) t2 of
          Inl e \<Rightarrow> Inl e
        | Inr t3 \<Rightarrow> Inr (True, t3)) \<and>
     t2 = t\<lparr>pages := (pages t)(next_free_page t \<mapsto> L', lid \<mapsto> Lk),
            next_free_page := next_free_page t + 1\<rparr> \<and>
     leaf_entries Lk = take (nat ((leaf_max_size t + 1) div 2)) (leaf_entries L1) \<and>
     leaf_entries L' = drop (nat ((leaf_max_size t + 1) div 2)) (leaf_entries L1) \<and>
     psize Lk = (leaf_max_size t + 1) div 2 \<and>
     psize L' = leaf_max_size t - (leaf_max_size t + 1) div 2 \<and>
     next_page_id L' = next_page_id L \<and>
     next_page_id Lk = page_id L' \<and>
     page_id L' = next_free_page t \<and>
     IsLeafPage L' \<and> max_size L' = leaf_max_size t \<and> parent_page_id L' = parent_page_id L \<and>
     Lk = L1\<lparr>next_page_id := next_free_page t, psize := (leaf_max_size t + 1) div 2\<rparr> \<and>
     (2 \<le> leaf_max_size t \<longrightarrow>
        Leaf_KeyAt L' 0 = fst (leaf_entries L1 ! nat ((leaf_max_size t + 1) div 2)))"
proof -
  define m where "m = leaf_max_size t"
  define c where "c = (m + 1) div 2"
  define n where "n = next_free_page t"
  note L1 = Leaf_Insert_Inr_size[OF ins]
  have mpos: "1 \<le> m" using L1 full by (simp add: m_def)
  have cb: "0 \<le> c" "c \<le> m" using mpos by (simp_all add: c_def)
  define t1 where "t1 = put_page lid L1 t"
  define tN where "tN = t1\<lparr>pages := (pages t1)(n \<mapsto> zero_page), next_free_page := n + 1\<rparr>"
  define new0 :: "('k, 'v) BPlusTreePage" where
    "new0 = Leaf_Init n (parent_page_id L1) (leaf_max_size tN) zero_page"
  have np: "NewPage t1 = (n, tN)"
    by (simp add: NewPage_def tN_def n_def t1_def put_page_def)
  have szm: "psize L1 = max_size L1" "0 \<le> max_size L1"
    using full msz L1 mpos by (simp_all add: m_def)
  from Leaf_MoveHalfTo_entries[OF szm, of new0] obtain a where
    mh: "Leaf_MoveHalfTo L1 new0 =
           Inr (L1\<lparr>next_page_id := page_id new0, psize := (max_size L1 + 1) div 2\<rparr>,
                new0\<lparr>leaf_array := a, next_page_id := next_page_id L1,
                  psize := max_size L1 - (max_size L1 + 1) div 2\<rparr>)"
    and am: "map a [0..<nat (max_size L1 - (max_size L1 + 1) div 2)] =
           drop (nat ((max_size L1 + 1) div 2)) (leaf_entries L1)"
    and a0: "0 < max_size L1 - (max_size L1 + 1) div 2 \<longrightarrow>
            a 0 = leaf_array L1 (nat ((max_size L1 + 1) div 2))"
    by blast
  have mL1: "max_size L1 = m" using msz L1 by (simp add: m_def)
  define Lk where "Lk = L1\<lparr>next_page_id := n, psize := c\<rparr>"
  define L' where "L' = new0\<lparr>leaf_array := a, next_page_id := next_page_id L1, psize := m - c\<rparr>"
  have pid0: "page_id new0 = n" by (simp add: new0_def Leaf_Init_def)
  have mh': "Leaf_MoveHalfTo L1 new0 = Inr (Lk, L')"
    using mh by (simp add: Lk_def L'_def mL1 c_def pid0)
  define t2 where "t2 = t\<lparr>pages := (pages t)(n \<mapsto> L', lid \<mapsto> Lk), next_free_page := n + 1\<rparr>"
  have fr: "lid \<noteq> n" using fresh by (simp add: n_def)
  have g1: "GetData tN n = Inr zero_page" "GetData tN lid = Inr L1"
    using fr by (simp_all add: GetData_def FetchPage_def tN_def t1_def put_page_def)
  have sl: "SplitLeaf lid t1 = Inr (n, put_page lid Lk (put_page n L' tN))"
    using g1 mh' by (simp add: SplitLeaf_def np new0_def)
  have t2eq: "put_page lid Lk (put_page n L' tN) = t2"
    using fr by (intro BPlusTree.equality) (simp_all add: put_page_def tN_def t1_def t2_def Lk_def fun_upd_twist)
  have g2: "GetData t2 lid = Inr Lk" "GetData t2 n = Inr L'"
    using fr by (simp_all add: GetData_def FetchPage_def t2_def)
  have pidL': "page_id L' = n" by (simp add: L'_def pid0)
  have same: "put_page lid (Lk\<lparr>next_page_id := page_id L'\<rparr>) t2 = t2"
  proof -
    have "Lk\<lparr>next_page_id := page_id L'\<rparr> = Lk"
      by (intro BPlusTreePage.equality) (simp_all add: Lk_def pidL')
    then show ?thesis
      by (intro BPlusTree.equality) (simp_all add: put_page_def t2_def)
  qed
  have lt: "\<not> psize L1 < leaf_max_size t1" using full by (simp add: t1_def put_page_def)
  have main: "InsertToLeaf hdr fuel key val t =
       (case InsertIntoParent fuel lid (Leaf_KeyAt L' 0) n t2 of
          Inl e \<Rightarrow> Inl e
        | Inr t3 \<Rightarrow> Inr (True, t3))"
    unfolding InsertToLeaf_def
    using find leaf absent ins lt sl g2 same
    by (simp add: t1_def[symmetric] t2eq Let_def)
  have eLk: "leaf_entries Lk = take (nat c) (leaf_entries L1)"
    unfolding Lk_def using cb full by (intro leaf_entries_take) (simp_all add: m_def)
  have eL': "leaf_entries L' = drop (nat c) (leaf_entries L1)"
    using am by (simp add: leaf_entries_def L'_def mL1 c_def)
  have k0: "2 \<le> m \<longrightarrow> Leaf_KeyAt L' 0 = fst (leaf_entries L1 ! nat c)"
  proof
    assume m2: "2 \<le> m"
    then have "0 < m - c" by (simp add: c_def)
    with a0 have "a 0 = leaf_array L1 (nat c)" by (simp add: mL1 c_def)
    moreover have "nat c < nat (psize L1)" using m2 full by (simp add: c_def m_def)
    ultimately show "Leaf_KeyAt L' 0 = fst (leaf_entries L1 ! nat c)"
      by (simp add: Leaf_KeyAt_def L'_def leaf_entries_nth)
  qed
  have fields: "psize Lk = c" "psize L' = m - c" "next_page_id L' = next_page_id L"
    "next_page_id Lk = page_id L'" "IsLeafPage L'" "max_size L' = m"
    "parent_page_id L' = parent_page_id L"
    using L1 by (simp_all add: Lk_def L'_def new0_def Leaf_Init_def IsLeafPage_def tN_def t1_def
        put_page_def m_def)
  show ?thesis
    using main eLk eL' k0 fields pidL'
    unfolding t2_def Lk_def m_def[symmetric] c_def[symmetric] n_def[symmetric]
    by (intro exI[of _ Lk] exI[of _ L'] exI[of _ t2]) (simp add: Lk_def t2_def)
qed

text \<open>
  Claim C3. \<open>InsertToLeaf\<close> has found the leaf \<open>L\<close> (page \<open>lid\<close>), \<open>Lookup\<close> has not
  found the key, and the insertion has brought the leaf to \<open>max_size\<close> entries (\<open>L1\<close>).
  Then the split allocates the next page of the pool as a new leaf \<open>L'\<close>; \<open>L\<close> keeps its
  lower \<open>(max_size + 1) / 2\<close> entries (\<open>Lk\<close>) and \<open>L'\<close> receives the upper
  \<open>max_size - (max_size + 1) / 2\<close>, in order; \<open>L'.next\<close> is the old \<open>L.next\<close> and \<open>L.next\<close>
  is the page id of \<open>L'\<close>; and the separator \<open>L'.KeyAt(0)\<close> (from \<open>max_size = 2\<close> on the
  key of the first entry moved) reaches the parent with the page id of \<open>L'\<close>:
  \<^item> when \<open>L\<close> is the root, \<open>Insert\<close> returns true and the new root, the page after
    \<open>L'\<close>, holds the two entries \<open>(_, L)\<close> and \<open>(L'.KeyAt(0), L')\<close>, and is the parent of
    both leaves;
  \<^item> when the parent \<open>P\<close> has room, \<open>Insert\<close> returns true and \<open>P\<close> holds the new entry
    \<open>(L'.KeyAt(0), L')\<close> right after the slot with the page id of \<open>L\<close>;
  \<^item> when the parent is full, the new entry is inserted in the same place of a copy of the
    parent, the parent keeps the first \<open>GetMinSize()\<close> entries of the copy and a new page
    \<open>S\<close> receives the others, and the insertion continues one level up with
    \<open>InsertIntoParent(P, S.KeyAt(0), S)\<close>; the two leaves are as after the split, up to their
    parent pointers.
  The pool hands out unused page ids, \<open>L\<close> knows its page id and has the \<open>max_size\<close> of
  the tree, a parent is a page of the pool other than \<open>L\<close>, and the children of a full
  parent are pages of the pool.
\<close>

theorem leaf_split:
  fixes t :: "('k::{linorder,zero}, 'v::zero) BPlusTree"
  assumes find: "FindLeafPage fuel key False False t = Inr lid"
    and leaf: "GetData t lid = Inr L"
    and pid: "page_id L = lid"
    and absent: "Leaf_Lookup hdr L key = Inr None"
    and ins: "Leaf_Insert L key val = Inr (sz, L1)"
    and full: "psize L1 = leaf_max_size t"
    and msz: "max_size L = leaf_max_size t"
    and fresh: "pages t (next_free_page t) = None" "pages t (next_free_page t + 1) = None"
    and parent: "\<not> IsRootPage L \<Longrightarrow>
       GetData t (parent_page_id L) = Inr P \<and> parent_page_id L \<noteq> lid \<and> 0 \<le> psize P"
    and pfull: "\<not> IsRootPage L \<Longrightarrow> \<not> psize P < internal_max_size t \<Longrightarrow>
       0 \<le> GetMinSize P \<and> GetMinSize P \<le> psize P + 1 \<and>
       (\<forall>j<nat (psize P). pages t (ValueAt P j) \<noteq> None)"
  shows "\<exists>Lk L'.
     leaf_entries Lk = take (nat ((leaf_max_size t + 1) div 2)) (leaf_entries L1) \<and>
     leaf_entries L' = drop (nat ((leaf_max_size t + 1) div 2)) (leaf_entries L1) \<and>
     psize Lk = (leaf_max_size t + 1) div 2 \<and>
     psize L' = leaf_max_size t - (leaf_max_size t + 1) div 2 \<and>
     next_page_id L' = next_page_id L \<and>
     next_page_id Lk = next_free_page t \<and>
     page_id L' = next_free_page t \<and>
     IsLeafPage L' \<and> max_size L' = leaf_max_size t \<and>
     Lk = L1\<lparr>next_page_id := next_free_page t, psize := (leaf_max_size t + 1) div 2\<rparr> \<and>
     (2 \<le> leaf_max_size t \<longrightarrow>
        Leaf_KeyAt L' 0 = fst (leaf_entries L1 ! nat ((leaf_max_size t + 1) div 2))) \<and>
     (if IsRootPage L
      then \<exists>R t3.
        InsertToLeaf hdr fuel key val t = Inr (True, t3) \<and>
        root_page_id t3 = next_free_page t + 1 \<and>
        GetData t3 (next_free_page t + 1) = Inr R \<and> \<not> IsLeafPage R \<and>
        internal_entries R = [(0, lid), (Leaf_KeyAt L' 0, next_free_page t)] \<and>
        GetData t3 lid = Inr (Lk\<lparr>parent_page_id := next_free_page t + 1\<rparr>) \<and>
        GetData t3 (next_free_page t) = Inr (L'\<lparr>parent_page_id := next_free_page t + 1\<rparr>)
      else if psize P < internal_max_size t
      then \<exists>P' t3.
        InsertToLeaf hdr fuel key val t = Inr (True, t3) \<and>
        root_page_id t3 = root_page_id t \<and>
        GetData t3 (parent_page_id L) = Inr P' \<and>
        internal_entries P' =
          take (nat (ValueIndex P lid + 1)) (internal_entries P) @
          [(Leaf_KeyAt L' 0, next_free_page t)] @
          drop (nat (ValueIndex P lid + 1)) (internal_entries P) \<and>
        GetData t3 lid = Inr Lk \<and> GetData t3 (next_free_page t) = Inr L' \<and>
        parent_page_id L' = parent_page_id L
      else \<exists>Pk S t3 q q'.
        InsertToLeaf hdr fuel key val t =
          (case InsertIntoParent (fuel - 1) (parent_page_id L) (Internal_KeyAt S 0)
                  (next_free_page t + 1) t3 of
             Inl e \<Rightarrow> Inl e
           | Inr t4 \<Rightarrow> Inr (True, t4)) \<and>
        GetData t3 (parent_page_id L) = Inr Pk \<and>
        GetData t3 (next_free_page t + 1) = Inr S \<and>
        internal_entries Pk =
          take (nat (GetMinSize P))
            (take (nat (ValueIndex P lid + 1)) (internal_entries P) @
             [(Leaf_KeyAt L' 0, next_free_page t)] @
             drop (nat (ValueIndex P lid + 1)) (internal_entries P)) \<and>
        internal_entries S =
          drop (nat (GetMinSize P))
            (take (nat (ValueIndex P lid + 1)) (internal_entries P) @
             [(Leaf_KeyAt L' 0, next_free_page t)] @
             drop (nat (ValueIndex P lid + 1)) (internal_entries P)) \<and>
        GetData t3 lid = Inr (Lk\<lparr>parent_page_id := q\<rparr>) \<and>
        GetData t3 (next_free_page t) = Inr (L'\<lparr>parent_page_id := q'\<rparr>))"
proof -
  define n where "n = next_free_page t"
  define c where "c = (leaf_max_size t + 1) div 2"
  have pl: "pages t lid = Some L" using leaf by (simp add: GetData_Inr_iff)
  have fr: "lid \<noteq> n" "lid \<noteq> n + 1" using pl fresh by (auto simp: n_def)
  from InsertToLeaf_split[OF find leaf absent ins full msz fr(1)[unfolded n_def]]
  obtain Lk L' t2 where
    main: "InsertToLeaf hdr fuel key val t =
       (case InsertIntoParent fuel lid (Leaf_KeyAt L' 0) n t2 of
          Inl e \<Rightarrow> Inl e
        | Inr t3 \<Rightarrow> Inr (True, t3))"
    and t2: "t2 = t\<lparr>pages := (pages t)(n \<mapsto> L', lid \<mapsto> Lk), next_free_page := n + 1\<rparr>"
    and lf: "leaf_entries Lk = take (nat c) (leaf_entries L1)"
      "leaf_entries L' = drop (nat c) (leaf_entries L1)"
      "psize Lk = c" "psize L' = leaf_max_size t - c"
      "next_page_id L' = next_page_id L" "next_page_id Lk = page_id L'" "page_id L' = n"
      "IsLeafPage L'" "max_size L' = leaf_max_size t"
      "Lk = L1\<lparr>next_page_id := n, psize := c\<rparr>"
      "2 \<le> leaf_max_size t \<longrightarrow> Leaf_KeyAt L' 0 = fst (leaf_entries L1 ! nat c)"
    and pL': "parent_page_id L' = parent_page_id L"
    unfolding n_def c_def by blast
  note L1 = Leaf_Insert_Inr_size[OF ins]
  have Lkf: "parent_page_id Lk = parent_page_id L" "page_id Lk = lid"
    "IsRootPage Lk = IsRootPage L"
    using L1 pid by (simp_all add: lf(10) IsRootPage_def)
  obtain f where fuel: "fuel = Suc f"
    using find by (cases fuel) (simp_all add: FindLeafPage_def split: if_splits)
  have g2: "GetData t2 lid = Inr Lk" "GetData t2 n = Inr L'"
    using fr by (simp_all add: GetData_def FetchPage_def t2)
  have p2: "pages t2 x = (if x = lid then Some Lk else if x = n then Some L' else pages t x)" for x
    by (simp add: t2)
  have t2f: "next_free_page t2 = n + 1" "internal_max_size t2 = internal_max_size t"
    "root_page_id t2 = root_page_id t"
    by (simp_all add: t2)
  have leafpart: "leaf_entries Lk = take (nat c) (leaf_entries L1) \<and>
     leaf_entries L' = drop (nat c) (leaf_entries L1) \<and>
     psize Lk = c \<and> psize L' = leaf_max_size t - c \<and>
     next_page_id L' = next_page_id L \<and> next_page_id Lk = n \<and> page_id L' = n \<and>
     IsLeafPage L' \<and> max_size L' = leaf_max_size t \<and>
     Lk = L1\<lparr>next_page_id := n, psize := c\<rparr> \<and>
     (2 \<le> leaf_max_size t \<longrightarrow> Leaf_KeyAt L' 0 = fst (leaf_entries L1 ! nat c))"
    using lf by simp
  have parentpart: "if IsRootPage L
      then \<exists>R t3.
        InsertToLeaf hdr fuel key val t = Inr (True, t3) \<and>
        root_page_id t3 = n + 1 \<and>
        GetData t3 (n + 1) = Inr R \<and> \<not> IsLeafPage R \<and>
        internal_entries R = [(0, lid), (Leaf_KeyAt L' 0, n)] \<and>
        GetData t3 lid = Inr (Lk\<lparr>parent_page_id := n + 1\<rparr>) \<and>
        GetData t3 n = Inr (L'\<lparr>parent_page_id := n + 1\<rparr>)
      else if psize P < internal_max_size t
      then \<exists>P' t3.
        InsertToLeaf hdr fuel key val t = Inr (True, t3) \<and>
        root_page_id t3 = root_page_id t \<and>
        GetData t3 (parent_page_id L) = Inr P' \<and>
        internal_entries P' =
          take (nat (ValueIndex P lid + 1)) (internal_entries P) @
          [(Leaf_KeyAt L' 0, n)] @
          drop (nat (ValueIndex P lid + 1)) (internal_entries P) \<and>
        GetData t3 lid = Inr Lk \<and> GetData t3 n = Inr L' \<and>
        parent_page_id L' = parent_page_id L
      else \<exists>Pk S t3 q q'.
        InsertToLeaf hdr fuel key val t =
          (case InsertIntoParent (fuel - 1) (parent_page_id L) (Internal_KeyAt S 0)
                  (n + 1) t3 of
             Inl e \<Rightarrow> Inl e
           | Inr t4 \<Rightarrow> Inr (True, t4)) \<and>
        GetData t3 (parent_page_id L) = Inr Pk \<and>
        GetData t3 (n + 1) = Inr S \<and>
        internal_entries Pk =
          take (nat (GetMinSize P))
            (take (nat (ValueIndex P lid + 1)) (internal_entries P) @
             [(Leaf_KeyAt L' 0, n)] @
             drop (nat (ValueIndex P lid + 1)) (internal_entries P)) \<and>
        internal_entries S =
          drop (nat (GetMinSize P))
            (take (nat (ValueIndex P lid + 1)) (internal_entries P) @
             [(Leaf_KeyAt L' 0, n)] @
             drop (nat (ValueIndex P lid + 1)) (internal_entries P)) \<and>
        GetData t3 lid = Inr (Lk\<lparr>parent_page_id := q\<rparr>) \<and>
        GetData t3 n = Inr (L'\<lparr>parent_page_id := q'\<rparr>)"
  proof (cases "IsRootPage L")
    case True
    then have rk: "IsRootPage Lk" by (simp add: Lkf)
    have ids: "lid \<noteq> n" "lid \<noteq> next_free_page t2" "n \<noteq> next_free_page t2"
      using fr by (simp_all add: t2f)
    from InsertIntoParent_root[OF g2(1) rk g2(2) ids, of f "Leaf_KeyAt L' 0"]
    obtain R where
      r: "InsertIntoParent (Suc f) lid (Leaf_KeyAt L' 0) n t2 =
       Inr (UpdateRootPageId 0
              (t2\<lparr>pages := (pages t2)(next_free_page t2 \<mapsto> R,
                    lid \<mapsto> Lk\<lparr>parent_page_id := next_free_page t2\<rparr>,
                    n \<mapsto> L'\<lparr>parent_page_id := next_free_page t2\<rparr>),
                 next_free_page := next_free_page t2 + 1,
                 root_page_id := next_free_page t2\<rparr>))"
      and eR: "internal_entries R = [(0, page_id Lk), (Leaf_KeyAt L' 0, page_id L')]"
      and fR: "\<not> IsLeafPage R"
      by blast
    define t3 where "t3 = UpdateRootPageId 0
              (t2\<lparr>pages := (pages t2)(next_free_page t2 \<mapsto> R,
                    lid \<mapsto> Lk\<lparr>parent_page_id := next_free_page t2\<rparr>,
                    n \<mapsto> L'\<lparr>parent_page_id := next_free_page t2\<rparr>),
                 next_free_page := next_free_page t2 + 1,
                 root_page_id := next_free_page t2\<rparr>)"
    have "InsertToLeaf hdr fuel key val t = Inr (True, t3)"
      using main r by (simp add: fuel t3_def)
    moreover have "root_page_id t3 = n + 1"
      by (simp add: t3_def UpdateRootPageId_fields t2f)
    moreover have "GetData t3 (n + 1) = Inr R" "GetData t3 lid = Inr (Lk\<lparr>parent_page_id := n + 1\<rparr>)"
      "GetData t3 n = Inr (L'\<lparr>parent_page_id := n + 1\<rparr>)"
      using fr by (simp_all add: GetData_Inr_iff t3_def UpdateRootPageId_fields t2f)
    moreover have "internal_entries R = [(0, lid), (Leaf_KeyAt L' 0, n)]"
      using eR by (simp add: Lkf(2) lf(7))
    ultimately show ?thesis using True fR by auto
  next
    case False
    then have nrk: "\<not> IsRootPage Lk" by (simp add: Lkf)
    from parent[OF False] have P: "GetData t (parent_page_id L) = Inr P"
      and ppl: "parent_page_id L \<noteq> lid" and szP: "0 \<le> psize P" by simp_all
    have pP: "pages t (parent_page_id L) = Some P" using P by (simp add: GetData_Inr_iff)
    have ppn: "parent_page_id L \<noteq> n" "parent_page_id L \<noteq> n + 1"
      using pP fresh by (auto simp: n_def)
    have P2: "GetData t2 (parent_page_id Lk) = Inr P"
      using pP ppl ppn by (simp add: GetData_Inr_iff p2 Lkf)
    have ids: "lid \<noteq> n" "parent_page_id Lk \<noteq> lid" "parent_page_id Lk \<noteq> n"
      using fr ppl ppn by (simp_all add: Lkf)
    show ?thesis
    proof (cases "psize P < internal_max_size t")
      case True
      then have room: "psize P < internal_max_size t2" by (simp add: t2f)
      from InsertIntoParent_room[OF g2(1) nrk P2 g2(2) ids szP room, of f "Leaf_KeyAt L' 0"]
      obtain P' where
        r: "InsertIntoParent (Suc f) lid (Leaf_KeyAt L' 0) n t2 =
           Inr (put_page (parent_page_id Lk) P'
                  (put_page n (L'\<lparr>parent_page_id := parent_page_id Lk\<rparr>) t2))"
        and eP: "internal_entries P' =
           take (nat (ValueIndex P (page_id Lk) + 1)) (internal_entries P) @
           [(Leaf_KeyAt L' 0, page_id L')] @
           drop (nat (ValueIndex P (page_id Lk) + 1)) (internal_entries P)"
        by blast
      define t3 where "t3 = put_page (parent_page_id Lk) P'
                  (put_page n (L'\<lparr>parent_page_id := parent_page_id Lk\<rparr>) t2)"
      have same: "L'\<lparr>parent_page_id := parent_page_id L\<rparr> = L'"
        by (simp add: pL'[symmetric])
      have "InsertToLeaf hdr fuel key val t = Inr (True, t3)"
        using main r by (simp add: fuel t3_def)
      moreover have "root_page_id t3 = root_page_id t"
        by (simp add: t3_def put_page_def t2f)
      moreover have "GetData t3 (parent_page_id L) = Inr P'" "GetData t3 lid = Inr Lk"
        "GetData t3 n = Inr L'"
        using ids g2 by (simp_all add: t3_def Lkf(1) same GetData_put_page)
      moreover have "internal_entries P' =
          take (nat (ValueIndex P lid + 1)) (internal_entries P) @
          [(Leaf_KeyAt L' 0, n)] @
          drop (nat (ValueIndex P lid + 1)) (internal_entries P)"
        using eP by (simp add: Lkf(2) lf(7))
      ultimately show ?thesis using False True pL' by auto
    next
      case nroom: False
      then have full2: "\<not> psize P < internal_max_size t2" by (simp add: t2f)
      from pfull[OF False nroom] have m: "0 \<le> GetMinSize P" "GetMinSize P \<le> psize P + 1"
        and ch: "\<forall>j<nat (psize P). pages t (ValueAt P j) \<noteq> None" by simp_all
      have fresh2: "pages t2 (next_free_page t2) = None"
        using fr fresh by (simp add: p2 t2f n_def)
      have ch2: "\<forall>j<nat (psize P). pages t2 (snd (internal_array P j)) \<noteq> None"
        using ch by (simp add: p2 ValueAt_def)
      from InsertIntoParent_full[OF g2(1) nrk P2 g2(2) lf(7) ids szP full2 m fresh2 ch2,
          of f "Leaf_KeyAt L' 0"]
      obtain Pk S t3 where
        r: "InsertIntoParent (Suc f) lid (Leaf_KeyAt L' 0) n t2 =
            InsertIntoParent f (parent_page_id Lk) (Internal_KeyAt S 0) (next_free_page t2) t3"
        and g3: "pages t3 (parent_page_id Lk) = Some Pk" "pages t3 (next_free_page t2) = Some S"
        and es: "internal_entries Pk =
          take (nat (GetMinSize P))
            (take (nat (ValueIndex P (page_id Lk) + 1)) (internal_entries P) @
             [(Leaf_KeyAt L' 0, n)] @
             drop (nat (ValueIndex P (page_id Lk) + 1)) (internal_entries P))"
          "internal_entries S =
          drop (nat (GetMinSize P))
            (take (nat (ValueIndex P (page_id Lk) + 1)) (internal_entries P) @
             [(Leaf_KeyAt L' 0, n)] @
             drop (nat (ValueIndex P (page_id Lk) + 1)) (internal_entries P))"
        and frame: "\<forall>x c. x \<noteq> parent_page_id Lk \<longrightarrow> x \<noteq> n \<longrightarrow> pages t2 x = Some c \<longrightarrow>
           (\<exists>q. pages t3 x = Some (c\<lparr>parent_page_id := q\<rparr>))"
        and newp: "\<exists>q. pages t3 n = Some (L'\<lparr>parent_page_id := q\<rparr>)"
        by blast
      have "pages t2 lid = Some Lk" by (simp add: p2)
      with frame ids obtain q where q: "pages t3 lid = Some (Lk\<lparr>parent_page_id := q\<rparr>)"
        by metis
      from newp obtain q' where q': "pages t3 n = Some (L'\<lparr>parent_page_id := q'\<rparr>)" by blast
      have "InsertToLeaf hdr fuel key val t =
          (case InsertIntoParent (fuel - 1) (parent_page_id L) (Internal_KeyAt S 0)
                  (n + 1) t3 of
             Inl e \<Rightarrow> Inl e
           | Inr t4 \<Rightarrow> Inr (True, t4))"
        using main r by (simp add: fuel Lkf t2f)
      moreover have "GetData t3 (parent_page_id L) = Inr Pk" "GetData t3 (n + 1) = Inr S"
        "GetData t3 lid = Inr (Lk\<lparr>parent_page_id := q\<rparr>)"
        "GetData t3 n = Inr (L'\<lparr>parent_page_id := q'\<rparr>)"
        using g3 q q' by (simp_all add: GetData_Inr_iff Lkf t2f)
      ultimately show ?thesis using False nroom es unfolding Lkf by auto
    qed
  qed
  note body = conjI[OF leafpart parentpart, unfolded conj_assoc n_def c_def]
  show ?thesis
    by (rule exI[of _ Lk], rule exI[of _ L'], rule body)
qed

text \<open>
  Claim C3 on three trees with \<open>max_size\<close> 4: the insertion of key 1 in front of the root
  leaf \<open>2, 3, 4\<close>; the insertion of key 6 into the leaf \<open>3, 4, 5\<close> whose parent has room;
  and the insertion of key 10 into the leaf \<open>7, 8, 9\<close> whose parent is full.
\<close>

lemma leaf_page_of_fields:
  "page_id (leaf_page_of pid parent nxt maxsz es) = pid"
  "parent_page_id (leaf_page_of pid parent nxt maxsz es) = parent"
  "next_page_id (leaf_page_of pid parent nxt maxsz es) = nxt"
  "max_size (leaf_page_of pid parent nxt maxsz es) = maxsz"
  "IsRootPage (leaf_page_of pid parent nxt maxsz es) = (parent = - 1)"
  by (simp_all add: leaf_page_of_def IsRootPage_def INVALID_PAGE_ID_def)


lemma internal_page_of_fields:
  "page_id (internal_page_of pid parent maxsz es) = pid"
  "parent_page_id (internal_page_of pid parent maxsz es) = parent"
  "max_size (internal_page_of pid parent maxsz es) = maxsz"
  by (simp_all add: internal_page_of_def)


theorem leaf_split_witness:
  "(\<exists>Lk L' R t3.
      InsertToLeaf hdr_8_8 (Suc 0) 1 10 bpt_234 = Inr (True, t3) \<and>
      leaf_entries Lk = [(1, 10), (2, 20)] \<and> leaf_entries L' = [(3, 30), (4, 40)] \<and>
      next_page_id L' = - 1 \<and> next_page_id Lk = 2 \<and> page_id L' = 2 \<and>
      Leaf_KeyAt L' 0 = 3 \<and> root_page_id t3 = 3 \<and>
      GetData t3 3 = Inr R \<and> internal_entries R = [(0, 1), (3, 2)] \<and>
      GetData t3 1 = Inr (Lk\<lparr>parent_page_id := 3\<rparr>) \<and>
      GetData t3 2 = Inr (L'\<lparr>parent_page_id := 3\<rparr>)) \<and>
   (\<exists>Lk L' P' t3.
      InsertToLeaf hdr_8_8 2 6 60 bpt_two_leaves = Inr (True, t3) \<and>
      leaf_entries Lk = [(3, 30), (4, 40)] \<and> leaf_entries L' = [(5, 50), (6, 60)] \<and>
      next_page_id L' = - 1 \<and> next_page_id Lk = 4 \<and> page_id L' = 4 \<and>
      Leaf_KeyAt L' 0 = 5 \<and>
      GetData t3 3 = Inr P' \<and> internal_entries P' = [(0, 1), (3, 2), (5, 4)] \<and>
      GetData t3 2 = Inr Lk \<and> GetData t3 4 = Inr L') \<and>
   (\<exists>Lk L' Pk S t3 q q'.
      InsertToLeaf hdr_8_8 2 10 100 bpt_full_parent =
        (case InsertIntoParent 1 3 (Internal_KeyAt S 0) 7 t3 of
           Inl e \<Rightarrow> Inl e
         | Inr t4 \<Rightarrow> Inr (True, t4)) \<and>
      leaf_entries Lk = [(7, 70), (8, 80)] \<and> leaf_entries L' = [(9, 90), (10, 100)] \<and>
      next_page_id L' = - 1 \<and> next_page_id Lk = 6 \<and> page_id L' = 6 \<and>
      Leaf_KeyAt L' 0 = 9 \<and>
      GetData t3 3 = Inr Pk \<and> internal_entries Pk = [(0, 1), (3, 2)] \<and>
      GetData t3 7 = Inr S \<and> internal_entries S = [(5, 4), (7, 5), (9, 6)] \<and>
      GetData t3 5 = Inr (Lk\<lparr>parent_page_id := q\<rparr>) \<and>
      GetData t3 6 = Inr (L'\<lparr>parent_page_id := q'\<rparr>))"
proof (intro conjI)
  show "\<exists>Lk L' R t3.
      InsertToLeaf hdr_8_8 (Suc 0) 1 10 bpt_234 = Inr (True, t3) \<and>
      leaf_entries Lk = [(1, 10), (2, 20)] \<and> leaf_entries L' = [(3, 30), (4, 40)] \<and>
      next_page_id L' = - 1 \<and> next_page_id Lk = 2 \<and> page_id L' = 2 \<and>
      Leaf_KeyAt L' 0 = 3 \<and> root_page_id t3 = 3 \<and>
      GetData t3 3 = Inr R \<and> internal_entries R = [(0, 1), (3, 2)] \<and>
      GetData t3 1 = Inr (Lk\<lparr>parent_page_id := 3\<rparr>) \<and>
      GetData t3 2 = Inr (L'\<lparr>parent_page_id := 3\<rparr>)"
  proof -
    define L :: "(int, int) BPlusTreePage" where
      "L = leaf_page_of 1 (- 1) (- 1) 4 [(2, 20), (3, 30), (4, 40)]"
    have find: "FindLeafPage (Suc 0) 1 False False bpt_234 = Inr 1" by code_simp
    have leaf: "GetData bpt_234 1 = Inr L"
      by (simp add: GetData_def FetchPage_def bpt_234_def L_def)
    have pid: "page_id L = 1" by (simp add: L_def leaf_page_of_fields)
    have absent: "Leaf_Lookup hdr_8_8 L 1 = Inr None" unfolding L_def by code_simp
    have ki: "Leaf_KeyIndex L 1 = Inr (- 1)" unfolding L_def by code_simp
    have szL: "psize L = 3" "leaf_entries L = [(2, 20), (3, 30), (4, 40)]"
      by (simp_all add: L_def leaf_page_of_simps)
    have "- 1 \<le> (- 1::int)" "- 1 \<le> psize L - 1" "psize L > 0" by (simp_all add: szL)
    from Leaf_Insert_entries[OF ki this, of 10] obtain L1 where
      ins: "Leaf_Insert L 1 10 = Inr (psize L + 1, L1)"
      and sz: "psize L1 = psize L + 1"
      and es: "leaf_entries L1 = [(1, 10), (2, 20), (3, 30), (4, 40)]"
      by (auto simp: szL)
    have tf: "leaf_max_size bpt_234 = 4" "next_free_page bpt_234 = 2"
      by (simp_all add: bpt_234_def)
    have full: "psize L1 = leaf_max_size bpt_234" using sz by (simp add: szL tf)
    have msz: "max_size L = leaf_max_size bpt_234" by (simp add: L_def leaf_page_of_fields tf)
    have fresh: "pages bpt_234 (next_free_page bpt_234) = None"
      "pages bpt_234 (next_free_page bpt_234 + 1) = None"
      by (simp_all add: bpt_234_def)
    have root: "IsRootPage L" by (simp add: L_def leaf_page_of_fields)
    have nx: "next_page_id L = - 1" by (simp add: L_def leaf_page_of_fields)
    have parent: "\<not> IsRootPage L \<Longrightarrow>
         GetData bpt_234 (parent_page_id L) = Inr L \<and> parent_page_id L \<noteq> 1 \<and> 0 \<le> psize L"
      using root by simp
    have pfull: "\<not> IsRootPage L \<Longrightarrow> \<not> psize L < internal_max_size bpt_234 \<Longrightarrow>
         0 \<le> GetMinSize L \<and> GetMinSize L \<le> psize L + 1 \<and>
         (\<forall>j<nat (psize L). pages bpt_234 (ValueAt L j) \<noteq> None)"
      using root by simp
    from leaf_split[OF find leaf pid absent ins full msz fresh parent pfull]
    obtain Lk L' R t3 where
      "InsertToLeaf hdr_8_8 (Suc 0) 1 10 bpt_234 = Inr (True, t3)"
      "leaf_entries Lk = [(1, 10), (2, 20)]" "leaf_entries L' = [(3, 30), (4, 40)]"
      "next_page_id L' = - 1" "next_page_id Lk = 2" "page_id L' = 2"
      "Leaf_KeyAt L' 0 = 3" "root_page_id t3 = 3"
      "GetData t3 3 = Inr R" "internal_entries R = [(0, 1), (3, 2)]"
      "GetData t3 1 = Inr (Lk\<lparr>parent_page_id := 3\<rparr>)"
      "GetData t3 2 = Inr (L'\<lparr>parent_page_id := 3\<rparr>)"
      unfolding tf es nx using root by (auto simp: numeral_2_eq_2)
    then show ?thesis by blast
  qed
  show "\<exists>Lk L' P' t3.
      InsertToLeaf hdr_8_8 2 6 60 bpt_two_leaves = Inr (True, t3) \<and>
      leaf_entries Lk = [(3, 30), (4, 40)] \<and> leaf_entries L' = [(5, 50), (6, 60)] \<and>
      next_page_id L' = - 1 \<and> next_page_id Lk = 4 \<and> page_id L' = 4 \<and>
      Leaf_KeyAt L' 0 = 5 \<and>
      GetData t3 3 = Inr P' \<and> internal_entries P' = [(0, 1), (3, 2), (5, 4)] \<and>
      GetData t3 2 = Inr Lk \<and> GetData t3 4 = Inr L'"
  proof -
    define L :: "(int, int) BPlusTreePage" where
      "L = leaf_page_of 2 3 (- 1) 4 [(3, 30), (4, 40), (5, 50)]"
    define P :: "(int, int) BPlusTreePage" where
      "P = internal_page_of 3 (- 1) 4 [(0, 1), (3, 2)]"
    have find: "FindLeafPage 2 6 False False bpt_two_leaves = Inr 2" by code_simp
    have leaf: "GetData bpt_two_leaves 2 = Inr L"
      by (simp add: GetData_def FetchPage_def bpt_two_leaves_def L_def)
    have pid: "page_id L = 2" by (simp add: L_def leaf_page_of_fields)
    have absent: "Leaf_Lookup hdr_8_8 L 6 = Inr None" unfolding L_def by code_simp
    have ki: "Leaf_KeyIndex L 6 = Inr 2" unfolding L_def by code_simp
    have szL: "psize L = 3" "leaf_entries L = [(3, 30), (4, 40), (5, 50)]"
      by (simp_all add: L_def leaf_page_of_simps)
    have "- 1 \<le> (2::int)" "2 \<le> psize L - 1" "psize L > 0" by (simp_all add: szL)
    from Leaf_Insert_entries[OF ki this, of 60] obtain L1 where
      ins: "Leaf_Insert L 6 60 = Inr (psize L + 1, L1)"
      and sz: "psize L1 = psize L + 1"
      and es: "leaf_entries L1 = [(3, 30), (4, 40), (5, 50), (6, 60)]"
      by (auto simp: szL numeral_3_eq_3)
    have tf: "leaf_max_size bpt_two_leaves = 4" "next_free_page bpt_two_leaves = 4"
      "internal_max_size bpt_two_leaves = 4"
      by (simp_all add: bpt_two_leaves_def)
    have full: "psize L1 = leaf_max_size bpt_two_leaves" using sz by (simp add: szL tf)
    have msz: "max_size L = leaf_max_size bpt_two_leaves"
      by (simp add: L_def leaf_page_of_fields tf)
    have fresh: "pages bpt_two_leaves (next_free_page bpt_two_leaves) = None"
      "pages bpt_two_leaves (next_free_page bpt_two_leaves + 1) = None"
      by (simp_all add: bpt_two_leaves_def)
    have root: "\<not> IsRootPage L" and pl: "parent_page_id L = 3" and nx: "next_page_id L = - 1"
      by (simp_all add: L_def leaf_page_of_fields)
    have Pf: "psize P = 2" "internal_entries P = [(0, 1), (3, 2)]"
      by (simp_all add: P_def internal_page_of_simps)
    have vi: "ValueIndex P 2 = 1" unfolding P_def by code_simp
    have parent: "\<not> IsRootPage L \<Longrightarrow>
         GetData bpt_two_leaves (parent_page_id L) = Inr P \<and> parent_page_id L \<noteq> 2 \<and> 0 \<le> psize P"
      using Pf(1) by (simp add: pl GetData_def FetchPage_def bpt_two_leaves_def P_def[symmetric])
    have pfull: "\<not> IsRootPage L \<Longrightarrow> \<not> psize P < internal_max_size bpt_two_leaves \<Longrightarrow>
         0 \<le> GetMinSize P \<and> GetMinSize P \<le> psize P + 1 \<and>
         (\<forall>j<nat (psize P). pages bpt_two_leaves (ValueAt P j) \<noteq> None)"
      by (simp add: Pf tf)
    from leaf_split[OF find leaf pid absent ins full msz fresh parent pfull]
    obtain Lk L' P' t3 where
      "InsertToLeaf hdr_8_8 2 6 60 bpt_two_leaves = Inr (True, t3)"
      "leaf_entries Lk = [(3, 30), (4, 40)]" "leaf_entries L' = [(5, 50), (6, 60)]"
      "next_page_id L' = - 1" "next_page_id Lk = 4" "page_id L' = 4"
      "Leaf_KeyAt L' 0 = 5"
      "GetData t3 3 = Inr P'" "internal_entries P' = [(0, 1), (3, 2), (5, 4)]"
      "GetData t3 2 = Inr Lk" "GetData t3 4 = Inr L'"
      unfolding tf es nx pl Pf vi using root by (auto simp: numeral_2_eq_2)
    then show ?thesis by blast
  qed
  show "\<exists>Lk L' Pk S t3 q q'.
      InsertToLeaf hdr_8_8 2 10 100 bpt_full_parent =
        (case InsertIntoParent 1 3 (Internal_KeyAt S 0) 7 t3 of
           Inl e \<Rightarrow> Inl e
         | Inr t4 \<Rightarrow> Inr (True, t4)) \<and>
      leaf_entries Lk = [(7, 70), (8, 80)] \<and> leaf_entries L' = [(9, 90), (10, 100)] \<and>
      next_page_id L' = - 1 \<and> next_page_id Lk = 6 \<and> page_id L' = 6 \<and>
      Leaf_KeyAt L' 0 = 9 \<and>
      GetData t3 3 = Inr Pk \<and> internal_entries Pk = [(0, 1), (3, 2)] \<and>
      GetData t3 7 = Inr S \<and> internal_entries S = [(5, 4), (7, 5), (9, 6)] \<and>
      GetData t3 5 = Inr (Lk\<lparr>parent_page_id := q\<rparr>) \<and>
      GetData t3 6 = Inr (L'\<lparr>parent_page_id := q'\<rparr>)"
  proof -
    define L :: "(int, int) BPlusTreePage" where
      "L = leaf_page_of 5 3 (- 1) 4 [(7, 70), (8, 80), (9, 90)]"
    define P :: "(int, int) BPlusTreePage" where
      "P = internal_page_of 3 (- 1) 4 [(0, 1), (3, 2), (5, 4), (7, 5)]"
    have find: "FindLeafPage 2 10 False False bpt_full_parent = Inr 5" by code_simp
    have leaf: "GetData bpt_full_parent 5 = Inr L"
      by (simp add: GetData_def FetchPage_def bpt_full_parent_def L_def)
    have pid: "page_id L = 5" by (simp add: L_def leaf_page_of_fields)
    have absent: "Leaf_Lookup hdr_8_8 L 10 = Inr None" unfolding L_def by code_simp
    have ki: "Leaf_KeyIndex L 10 = Inr 2" unfolding L_def by code_simp
    have szL: "psize L = 3" "leaf_entries L = [(7, 70), (8, 80), (9, 90)]"
      by (simp_all add: L_def leaf_page_of_simps)
    have "- 1 \<le> (2::int)" "2 \<le> psize L - 1" "psize L > 0" by (simp_all add: szL)
    from Leaf_Insert_entries[OF ki this, of 100] obtain L1 where
      ins: "Leaf_Insert L 10 100 = Inr (psize L + 1, L1)"
      and sz: "psize L1 = psize L + 1"
      and es: "leaf_entries L1 = [(7, 70), (8, 80), (9, 90), (10, 100)]"
      by (auto simp: szL numeral_3_eq_3)
    have tf: "leaf_max_size bpt_full_parent = 4" "next_free_page bpt_full_parent = 6"
      "internal_max_size bpt_full_parent = 4"
      by (simp_all add: bpt_full_parent_def)
    have full: "psize L1 = leaf_max_size bpt_full_parent" using sz by (simp add: szL tf)
    have msz: "max_size L = leaf_max_size bpt_full_parent"
      by (simp add: L_def leaf_page_of_fields tf)
    have fresh: "pages bpt_full_parent (next_free_page bpt_full_parent) = None"
      "pages bpt_full_parent (next_free_page bpt_full_parent + 1) = None"
      by (simp_all add: bpt_full_parent_def)
    have root: "\<not> IsRootPage L" and pl: "parent_page_id L = 3" and nx: "next_page_id L = - 1"
      by (simp_all add: L_def leaf_page_of_fields)
    have Pf: "psize P = 4" "internal_entries P = [(0, 1), (3, 2), (5, 4), (7, 5)]"
      "GetMinSize P = 2"
      by (simp_all add: P_def internal_page_of_simps)
    have vi: "ValueIndex P 5 = 3" unfolding P_def by code_simp
    have parent: "\<not> IsRootPage L \<Longrightarrow>
         GetData bpt_full_parent (parent_page_id L) = Inr P \<and> parent_page_id L \<noteq> 5 \<and> 0 \<le> psize P"
      using Pf(1) by (simp add: pl GetData_def FetchPage_def bpt_full_parent_def P_def[symmetric])
    have chs: "\<forall>j<nat (psize P). pages bpt_full_parent (ValueAt P j) \<noteq> None"
    proof (intro allI impI)
      fix j assume "j < nat (psize P)"
      then have "j = 0 \<or> j = 1 \<or> j = 2 \<or> j = 3" by (auto simp: Pf)
      then show "pages bpt_full_parent (ValueAt P j) \<noteq> None"
        by (auto simp: P_def internal_page_of_simps bpt_full_parent_def)
    qed
    have pfull: "\<not> IsRootPage L \<Longrightarrow> \<not> psize P < internal_max_size bpt_full_parent \<Longrightarrow>
         0 \<le> GetMinSize P \<and> GetMinSize P \<le> psize P + 1 \<and>
         (\<forall>j<nat (psize P). pages bpt_full_parent (ValueAt P j) \<noteq> None)"
      using chs by (simp add: Pf)
    from leaf_split[OF find leaf pid absent ins full msz fresh parent pfull]
    obtain Lk L' Pk S t3 q q' where
      "InsertToLeaf hdr_8_8 2 10 100 bpt_full_parent =
          (case InsertIntoParent 1 3 (Internal_KeyAt S 0) 7 t3 of
             Inl e \<Rightarrow> Inl e
           | Inr t4 \<Rightarrow> Inr (True, t4))"
      "leaf_entries Lk = [(7, 70), (8, 80)]" "leaf_entries L' = [(9, 90), (10, 100)]"
      "next_page_id L' = - 1" "next_page_id Lk = 6" "page_id L' = 6"
      "Leaf_KeyAt L' 0 = 9"
      "GetData t3 3 = Inr Pk" "internal_entries Pk = [(0, 1), (3, 2)]"
      "GetData t3 7 = Inr S" "internal_entries S = [(5, 4), (7, 5), (9, 6)]"
      "GetData t3 5 = Inr (Lk\<lparr>parent_page_id := q\<rparr>)"
      "GetData t3 6 = Inr (L'\<lparr>parent_page_id := q'\<rparr>)"
      unfolding tf es nx pl Pf vi using root by (auto simp: numeral_2_eq_2)
    then show ?thesis by blast
  qed
qed
end
